(* ===== verification/Prelude.thy ===== *)
theory Prelude
  imports Main "HOL-Library.Word"
begin

text \<open>
  Shared vocabulary of the development: the machine integers of the C++ code, byte strings with
  their big-endian value, and the library routines of the language that several components use
  (\<^verbatim>\<open>memcmp\<close>, \<^verbatim>\<open>std::lexicographical_compare\<close>, \<^verbatim>\<open>std::list::sort\<close> and \<^verbatim>\<open>merge\<close>, the helpers
  of \<^verbatim>\<open>utils/list.h\<close>). Lemmas other theories rewrite with are collected in
  \<open>byte_simps\<close> (bytes and their value) and \<open>list_simps\<close> (container helpers).
\<close>

unbundle bit_operations_syntax

named_theorems byte_simps
named_theorems list_simps

type_synonym u8 = "8 word"
type_synonym u16 = "16 word"
type_synonym u32 = "32 word"
type_synonym u64 = "64 word"

section \<open>Byte strings\<close>

text \<open>The big-endian number a byte string denotes.\<close>

fun be_val :: "u8 list \<Rightarrow> nat" where
  "be_val [] = 0"
| "be_val (b # bs) = unat b * 256 ^ length bs + be_val bs"

text \<open>\<^verbatim>\<open>memcmp\<close> on two buffers of equal length: only the sign of its result is specified.\<close>

fun memcmp :: "u8 list \<Rightarrow> u8 list \<Rightarrow> int" where
  "memcmp (x # xs) (y # ys) = (if x < y then -1 else if y < x then 1 else memcmp xs ys)"
| "memcmp _ _ = 0"

text \<open>\<^verbatim>\<open>std::lexicographical_compare\<close> on bytes.\<close>

fun lexicographical_compare :: "u8 list \<Rightarrow> u8 list \<Rightarrow> bool" where
  "lexicographical_compare xs [] = False"
| "lexicographical_compare [] (y # ys) = True"
| "lexicographical_compare (x # xs) (y # ys) =
     (if x < y then True else if y < x then False else lexicographical_compare xs ys)"

text \<open>The loop \<^verbatim>\<open>for (i = 0; i < n; i++) if (a[i] != b[i]) { mmi = i; break; }\<close>.\<close>

fun mismatch_from :: "nat \<Rightarrow> u8 list \<Rightarrow> u8 list \<Rightarrow> nat option" where
  "mismatch_from i (x # xs) (y # ys) = (if x \<noteq> y then Some i else mismatch_from (Suc i) xs ys)"
| "mismatch_from i _ _ = None"

lemma unat_u8_less [byte_simps]: "unat (b :: u8) < 256"
  using unsigned_less [of b] by simp

lemma be_val_less [byte_simps]: "be_val bs < 256 ^ length bs"
proof (induction bs)
  case (Cons b bs)
  have "unat b * 256 ^ length bs + be_val bs < (unat b + 1) * 256 ^ length bs"
    using Cons.IH by simp
  also have "\<dots> \<le> 256 * 256 ^ length bs"
    using unat_u8_less [of b] by (intro mult_right_mono) auto
  finally show ?case by simp
qed simp

lemma be_val_append: "be_val (xs @ ys) = be_val xs * 256 ^ length ys + be_val ys"
  by (induction xs) (auto simp: algebra_simps power_add)

lemma be_val_Cons_less:
  assumes "length xs = length ys" and "x < y"
  shows "be_val (x # xs) < be_val (y # ys)"
proof -
  have "be_val (x # xs) < (unat x + 1) * 256 ^ length xs"
    using be_val_less [of xs] by simp
  also have "\<dots> \<le> unat y * 256 ^ length xs"
    using assms(2) by (intro mult_right_mono) (auto simp: word_less_nat_alt)
  also have "\<dots> \<le> be_val (y # ys)" using assms(1) by simp
  finally show ?thesis .
qed

lemma memcmp_sgn [byte_simps]:
  "length xs = length ys \<Longrightarrow> memcmp xs ys = sgn (int (be_val xs) - int (be_val ys))"
proof (induction xs ys rule: list_induct2)
  case (Cons x xs y ys)
  show ?case
  proof (cases x y rule: linorder_cases)
    case less
    with Cons.hyps have "be_val (x # xs) < be_val (y # ys)" by (intro be_val_Cons_less)
    with less show ?thesis by (simp del: be_val.simps)
  next
    case equal
    with Cons show ?thesis by simp
  next
    case greater
    with Cons.hyps have "be_val (y # ys) < be_val (x # xs)" by (intro be_val_Cons_less) auto
    with greater show ?thesis by (auto simp del: be_val.simps)
  qed
qed simp

lemma lexicographical_compare_iff [byte_simps]:
  "length xs = length ys \<Longrightarrow> lexicographical_compare xs ys \<longleftrightarrow> be_val xs < be_val ys"
proof (induction xs ys rule: list_induct2)
  case (Cons x xs y ys)
  then show ?case
    using be_val_Cons_less [of xs ys x y] be_val_Cons_less [of ys xs y x]
    by (cases x y rule: linorder_cases) auto
qed simp

lemma be_val_inj: "length xs = length ys \<Longrightarrow> be_val xs = be_val ys \<Longrightarrow> xs = ys"
proof (induction xs ys rule: list_induct2)
  case (Cons x xs y ys)
  then show ?case
    using be_val_Cons_less [of xs ys x y] be_val_Cons_less [of ys xs y x]
    by (cases x y rule: linorder_cases) auto
qed simp

text \<open>A number split at bit \<open>n\<close> into a high and a low part.\<close>

lemma bit_shift_add:
  assumes "r < 2 ^ n"
  shows "bit (a * 2 ^ n + r :: nat) k \<longleftrightarrow> (if k < n then bit r k else bit a (k - n))"
proof -
  let ?x = "a * 2 ^ n + r"
  have "take_bit n ?x = r" using assms by (simp add: take_bit_eq_mod)
  moreover have "drop_bit n ?x = a" using assms by (simp add: drop_bit_eq_div)
  ultimately show ?thesis
    by (metis bit_drop_bit_eq bit_take_bit_iff comp_apply le_add_diff_inverse not_less)
qed

lemma bit_be_val:
  "bit (be_val bs) k \<longleftrightarrow> k < 8 * length bs \<and> bit (bs ! (length bs - 1 - k div 8)) (k mod 8)"
proof (induction bs arbitrary: k)
  case (Cons b bs)
  let ?n = "8 * length bs"
  have pow: "256 ^ length bs = (2 :: nat) ^ ?n"
    by (simp add: power_mult)
  have "be_val bs < 2 ^ ?n" using be_val_less [of bs] by (simp add: pow)
  then have split: "bit (be_val (b # bs)) k \<longleftrightarrow> (if k < ?n then bit (be_val bs) k else bit (unat b) (k - ?n))"
    using bit_shift_add by (simp add: pow)
  show ?case
  proof (cases "k < ?n")
    case True
    then have "k div 8 < length bs" by (simp add: div_less_iff_less_mult mult.commute)
    then have "(b # bs) ! (length bs - k div 8) = bs ! (length bs - 1 - k div 8)"
      by (simp add: nth_Cons')
    then show ?thesis using split True Cons.IH [of k] by simp
  next
    case False
    have bnd: "bit (unat b) j \<longleftrightarrow> j < 8 \<and> bit b j" for j
      using bit_imp_le_length [of b j] by (auto simp: bit_unsigned_iff)
    show ?thesis
    proof (cases "k < 8 * length (b # bs)")
      case True
      then have "k div 8 = length bs" using False by auto
      moreover from this have "k mod 8 = k - ?n" by (simp add: modulo_nat_def)
      ultimately have idx: "k div 8 = length bs" "k mod 8 = k - ?n" by auto
      have "k - ?n < 8" using True by simp
      then have "bit (be_val (b # bs)) k \<longleftrightarrow> bit b (k - ?n)"
        using split False by (simp only: bnd if_False simp_thms)
      then show ?thesis using True idx by (simp del: be_val.simps)
    next
      case nlt: False
      then have "\<not> k - ?n < 8" by simp
      then show ?thesis using split False nlt by (simp only: bnd if_False simp_thms)
    qed
  qed
qed simp

lemma div_mod_8I: "n = 8 * q + r \<Longrightarrow> r < 8 \<Longrightarrow> n div 8 = q \<and> n mod 8 = (r :: nat)"
  by simp

lemma mismatch_from_None: "length xs = length ys \<Longrightarrow> mismatch_from i xs ys = None \<longleftrightarrow> xs = ys"
  by (induction xs ys arbitrary: i rule: list_induct2) auto

lemma mismatch_from_Some:
  assumes "mismatch_from i xs ys = Some m" and "length xs = length ys"
  shows "i \<le> m \<and> m - i < length xs \<and> xs ! (m - i) \<noteq> ys ! (m - i) \<and> take (m - i) xs = take (m - i) ys"
  using assms(2,1)
proof (induction xs ys arbitrary: i rule: list_induct2)
  case (Cons x xs y ys)
  show ?case
  proof (cases "x = y")
    case True
    with Cons.prems have "mismatch_from (Suc i) xs ys = Some m" by simp
    from Cons.IH [OF this] True show ?thesis by (auto simp: nth_Cons' take_Cons' Suc_diff_Suc)
  next
    case False
    with Cons.prems show ?thesis by simp
  qed
qed simp

lemma memcmp_first_difference:
  assumes "length xs = length ys" and "m < length xs" and "take m xs = take m ys" and "xs ! m \<noteq> ys ! m"
  shows "memcmp xs ys = (if xs ! m < ys ! m then -1 else 1)"
  using assms
proof (induction xs ys arbitrary: m rule: list_induct2)
  case (Cons x xs y ys)
  then show ?case by (cases m) auto
qed simp

text \<open>The masks \<^verbatim>\<open>0xff80 >> r\<close> of the identifier code.\<close>

lemma bit_ff80: "bit (0xff80 :: int) q \<longleftrightarrow> 7 \<le> q \<and> q \<le> 15"
proof -
  have "bit (push_bit 7 (mask 9) :: int) q \<longleftrightarrow> 7 \<le> q \<and> q \<le> 15"
    by (auto simp: bit_push_bit_iff bit_mask_iff)
  then show ?thesis by (simp add: mask_eq_exp_minus_1 push_bit_eq_mult)
qed

lemma bit_prefix_mask: "p < 8 \<Longrightarrow> r < 8 \<Longrightarrow> bit (drop_bit r (0xff80 :: int)) p \<longleftrightarrow> 7 - r \<le> p"
  by (auto simp: bit_drop_bit_eq bit_ff80)

lemma bit_u8_length: "bit (b :: u8) p \<Longrightarrow> p < 8"
  using bit_imp_le_length [of b p] by simp

lemma u8_eq_iff: "(a :: u8) = b \<longleftrightarrow> (\<forall>p < 8. bit a p = bit b p)"
  using bit_u8_length by (auto intro!: bit_word_eqI)

lemma int_and_eq_0_iff: "uint (b :: u8) AND m = 0 \<longleftrightarrow> (\<forall>p < 8. bit b p \<longrightarrow> \<not> bit m p)"
  by (auto simp: bit_eq_iff bit_and_iff bit_uint_iff dest: bit_u8_length)

lemma bit_word_of_int_u8: "bit (word_of_int k :: u8) p \<longleftrightarrow> p < 8 \<and> bit k p"
  by (simp add: bit_word_of_int_iff)

lemma bit_masked_copy:
  "p < 8 \<Longrightarrow> bit (word_of_int (uint (word_of_int (uint d AND NOT m) :: u8) OR (uint s AND m)) :: u8) p \<longleftrightarrow>
     (if bit m p then bit (s :: u8) p else bit (d :: u8) p)"
  by (auto simp: bit_word_of_int_u8 bit_or_iff bit_and_iff bit_not_iff bit_uint_iff)

lemma nat_and_7: "0 \<le> n \<Longrightarrow> nat (n AND 7) = nat n mod 8"
proof -
  assume "0 \<le> n"
  have "n AND 7 = take_bit 3 n" using take_bit_eq_mask [of 3 n] by (simp add: mask_eq_exp_minus_1)
  then show ?thesis using \<open>0 \<le> n\<close> by (simp add: take_bit_eq_mod nat_mod_distrib)
qed

lemma nat_drop_bit_3: "0 \<le> n \<Longrightarrow> nat (drop_bit 3 n) = nat n div 8"
  by (simp add: drop_bit_eq_div nat_div_distrib)

lemma xor_cancel_right: "a XOR c = b XOR c \<longleftrightarrow> a = (b :: 'a :: semiring_bit_operations)"
  by (metis xor.assoc xor.comm_neutral xor_self_eq)

lemma xor_le_add: "x XOR y \<le> x + (y :: nat)"
proof (induction x arbitrary: y rule: less_induct)
  case (less x)
  show ?case
  proof (cases "x = 0")
    case False
    then have "x div 2 XOR y div 2 \<le> x div 2 + y div 2" by (intro less.IH) simp
    moreover have "x XOR y = (x mod 2 + y mod 2) mod 2 + 2 * (x div 2 XOR y div 2)"
      by (subst xor_nat_unfold) (auto simp: mod_2_eq_odd)
    moreover have "(x mod 2 + y mod 2) mod 2 \<le> x mod 2 + y mod 2" by simp
    ultimately show ?thesis using div_mult_mod_eq [of x 2] div_mult_mod_eq [of y 2] by linarith
  qed simp
qed

text \<open>Bits of a byte counted from the most significant one.\<close>

lemma all_less_8_rev: "(\<forall>p < 8. P p) \<longleftrightarrow> (\<forall>j < 8. P (7 - j :: nat))"
proof safe
  fix p :: nat assume "\<forall>j < 8. P (7 - j)" "p < 8"
  moreover from \<open>p < 8\<close> have "7 - p < 8" "7 - (7 - p) = p" by auto
  ultimately show "P p" by metis
qed auto

lemma byte_prefix_bits:
  assumes "r < 8"
  shows "uint (x XOR y :: u8) AND drop_bit r 0xff80 = 0 \<longleftrightarrow> (\<forall>j \<le> r. bit x (7 - j) = bit y (7 - j))"
proof -
  have "uint (x XOR y) AND drop_bit r 0xff80 = 0 \<longleftrightarrow> (\<forall>p < 8. 7 - r \<le> p \<longrightarrow> bit x p = bit y p)"
    using bit_prefix_mask [of _ r] assms by (auto simp: int_and_eq_0_iff bit_xor_iff)
  also have "\<dots> \<longleftrightarrow> (\<forall>j < 8. 7 - r \<le> 7 - j \<longrightarrow> bit x (7 - j) = bit y (7 - j))"
    by (rule all_less_8_rev)
  also have "\<dots> \<longleftrightarrow> (\<forall>j \<le> r. bit x (7 - j) = bit y (7 - j))" using assms by auto
  finally show ?thesis .
qed

lemma all_bits_upto:
  assumes "r < 8"
  shows "(\<forall>k \<le> 8 * q + r. P k) \<longleftrightarrow> (\<forall>m < q. \<forall>j < 8. P (8 * m + j)) \<and> (\<forall>j \<le> r. P (8 * q + j :: nat))"
proof safe
  fix k assume lo: "\<forall>m < q. \<forall>j < 8. P (8 * m + j)" and hi: "\<forall>j \<le> r. P (8 * q + j)" and k: "k \<le> 8 * q + r"
  show "P k"
  proof (cases "k < 8 * q")
    case True
    then have "k div 8 < q" by auto
    then have "P (8 * (k div 8) + k mod 8)" using lo by (metis mod_less_divisor zero_less_numeral)
    then show ?thesis by simp
  next
    case False
    then have "k - 8 * q \<le> r" "8 * q + (k - 8 * q) = k" using k by auto
    then show ?thesis using hi by metis
  qed
qed (use assms in auto)

lemma unset_bit_nat_eq: "unset_bit n (a :: nat) = a - of_bool (bit a n) * 2 ^ n"
proof (cases "bit a n")
  case True
  have "set_bit n (unset_bit n a) = a"
    by (rule bit_eqI) (use True in \<open>auto simp: bit_set_bit_iff bit_unset_bit_iff possible_bit_def\<close>)
  then show ?thesis using True by (simp add: set_bit_eq bit_unset_bit_iff)
next
  case False
  then have "unset_bit n a = a" by (intro bit_eqI) (auto simp: bit_unset_bit_iff)
  then show ?thesis using False by simp
qed

section \<open>Containers\<close>

text \<open>A loop that changes the first element satisfying a condition and returns.\<close>

fun update_first :: "('a \<Rightarrow> bool) \<Rightarrow> ('a \<Rightarrow> 'a) \<Rightarrow> 'a list \<Rightarrow> 'a list" where
  "update_first P f [] = []"
| "update_first P f (x # xs) = (if P x then f x # xs else x # update_first P f xs)"

lemma length_update_first [simp]: "length (update_first P f xs) = length xs"
  by (induction xs) auto

lemma map_update_first: "(\<And>x. g (f x) = g x) \<Longrightarrow> map g (update_first P f xs) = map g xs"
  by (induction xs) auto

lemma set_update_first: "y \<in> set (update_first P f xs) \<Longrightarrow> y \<in> set xs \<or> (\<exists>x \<in> set xs. P x \<and> y = f x)"
  by (induction xs) (auto split: if_splits)

lemma update_first_none: "\<forall>x \<in> set xs. \<not> P x \<Longrightarrow> update_first P f xs = xs"
  by (induction xs) auto

lemma find_Some_in: "find P xs = Some x \<Longrightarrow> x \<in> set xs \<and> P x"
  by (induction xs) (auto split: if_splits)

lemma find_eq_None: "find P xs = None \<longleftrightarrow> (\<forall>x \<in> set xs. \<not> P x)"
  by (induction xs) auto

text \<open>\<^verbatim>\<open>list_removeAll\<close> and \<^verbatim>\<open>list_addAll\<close> of \<^verbatim>\<open>utils/list.h\<close>.\<close>

definition list_removeAll :: "'a list \<Rightarrow> 'a list \<Rightarrow> 'a list" where
  "list_removeAll xs toRemove = fold remove1 toRemove xs"

definition list_addAll :: "'a list \<Rightarrow> 'a list \<Rightarrow> 'a list" where
  "list_addAll xs toAdd = fold (\<lambda>x ys. ys @ [x]) toAdd xs"

lemma list_addAll_append: "list_addAll xs ys = xs @ ys"
  unfolding list_addAll_def by (induction ys arbitrary: xs) auto

text \<open>A loop over a list whose body may fail.\<close>

fun ofold :: "('a \<Rightarrow> 's \<Rightarrow> 's option) \<Rightarrow> 'a list \<Rightarrow> 's \<Rightarrow> 's option" where
  "ofold f [] s = Some s"
| "ofold f (x # xs) s = Option.bind (f x s) (ofold f xs)"

lemma ofold_invariant:
  assumes "P s" and "\<And>x s. x \<in> set xs \<Longrightarrow> P s \<Longrightarrow> \<exists>s'. f x s = Some s' \<and> P s'"
  obtains s' where "ofold f xs s = Some s'" "P s'"
proof -
  have "\<exists>s'. ofold f xs s = Some s' \<and> P s'"
    using assms
  proof (induction xs arbitrary: s)
    case (Cons x xs)
    then obtain s1 where "f x s = Some s1" "P s1" by (metis list.set_intros(1))
    then show ?case using Cons.IH [of s1] Cons.prems(2) by auto
  qed auto
  then show thesis using that by blast
qed

text \<open>\<^verbatim>\<open>std::list::sort\<close> with a comparator: a stable sort.\<close>

fun insert_by :: "('a \<Rightarrow> 'a \<Rightarrow> bool) \<Rightarrow> 'a \<Rightarrow> 'a list \<Rightarrow> 'a list" where
  "insert_by lt x [] = [x]"
| "insert_by lt x (y # ys) = (if lt y x then y # insert_by lt x ys else x # y # ys)"

definition sort_by :: "('a \<Rightarrow> 'a \<Rightarrow> bool) \<Rightarrow> 'a list \<Rightarrow> 'a list" where
  "sort_by lt xs = foldr (insert_by lt) xs []"

lemma sort_by_key:
  fixes f :: "'a \<Rightarrow> 'b :: linorder"
  assumes "\<And>x y. lt x y \<longleftrightarrow> f x < f y"
  shows "sort_by lt xs = sort_key f xs"
proof -
  have "insert_by lt x ys = insort_key f x ys" for x ys
    by (induction ys) (auto simp: assms not_less)
  then have "insert_by lt = insort_key f" by blast
  then show ?thesis by (simp add: sort_by_def sort_key_def)
qed

lemma ofold_append: "ofold f (xs @ ys) s = Option.bind (ofold f xs s) (ofold f ys)"
proof (induction xs arbitrary: s)
  case (Cons x xs)
  then show ?case by (cases "f x s") simp_all
qed simp

end
