(* ===== verification/Ids.thy ===== *)
theory Ids
  imports Prelude
begin

text \<open>
  The 256-bit identifiers of \<^verbatim>\<open>include/boson/id.h\<close> and \<^verbatim>\<open>src/core/id.cc\<close>. An \<open>id\<close> is a
  \<^verbatim>\<open>std::array<uint8_t, 32>\<close>: the type carries the length. \<open>id_val\<close> reads it as a big-endian
  number below \<open>2 ^ 256\<close>; the lemmas relate every operation to that number, so that the other
  theories reason about numbers and intervals instead of masks and byte loops.
\<close>

abbreviation (input) ID_BYTES :: nat where "ID_BYTES \<equiv> 32"

abbreviation (input) ID_BITS :: nat where "ID_BITS \<equiv> 256"

typedef id = "{bs :: u8 list. length bs = ID_BYTES}"
  morphisms bytes Abs_id
  by (rule exI [of _ "replicate 32 0"]) simp

setup_lifting type_definition_id

lift_definition zero_id :: id is "replicate ID_BYTES 0" by simp

text \<open>\<^verbatim>\<open>Id::MAX_ID = Id::ofHex("0xFFFF...")\<close>.\<close>

lift_definition MAX_ID :: id is "replicate ID_BYTES 0xFF" by simp

text \<open>\<^verbatim>\<open>Id(const Blob&)\<close> throws \<^verbatim>\<open>std::invalid_argument\<close> unless the blob has 32 bytes.\<close>

definition id_of_blob :: "u8 list \<Rightarrow> id option" where
  "id_of_blob b = (if b = [] \<or> length b \<noteq> ID_BYTES then None else Some (Abs_id b))"

lift_definition distance :: "id \<Rightarrow> id \<Rightarrow> id" is "\<lambda>a to. map2 (\<lambda>x y. x XOR y) a to" by simp

definition threeWayCompare :: "id \<Rightarrow> id \<Rightarrow> id \<Rightarrow> int" where
  "threeWayCompare self id1 id2 =
     (case mismatch_from 0 (bytes id1) (bytes id2) of
        None \<Rightarrow> 0
      | Some mmi \<Rightarrow>
          let a = bytes id1 ! mmi XOR bytes self ! mmi;
              b = bytes id2 ! mmi XOR bytes self ! mmi
          in if a < b then -1 else if a > b then 1 else 0)"

abbreviation (input) INT_MAX :: int where "INT_MAX \<equiv> 2147483647"

definition bitsEqual :: "id \<Rightarrow> id \<Rightarrow> int \<Rightarrow> bool" where
  "bitsEqual id1 id2 n =
     (if n < 0 then True
      else let mmi = (case mismatch_from 0 (bytes id1) (bytes id2) of None \<Rightarrow> INT_MAX | Some i \<Rightarrow> int i);
               indexToCheck = drop_bit 3 n;
               diff = bytes id1 ! nat indexToCheck XOR bytes id2 ! nat indexToCheck;
               bitsDiff = (uint diff AND drop_bit (nat (n AND 0x07)) 0xff80) = 0
           in if mmi = indexToCheck then bitsDiff else indexToCheck < mmi)"

text \<open>
  \<^verbatim>\<open>Id::bitsCopy\<close> writes through its second argument; the model returns the new value of it.
\<close>

lift_definition bitsCopy :: "id \<Rightarrow> id \<Rightarrow> int \<Rightarrow> id" is
  "\<lambda>src dest depth.
     if depth < 0 then dest
     else let idx = nat (drop_bit 3 depth);
              d = (if idx > 0 then take idx src @ drop idx dest else dest);
              mask = drop_bit (nat (depth AND 0x07)) (0xff80 :: int);
              d' = d[idx := word_of_int (uint (d ! idx) AND NOT mask)]
          in d'[idx := word_of_int (uint (d' ! idx) OR (uint (src ! idx) AND mask))]"
  by (auto simp: Let_def)

text \<open>\<^verbatim>\<open>Id::getLeadingZeros\<close>: the loop over the zero bytes, then a search within a byte.\<close>

fun skip_zero_bytes :: "nat \<Rightarrow> u8 list \<Rightarrow> nat \<times> u8 option" where
  "skip_zero_bytes i [] = (i, None)"
| "skip_zero_bytes i (b # bs) = (if b = 0 then skip_zero_bytes (Suc i) bs else (i, Some b))"

definition byte_leading_zeros :: "u8 \<Rightarrow> int" where
  "byte_leading_zeros b0 =
     (let (n, b) = (if b0 \<ge> 16 then (3, drop_bit 4 b0) else (7, b0));
          (n, b) = (if b \<ge> 4 then (n - 2, drop_bit 2 b) else (n, b))
      in n - uint (drop_bit 1 b))"

definition getLeadingZeros :: "id \<Rightarrow> int" where
  "getLeadingZeros i =
     (case skip_zero_bytes 0 (bytes i) of
        (k, None) \<Rightarrow> int k * 8
      | (k, Some b) \<Rightarrow> int k * 8 + byte_leading_zeros b)"

definition compareTo :: "id \<Rightarrow> id \<Rightarrow> int" where
  "compareTo a b = memcmp (bytes a) (bytes b)"

text \<open>
  \<^verbatim>\<open>Id::toBinaryString\<close>. The subscript of the source is \<^verbatim>\<open>i / 3\<close>; reading past the end of the
  array is undefined behaviour, modelled as \<^const>\<open>None\<close>.
\<close>

fun toBinaryString_from :: "nat \<Rightarrow> nat \<Rightarrow> id \<Rightarrow> string \<Rightarrow> string option" where
  "toBinaryString_from 0 i self str = Some str"
| "toBinaryString_from (Suc left) i self str =
     (if i div 3 < ID_BYTES
      then let c = (if uint (bytes self ! (i div 3)) AND drop_bit (i mod 8) 0x80 \<noteq> 0 then CHR ''1'' else CHR ''0'');
               str = str @ [c];
               str = (if i mod 4 = 3 then str @ '' '' else str)
           in toBinaryString_from left (Suc i) self str
      else None)"

definition id_toBinaryString :: "id \<Rightarrow> string option" where
  "id_toBinaryString self = toBinaryString_from (ID_BYTES * 8) 0 self []"

text \<open>Equality is \<^verbatim>\<open>operator==\<close> and the order is \<^verbatim>\<open>operator<\<close>.\<close>

instantiation id :: "{equal, linorder}"
begin

definition equal_id :: "id \<Rightarrow> id \<Rightarrow> bool" where
  "equal_id a b \<longleftrightarrow> compareTo a b = 0"

definition less_id :: "id \<Rightarrow> id \<Rightarrow> bool" where
  "less_id a b \<longleftrightarrow> lexicographical_compare (bytes a) (bytes b)"

definition less_eq_id :: "id \<Rightarrow> id \<Rightarrow> bool" where
  "less_eq_id a b \<longleftrightarrow> \<not> lexicographical_compare (bytes b) (bytes a)"

instance
proof
  have len: "length (bytes a) = 32" for a using bytes [of a] by simp
  have inj: "be_val (bytes a) = be_val (bytes b) \<longleftrightarrow> a = b" for a b
    using be_val_inj [of "bytes a" "bytes b"] len bytes_inject by auto
  note ord = less_id_def less_eq_id_def lexicographical_compare_iff len
  fix a b c :: id
  show "equal_class.equal a b \<longleftrightarrow> a = b"
    by (simp add: equal_id_def compareTo_def memcmp_sgn len sgn_0_0 inj)
  show "a < b \<longleftrightarrow> a \<le> b \<and> \<not> b \<le> a" "a \<le> a" "a \<le> b \<or> b \<le> a" by (auto simp: ord)
  show "a \<le> b \<Longrightarrow> b \<le> c \<Longrightarrow> a \<le> c" "a \<le> b \<Longrightarrow> b \<le> a \<Longrightarrow> a = b"
    by (simp_all add: ord inj [symmetric])
qed

end

section \<open>The number an identifier denotes\<close>

definition id_val :: "id \<Rightarrow> nat" where
  "id_val i = be_val (bytes i)"

lemma length_bytes [simp]: "length (bytes i) = 32"
  using bytes [of i] by simp

lemma id_val_inj [simp]: "id_val a = id_val b \<longleftrightarrow> a = b"
  using be_val_inj [of "bytes a" "bytes b"] bytes_inject by (auto simp: id_val_def)

lemma id_val_less: "id_val i < 2 ^ 256"
  using be_val_less [of "bytes i"] by (simp add: id_val_def)

lemma id_less_iff: "a < b \<longleftrightarrow> id_val a < id_val b"
  by (simp add: less_id_def id_val_def lexicographical_compare_iff)

lemma id_le_iff: "a \<le> b \<longleftrightarrow> id_val a \<le> id_val b"
  by (auto simp: less_eq_id_def id_val_def lexicographical_compare_iff)

lemma compareTo_sgn: "compareTo a b = sgn (int (id_val a) - int (id_val b))"
  by (simp add: compareTo_def id_val_def memcmp_sgn)

lemma compareTo_less: "compareTo a b < 0 \<longleftrightarrow> a < b"
  by (simp add: compareTo_sgn id_less_iff)

lemma compareTo_greater: "compareTo a b > 0 \<longleftrightarrow> b < a"
  by (simp add: compareTo_sgn id_less_iff)

lemma compareTo_eq: "compareTo a b = 0 \<longleftrightarrow> a = b"
  using id_val_inj [of a b] by (simp add: compareTo_sgn sgn_0_0 del: id_val_inj)

text \<open>Bit \<open>i\<close> of an identifier, counted from the most significant one.\<close>

definition id_bit :: "id \<Rightarrow> nat \<Rightarrow> bool" where
  "id_bit i k = bit (bytes i ! (k div 8)) (7 - k mod 8)"

lemma bit_id_val: "bit (id_val i) k \<longleftrightarrow> k < 256 \<and> id_bit i (255 - k)"
proof -
  have "(255 - k) div 8 = 31 - k div 8 \<and> 7 - (255 - k) mod 8 = k mod 8" if "k < 256"
  proof -
    have "k div 8 \<le> 31" "k = 8 * (k div 8) + k mod 8" "k mod 8 \<le> 7" using that by auto
    then have "255 - k = 8 * (31 - k div 8) + (7 - k mod 8)" by linarith
    from div_mod_8I [OF this] show ?thesis using \<open>k mod 8 \<le> 7\<close> by simp
  qed
  then show ?thesis by (auto simp: id_val_def id_bit_def bit_be_val)
qed

lemma id_eq_bits: "a = b \<longleftrightarrow> (\<forall>k < 256. id_bit a k = id_bit b k)"
proof
  assume eq: "\<forall>k < 256. id_bit a k = id_bit b k"
  have "id_val a = id_val b" by (rule bit_eqI) (use eq in \<open>auto simp: bit_id_val\<close>)
  then show "a = b" by simp
qed simp

lemma id_bit_byte: "j < 8 \<Longrightarrow> id_bit a (8 * m + j) = bit (bytes a ! m) (7 - j)"
  using div_mod_8I [OF refl, of j m] by (simp add: id_bit_def)

lemma byte_eq_bits: "bytes a ! m = bytes b ! m \<longleftrightarrow> (\<forall>j < 8. id_bit a (8 * m + j) = id_bit b (8 * m + j))"
  by (simp add: u8_eq_iff id_bit_byte all_less_8_rev [of "\<lambda>p. bit (bytes a ! m) p = bit (bytes b ! m) p"])

lemma id_bit_distance: "k < 256 \<Longrightarrow> id_bit (distance a b) k \<longleftrightarrow> id_bit a k \<noteq> id_bit b k"
  by (simp add: id_bit_def distance.rep_eq bit_xor_iff less_mult_imp_div_less)

lemma id_val_distance: "id_val (distance a b) = id_val a XOR id_val b"
  by (rule bit_eqI) (auto simp: bit_id_val bit_xor_iff id_bit_distance)

lemma distance_commute: "distance a b = distance b a"
  by (simp flip: id_val_inj add: id_val_distance xor.commute)

lemma distance_zero_iff: "id_val (distance a b) = 0 \<longleftrightarrow> a = b"
  by (metis distance_commute id_val_distance id_val_inj xor.left_neutral xor_cancel_right xor_self_eq)

lemma distance_involution: "distance a (distance a b) = b"
  by (simp flip: id_val_inj add: id_val_distance flip: xor.assoc)

text \<open>The comparison of two identifiers seen from a third is the comparison of the XOR distances.\<close>

lemma threeWayCompare_sgn:
  "threeWayCompare t a b = sgn (int (id_val (distance t a)) - int (id_val (distance t b)))"
proof -
  let ?da = "bytes (distance t a)" and ?db = "bytes (distance t b)"
  have "threeWayCompare t a b = memcmp ?da ?db"
  proof (cases "mismatch_from 0 (bytes a) (bytes b)")
    case None
    then have "a = b" using mismatch_from_None [of "bytes a" "bytes b"] bytes_inject by simp
    then show ?thesis using None by (simp add: threeWayCompare_def memcmp_sgn)
  next
    case (Some m)
    then have m: "m < 32" "bytes a ! m \<noteq> bytes b ! m" "take m (bytes a) = take m (bytes b)"
      using mismatch_from_Some [of 0 "bytes a" "bytes b" m] by auto
    have at: "?da ! m = bytes a ! m XOR bytes t ! m" "?db ! m = bytes b ! m XOR bytes t ! m"
      using m(1) by (simp_all add: distance.rep_eq xor.commute)
    have ne: "?da ! m \<noteq> ?db ! m" using m(2) by (simp add: at xor_cancel_right)
    have "take m ?da = take m ?db" using m(3) by (simp add: distance.rep_eq take_map take_zip)
    from memcmp_first_difference [OF _ _ this ne] show ?thesis
      using m(1) ne Some by (auto simp: threeWayCompare_def at Let_def)
  qed
  then show ?thesis by (simp add: memcmp_sgn id_val_def)
qed

lemma threeWayCompare_less: "threeWayCompare t a b < 0 \<longleftrightarrow> id_val (distance t a) < id_val (distance t b)"
  by (simp add: threeWayCompare_sgn)

lemma threeWayCompare_eq: "threeWayCompare t a b = 0 \<longleftrightarrow> a = b"
  using distance_involution [of t a] distance_involution [of t b]
  by (metis id_val_inj less_irrefl linorder_neqE_nat linorder_neqE_linordered_idom threeWayCompare_less
      threeWayCompare_sgn sgn_0_0 right_minus_eq of_nat_eq_iff)

section \<open>Prefix tests and copies\<close>

lemma bitsEqual_bits:
  assumes "0 \<le> n" and "n < 256"
  shows "bitsEqual a b n \<longleftrightarrow> (\<forall>k \<le> nat n. id_bit a k = id_bit b k)"
proof -
  let ?q = "nat n div 8" and ?r = "nat n mod 8"
  let ?tail = "\<forall>j \<le> ?r. bit (bytes a ! ?q) (7 - j) = bit (bytes b ! ?q) (7 - j)"
  have q: "?q < 32" using assms by auto
  have dn: "drop_bit 3 n = int ?q" using assms(1) by (simp add: drop_bit_eq_div zdiv_int)
  have "(\<forall>k \<le> nat n. id_bit a k = id_bit b k) \<longleftrightarrow> (\<forall>k \<le> 8 * ?q + ?r. id_bit a k = id_bit b k)"
    by simp
  also have "\<dots> \<longleftrightarrow> (\<forall>m < ?q. bytes a ! m = bytes b ! m) \<and> ?tail"
    by (subst all_bits_upto) (auto simp: byte_eq_bits id_bit_byte)
  finally have bits: "(\<forall>k \<le> nat n. id_bit a k = id_bit b k) \<longleftrightarrow> (\<forall>m < ?q. bytes a ! m = bytes b ! m) \<and> ?tail" .
  show ?thesis
  proof (cases "mismatch_from 0 (bytes a) (bytes b)")
    case None
    then have "a = b" using mismatch_from_None [of "bytes a" "bytes b"] bytes_inject by simp
    then show ?thesis using None q assms by (simp add: bitsEqual_def dn Let_def)
  next
    case (Some m)
    then have m: "m < 32" "bytes a ! m \<noteq> bytes b ! m" "take m (bytes a) = take m (bytes b)"
      using mismatch_from_Some [of 0 "bytes a" "bytes b" m] by auto
    have before: "bytes a ! k = bytes b ! k" if "k < m" for k
      using m(3) that by (metis nth_take)
    have eq: "bitsEqual a b n \<longleftrightarrow> (if m = ?q then ?tail else ?q < m)"
      using Some assms by (auto simp: bitsEqual_def dn Let_def nat_and_7 byte_prefix_bits)
    show ?thesis
    proof (cases m ?q rule: linorder_cases)
      case less
      then show ?thesis using eq bits m(2) by auto
    next
      case equal
      then show ?thesis using eq bits before by auto
    next
      case greater
      then show ?thesis using eq bits before by auto
    qed
  qed
qed

lemma prefix_div_iff_bits:
  assumes "n < 256"
  shows "id_val a div 2 ^ (255 - n) = id_val b div 2 ^ (255 - n) \<longleftrightarrow> (\<forall>k \<le> n. id_bit a k = id_bit b k)"
proof -
  have "id_val a div 2 ^ (255 - n) = id_val b div 2 ^ (255 - n) \<longleftrightarrow>
      (\<forall>j. bit (id_val a) (255 - n + j) = bit (id_val b) (255 - n + j))"
    by (simp flip: drop_bit_eq_div add: bit_eq_iff bit_drop_bit_eq)
  also have "\<dots> \<longleftrightarrow> (\<forall>k \<le> n. id_bit a k = id_bit b k)"
  proof
    assume *: "\<forall>j. bit (id_val a) (255 - n + j) = bit (id_val b) (255 - n + j)"
    show "\<forall>k \<le> n. id_bit a k = id_bit b k"
    proof (intro allI impI)
      fix k assume "k \<le> n"
      then have "255 - n + (n - k) = 255 - k" "255 - k < 256" "255 - (255 - k) = k" using assms by auto
      with * [rule_format, of "n - k"] show "id_bit a k = id_bit b k" by (simp only: bit_id_val simp_thms)
    qed
  next
    assume "\<forall>k \<le> n. id_bit a k = id_bit b k"
    then show "\<forall>j. bit (id_val a) (255 - n + j) = bit (id_val b) (255 - n + j)"
      using assms by (auto simp: bit_id_val)
  qed
  finally show ?thesis .
qed

lemma bitsEqual_div:
  assumes "0 \<le> n" and "n < 256"
  shows "bitsEqual a b n \<longleftrightarrow> id_val a div 2 ^ (255 - nat n) = id_val b div 2 ^ (255 - nat n)"
  using bitsEqual_bits [OF assms, of a b] prefix_div_iff_bits [of "nat n" a b] assms by auto

lemma bytes_bitsCopy:
  assumes "0 \<le> n" and "n < 256" and "m < 32" and "j < 8"
  shows "bit (bytes (bitsCopy src dest n) ! m) (7 - j) \<longleftrightarrow>
    (if 8 * m + j \<le> nat n then bit (bytes src ! m) (7 - j) else bit (bytes dest ! m) (7 - j))"
proof -
  define q r where "q = nat n div 8" and "r = nat n mod 8"
  have n: "nat n = 8 * q + r" "r < 8" "q < 32" using assms by (auto simp: q_def r_def)
  define d where "d = (if q > 0 then take q (bytes src) @ drop q (bytes dest) else bytes dest)"
  define msk where "msk = drop_bit r (0xff80 :: int)"
  have len: "length d = 32" using n(3) by (simp add: d_def)
  have d: "d ! k = (if k < q then bytes src ! k else bytes dest ! k)" if "k < 32" for k
    using that n(3) by (simp add: d_def nth_append)
  have eq: "bytes (bitsCopy src dest n) = d[q := word_of_int (uint (word_of_int (uint (d ! q) AND NOT msk) :: u8)
      OR (uint (bytes src ! q) AND msk))]"
    using assms(1) len n(3)
    by (simp add: bitsCopy.rep_eq Let_def nat_and_7 nat_drop_bit_3 flip: q_def r_def d_def msk_def)
  show ?thesis
  proof (cases "m = q")
    case True
    have "bit msk (7 - j) \<longleftrightarrow> j \<le> r"
      using bit_prefix_mask [of "7 - j" r] assms(4) n(2) by (auto simp: msk_def)
    moreover have "8 * m + j \<le> nat n \<longleftrightarrow> j \<le> r" using True n by linarith
    ultimately show ?thesis using True len n(3) assms(4) d [of q]
      by (simp add: eq bit_masked_copy)
  next
    case False
    then have "8 * m + j \<le> nat n \<longleftrightarrow> m < q" using n assms(4) by linarith
    then show ?thesis using False d [OF assms(3)] by (simp add: eq)
  qed
qed

lemma id_bit_bitsCopy:
  assumes "0 \<le> n" and "n < 256" and "k < 256"
  shows "id_bit (bitsCopy src dest n) k \<longleftrightarrow> (if k \<le> nat n then id_bit src k else id_bit dest k)"
  using bytes_bitsCopy [OF assms(1,2), of "k div 8" "k mod 8" src dest] assms(3)
  by (simp add: id_bit_def less_mult_imp_div_less)

lemma bitsCopy_negative [simp]: "n < 0 \<Longrightarrow> bitsCopy src dest n = dest"
  by (simp flip: bytes_inject add: bitsCopy.rep_eq)

lemma id_val_bitsCopy:
  assumes "0 \<le> n" and "n < 256"
  shows "id_val (bitsCopy src dest n) =
    id_val src div 2 ^ (255 - nat n) * 2 ^ (255 - nat n) + id_val dest mod 2 ^ (255 - nat n)" (is "_ = ?hi * ?p + ?lo")
proof (rule bit_eqI)
  fix k
  have "bit (?hi * ?p + ?lo) k \<longleftrightarrow> (if k < 255 - nat n then bit (id_val dest) k else bit (id_val src) k)"
    by (subst bit_shift_add)
      (auto simp: bit_drop_bit_eq bit_take_bit_iff simp flip: drop_bit_eq_div take_bit_eq_mod)
  then show "bit (id_val (bitsCopy src dest n)) k \<longleftrightarrow> bit (?hi * ?p + ?lo) k"
    using assms by (auto simp: bit_id_val id_bit_bitsCopy)
qed

lemma id_val_zero [simp]: "id_val zero_id = 0"
proof -
  have "be_val (replicate n 0) = 0" for n by (induction n) auto
  then show ?thesis by (simp add: id_val_def zero_id.rep_eq)
qed

lemma id_bit_MAX: "k < 256 \<Longrightarrow> id_bit MAX_ID k"
proof -
  assume "k < 256"
  have "bit (mask 8 :: u8) j \<longleftrightarrow> j < 8" for j by (simp only: bit_mask_iff possible_bit_word) simp
  moreover have "(mask 8 :: u8) = 255" by (simp add: mask_eq_exp_minus_1)
  ultimately have "bit (255 :: u8) j \<longleftrightarrow> j < 8" for j by (simp only:)
  with \<open>k < 256\<close> show ?thesis by (simp add: id_bit_def MAX_ID.rep_eq less_mult_imp_div_less)
qed

lemma id_val_MAX: "id_val MAX_ID = 2 ^ 256 - 1"
proof (rule bit_eqI)
  fix k
  have "bit (mask 256 :: nat) k \<longleftrightarrow> k < 256" by (simp only: bit_mask_iff possible_bit_def) simp
  then show "bit (id_val MAX_ID) k \<longleftrightarrow> bit (2 ^ 256 - 1 :: nat) k"
    unfolding mask_eq_exp_minus_1 bit_id_val using id_bit_MAX by simp
qed

lemma zero_less_MAX [simp]: "zero_id < MAX_ID"
proof -
  have "id_val zero_id < id_val MAX_ID" by (simp only: id_val_MAX id_val_zero) simp
  then show ?thesis by (simp add: id_less_iff)
qed

lemma zero_neq_MAX [simp]: "zero_id \<noteq> MAX_ID" "MAX_ID \<noteq> zero_id"
  using zero_less_MAX by (metis less_irrefl)+

section \<open>Leading zeros\<close>

lemma byte_leading_zeros_bounds:
  assumes "b \<noteq> 0"
  obtains n where "byte_leading_zeros b = int n" "n \<le> 7" "2 ^ (7 - n) \<le> unat b" "unat b < 2 ^ (8 - n)"
proof -
  define v where "v = unat b"
  have v: "0 < v" "v < 256" using assms unat_u8_less [of b] by (auto simp: v_def unat_gt_0)
  have drop: "uint (drop_bit k b) = int (v div 2 ^ k)" for k
  proof -
    have "uint b < 2 ^ 8" using unsigned_less [of b] by simp
    then have "uint (drop_bit k b) = drop_bit k (uint b)"
      by (simp add: unsigned_drop_bit_eq take_bit_int_eq_self)
    then show ?thesis by (simp add: v_def drop_bit_eq_div zdiv_int)
  qed
  have ge: "16 \<le> b \<longleftrightarrow> 16 \<le> v" "4 \<le> b \<longleftrightarrow> 4 \<le> v" by (simp_all add: word_le_nat_alt v_def)
  have "unat (drop_bit 4 b) = drop_bit 4 (unat b)"
    by (simp add: unsigned_drop_bit_eq take_bit_nat_eq_self unat_u8_less)
  then have ge4: "4 \<le> drop_bit 4 b \<longleftrightarrow> 4 \<le> v div 16" by (simp add: word_le_nat_alt v_def drop_bit_eq_div)
  have blz: "byte_leading_zeros b =
    (if 16 \<le> v then (if 4 \<le> v div 16 then 1 - int (v div 128) else 3 - int (v div 32))
     else (if 4 \<le> v then 5 - int (v div 8) else 7 - int (v div 2)))"
    using ge ge4 drop [of 7] drop [of 5] drop [of "Suc (Suc (Suc 0))"] drop [of 1]
    by (simp add: byte_leading_zeros_def Let_def drop_bit_drop_bit)
  consider "v = 1" | "2 \<le> v" "v < 4" | "4 \<le> v" "v < 8" | "8 \<le> v" "v < 16" | "16 \<le> v" "v < 32"
    | "32 \<le> v" "v < 64" | "64 \<le> v" "v < 128" | "128 \<le> v" using v by linarith
  then show ?thesis
  proof cases
    case 1 then show ?thesis using blz by (intro that [of 7]) (auto simp: v_def)
  next
    case 2
    then have "v div 2 = 1" by auto
    then show ?thesis using blz 2 by (intro that [of 6]) (auto simp: v_def)
  next
    case 3
    then have "v div 8 = 0" by auto
    then show ?thesis using blz 3 by (intro that [of 5]) (auto simp: v_def)
  next
    case 4
    then have "v div 8 = 1" by auto
    then show ?thesis using blz 4 by (intro that [of 4]) (auto simp: v_def)
  next
    case 5
    then have "v div 32 = 0" "v div 16 < 4" by auto
    then show ?thesis using blz 5 by (intro that [of 3]) (auto simp: v_def)
  next
    case 6
    then have "v div 32 = 1" "v div 16 < 4" by auto
    then show ?thesis using blz 6 by (intro that [of 2]) (auto simp: v_def)
  next
    case 7
    then have "v div 128 = 0" "4 \<le> v div 16" by auto
    then show ?thesis using blz 7 by (intro that [of 1]) (auto simp: v_def)
  next
    case 8
    then have "v div 128 = 1" "4 \<le> v div 16" using v(2) by auto
    then show ?thesis using blz 8 v(2) by (intro that [of 0]) (auto simp: v_def)
  qed
qed

lemma skip_zero_bytes_None: "skip_zero_bytes i bs = (k, None) \<Longrightarrow> k = i + length bs \<and> be_val bs = 0"
  by (induction bs arbitrary: i) (fastforce split: if_splits)+

lemma skip_zero_bytes_Some:
  "skip_zero_bytes i bs = (k, Some b) \<Longrightarrow>
     i \<le> k \<and> b \<noteq> 0 \<and> (\<exists>rest. i + length bs = Suc (k + length rest) \<and> be_val bs = be_val (b # rest))"
proof (induction bs arbitrary: i)
  case (Cons x bs)
  show ?case
  proof (cases "x = 0")
    case True
    with Cons.prems have "skip_zero_bytes (Suc i) bs = (k, Some b)" by simp
    from Cons.IH [OF this] True show ?thesis by auto
  next
    case False
    with Cons.prems show ?thesis by auto
  qed
qed simp

lemma getLeadingZeros_bounds:
  "\<exists>z. getLeadingZeros i = int z \<and> z \<le> 256 \<and> id_val i < 2 ^ (256 - z) \<and> (z = 256 \<or> 2 ^ (255 - z) \<le> id_val i)"
proof (cases "skip_zero_bytes 0 (bytes i)")
  case (Pair k ob)
  show ?thesis
  proof (cases ob)
    case None
    then have "k = 32" "id_val i = 0"
      using skip_zero_bytes_None [of 0 "bytes i" k] Pair by (auto simp: id_val_def)
    then show ?thesis using Pair None by (intro exI [of _ 256]) (simp add: getLeadingZeros_def)
  next
    case (Some b)
    then obtain rest where b: "b \<noteq> 0" and len: "32 = Suc (k + length rest)" and val: "id_val i = be_val (b # rest)"
      using skip_zero_bytes_Some [of 0 "bytes i" k b] Pair unfolding id_val_def by auto
    obtain n where n: "byte_leading_zeros b = int n" "n \<le> 7" "2 ^ (7 - n) \<le> unat b" "unat b < 2 ^ (8 - n)"
      using byte_leading_zeros_bounds [OF b] .
    define L where "L = length rest"
    have p: "(256 :: nat) ^ L = 2 ^ (8 * L)" by (simp add: power_mult)
    have e: "255 - (8 * k + n) = (7 - n) + 8 * L" "256 - (8 * k + n) = (8 - n) + 8 * L"
      using len n(2) by (auto simp: L_def)
    have "2 ^ (7 - n) * 2 ^ (8 * L) \<le> unat b * 256 ^ L" using n(3) by (simp add: p)
    then have lo: "2 ^ (255 - (8 * k + n)) \<le> id_val i" unfolding e power_add val by (simp add: L_def)
    have "id_val i < (unat b + 1) * 256 ^ L" using be_val_less [of rest] by (simp add: val L_def)
    also have "\<dots> \<le> 2 ^ (8 - n) * 256 ^ L" using n(4) by (intro mult_right_mono) auto
    finally have hi: "id_val i < 2 ^ (256 - (8 * k + n))" unfolding e power_add p .
    show ?thesis using lo hi len n Pair Some
      by (intro exI [of _ "8 * k + n"]) (simp add: getLeadingZeros_def)
  qed
qed

section \<open>The binary rendering\<close>

lemma toBinaryString_from_stuck: "96 < i + left \<Longrightarrow> i \<le> 96 \<Longrightarrow> toBinaryString_from left i self str = None"
proof (induction left arbitrary: i str)
  case (Suc left)
  show ?case
  proof (cases "i = 96")
    case True
    then show ?thesis by simp
  next
    case False
    then show ?thesis using Suc by (auto simp: Let_def)
  qed
qed simp

lemma id_toBinaryString_undefined: "id_toBinaryString self = None"
  unfolding id_toBinaryString_def by (rule toBinaryString_from_stuck) auto

section \<open>Correctness\<close>

text \<open>
  \<^verbatim>\<open>Id::distance\<close> is a metric on the identifiers (read as numbers): it is zero exactly between equal
  identifiers, symmetric, and satisfies the triangle inequality; and for every identifier and every distance there
  is exactly one identifier at that distance.
\<close>

theorem distance_metric:
  "(id_val (distance a b) = 0) = (a = b) \<and> distance a b = distance b a \<and>
   id_val (distance a c) \<le> id_val (distance a b) + id_val (distance b c) \<and> (\<exists>!x. distance a x = d)"
proof (intro conjI)
  have "id_val a XOR id_val c = (id_val a XOR id_val b) XOR (id_val b XOR id_val c)"
    by (simp add: bit_eq_iff bit_xor_iff) blast
  then show "id_val (distance a c) \<le> id_val (distance a b) + id_val (distance b c)"
    using xor_le_add [of "id_val a XOR id_val b" "id_val b XOR id_val c"] by (simp add: id_val_distance)
  show "\<exists>!x. distance a x = d" by (metis distance_involution)
qed (simp_all add: distance_zero_iff distance_commute)

text \<open>
  \<^verbatim>\<open>Id::threeWayCompare\<close>, which looks at one byte only, is the comparison of the two XOR distances; and
  \<^verbatim>\<open>compareTo\<close> and \<^verbatim>\<open>operator<\<close> are the comparison of the identifiers as 256-bit big-endian numbers.
\<close>

theorem compare_by_value:
  "threeWayCompare t a b = sgn (int (id_val (distance t a)) - int (id_val (distance t b))) \<and>
   compareTo a b = sgn (int (id_val a) - int (id_val b)) \<and> (a < b) = (id_val a < id_val b)"
  by (simp add: threeWayCompare_sgn compareTo_sgn id_less_iff)

text \<open>
  \<^verbatim>\<open>Id::getLeadingZeros\<close>, a loop over bytes and a search by halving within a byte, returns the number of
  leading zero bits of the 256-bit number: the largest \<open>z\<close> with the number below \<open>2 ^ (256 - z)\<close>.
\<close>

theorem leading_zeros_exact:
  "\<exists>z. getLeadingZeros i = int z \<and> z \<le> 256 \<and> id_val i < 2 ^ (256 - z) \<and> (z = 256 \<or> 2 ^ (255 - z) \<le> id_val i)"
  by (rule getLeadingZeros_bounds)

text \<open>
  \<^verbatim>\<open>Id::toBinaryString\<close> reads past the end of the identifier for every identifier: its subscript is
  \<^verbatim>\<open>i / 3\<close> where bit \<^verbatim>\<open>i\<close> is in byte \<^verbatim>\<open>i / 8\<close>.
\<close>

theorem toBinaryString_out_of_bounds: "id_toBinaryString i = None"
  by (rule id_toBinaryString_undefined)

end
