(* ===== verification/Socket_Address.thy ===== *)
theory Socket_Address
  imports Prelude
begin

text \<open>
  \<^verbatim>\<open>include/boson/socket_address.h\<close>, \<^verbatim>\<open>src/core/utils/socket_address.cc\<close> and the address-family
  test of \<^verbatim>\<open>include/boson/network.h\<close>. The code keeps a \<^verbatim>\<open>sockaddr_storage\<close> and works on its bytes;
  here an address is a value of the datatype \<open>sockaddr\<close>, and \<open>sa_raw\<close> gives the bytes of the
  \<^verbatim>\<open>sockaddr_in\<close> or \<^verbatim>\<open>sockaddr_in6\<close> structure (Linux layout, little-endian host, padding zero) that the
  code compares with \<^verbatim>\<open>memcmp\<close>. A predicate that throws \<^verbatim>\<open>std::domain_error\<close> returns \<open>None\<close>.
\<close>

datatype sockaddr =
    Unspec
  | Inet u32 u16 \<comment> \<open>address in host byte order, port\<close>
  | Inet6 "128 word" u16 u32 u32 \<comment> \<open>address, port, flow information, scope\<close>

datatype sa_family = AF_UNSPEC | AF_INET | AF_INET6

datatype network = IPv4 | IPv6

definition be_bytes :: "nat \<Rightarrow> 'a::len word \<Rightarrow> u8 list" where
  "be_bytes n w = map (\<lambda>i. ucast (drop_bit (8 * (n - 1 - i)) w)) [0..<n]"

fun sa_raw :: "sockaddr \<Rightarrow> u8 list" where
  "sa_raw Unspec = []"
| "sa_raw (Inet a p) = [2, 0] @ be_bytes 2 p @ be_bytes 4 a @ replicate 8 0"
| "sa_raw (Inet6 a p flow scope) =
     [10, 0] @ be_bytes 2 p @ be_bytes 4 flow @ be_bytes 16 a @ rev (be_bytes 4 scope)"

fun sa_family_of :: "sockaddr \<Rightarrow> sa_family" where
  "sa_family_of Unspec = AF_UNSPEC"
| "sa_family_of (Inet a p) = AF_INET"
| "sa_family_of (Inet6 a p f s) = AF_INET6"

fun family_number :: "sa_family \<Rightarrow> nat" where
  "family_number AF_UNSPEC = 0"
| "family_number AF_INET = 2"
| "family_number AF_INET6 = 10"

fun sslen :: "sa_family \<Rightarrow> nat" where
  "sslen AF_INET = 16"
| "sslen AF_INET6 = 28"
| "sslen AF_UNSPEC = 0"

definition sa_eq :: "sockaddr \<Rightarrow> sockaddr \<Rightarrow> bool" where
  "sa_eq a b \<longleftrightarrow> sa_family_of a = sa_family_of b \<and> memcmp (sa_raw a) (sa_raw b) = 0"

definition sa_less :: "sockaddr \<Rightarrow> sockaddr \<Rightarrow> bool" where
  "sa_less a b =
     (if sa_family_of a \<noteq> sa_family_of b
      then family_number (sa_family_of a) < family_number (sa_family_of b)
      else memcmp (sa_raw a) (sa_raw b) < 0)"

definition sa_empty :: "sockaddr \<Rightarrow> bool" where
  "sa_empty a \<longleftrightarrow> sa_family_of a \<noteq> AF_INET \<and> sa_family_of a \<noteq> AF_INET6"

text \<open>\<^verbatim>\<open>SocketAddress(const Blob& ip, in_port_t port)\<close>; another length throws \<^verbatim>\<open>std::invalid_argument\<close>.\<close>

definition sa_of_blob :: "u8 list \<Rightarrow> u16 \<Rightarrow> sockaddr option" where
  "sa_of_blob ip port =
     (if length ip = 4 then Some (Inet (word_of_nat (be_val ip)) port)
      else if length ip = 16 then Some (Inet6 (word_of_nat (be_val ip)) port 0 0)
      else None)"

fun sa_port :: "sockaddr \<Rightarrow> u16" where
  "sa_port (Inet a p) = p"
| "sa_port (Inet6 a p f s) = p"
| "sa_port Unspec = 0"

fun inaddr :: "sockaddr \<Rightarrow> u8 list" where
  "inaddr (Inet a p) = be_bytes 4 a"
| "inaddr (Inet6 a p f s) = be_bytes 16 a"
| "inaddr Unspec = []"

fun inaddrLength :: "sockaddr \<Rightarrow> nat" where
  "inaddrLength (Inet a p) = 4"
| "inaddrLength (Inet6 a p f s) = 16"
| "inaddrLength Unspec = 0"

fun isAnyLocal :: "sockaddr \<Rightarrow> bool option" where
  "isAnyLocal (Inet a p) = Some (a = 0)"
| "isAnyLocal (Inet6 a p f s) = Some (a = 0)"
| "isAnyLocal Unspec = None"

fun isLoopback :: "sockaddr \<Rightarrow> bool option" where
  "isLoopback (Inet a p) = Some ((ucast (drop_bit 24 a) :: u8) = 127)"
| "isLoopback (Inet6 a p f s) = Some (a = 1)"
| "isLoopback Unspec = None"

fun isSiteLocal :: "sockaddr \<Rightarrow> bool option" where
  "isSiteLocal (Inet a p) =
     (let b1 = (ucast (drop_bit 24 a) :: u8); b2 = (ucast (drop_bit 16 a AND 0x0ff) :: u8) in
      if b1 = 10 then Some True
      else if b1 = 172 \<and> b2 \<ge> 16 \<and> b2 \<le> 31 then Some True
      else if b1 = 192 \<and> b2 = 168 then Some True
      else Some False)"
| "isSiteLocal (Inet6 a p f s) =
     (if be_bytes 16 a ! 0 = 0xfc \<or> be_bytes 16 a ! 0 = 0xfd then Some True else Some False)"
| "isSiteLocal Unspec = None"

fun isBroadcast :: "sockaddr \<Rightarrow> bool" where
  "isBroadcast (Inet a p) \<longleftrightarrow> a = 0xffffffff"
| "isBroadcast _ \<longleftrightarrow> False"

fun isMulticast :: "sockaddr \<Rightarrow> bool option" where
  "isMulticast (Inet a p) = Some (be_bytes 4 a ! 0 = 0xe0)"
| "isMulticast (Inet6 a p f s) = Some (be_bytes 16 a ! 0 = 0xff)"
| "isMulticast Unspec = None"

fun isLinkLocal :: "sockaddr \<Rightarrow> bool option" where
  "isLinkLocal (Inet a p) =
     (let b1 = (ucast (drop_bit 24 a) :: u8); b2 = (ucast (drop_bit 16 a AND 0x0ff) :: u8) in
      if b1 = 169 \<and> b2 = 254 then Some True else Some False)"
| "isLinkLocal (Inet6 a p f s) =
     (if be_bytes 16 a ! 0 = 0xfe \<and> be_bytes 16 a ! 1 = 0x80 then Some True else Some False)"
| "isLinkLocal Unspec = None"

definition MAPPED_IPV4_PREFIX :: "u8 list" where
  "MAPPED_IPV4_PREFIX = [0, 0, 0, 0, 0, 0, 0, 0, 0, 0, 0xff, 0xff]"

text \<open>\<^verbatim>\<open>isMappedIPv4\<close> compares with the bytes at \<^verbatim>\<open>addr6()\<close>, the start of the whole structure.\<close>

definition isMappedIPv4 :: "sockaddr \<Rightarrow> bool" where
  "isMappedIPv4 a =
     (if sa_family_of a \<noteq> AF_INET6 then False
      else take (length MAPPED_IPV4_PREFIX) (sa_raw a) = MAPPED_IPV4_PREFIX)"

text \<open>The short-circuit disjunction of predicates that may throw.\<close>

definition or_else :: "bool option \<Rightarrow> bool option \<Rightarrow> bool option" where
  "or_else a b = (case a of None \<Rightarrow> None | Some True \<Rightarrow> Some True | Some False \<Rightarrow> b)"

definition isGlobalUnicast :: "sockaddr \<Rightarrow> bool option" where
  "isGlobalUnicast a =
     map_option Not
       (or_else (isAnyLocal a) (or_else (isLinkLocal a) (or_else (isLoopback a)
         (or_else (isMulticast a) (or_else (isSiteLocal a)
           (or_else (Some (isMappedIPv4 a)) (Some (isBroadcast a))))))))"

definition isAnyUnicast :: "sockaddr \<Rightarrow> bool option" where
  "isAnyUnicast a = or_else (isGlobalUnicast a) (isSiteLocal a)"

definition isBogon :: "sockaddr \<Rightarrow> bool option" where
  "isBogon a = (if sa_port a > 0 \<and> uint (sa_port a) \<le> 0xffff then map_option Not (isGlobalUnicast a) else Some True)"

definition getMappedIPv4 :: "sockaddr \<Rightarrow> sockaddr" where
  "getMappedIPv4 a =
     (if \<not> isMappedIPv4 a then a
      else case a of Inet6 x p f s \<Rightarrow> Inet (word_of_nat (be_val (drop 12 (be_bytes 16 x)))) p | _ \<Rightarrow> a)"

definition getMappedIPv6 :: "sockaddr \<Rightarrow> sockaddr" where
  "getMappedIPv6 a =
     (case a of Inet x p \<Rightarrow> Inet6 (word_of_nat (be_val (MAPPED_IPV4_PREFIX @ be_bytes 4 x))) p 0 0 | _ \<Rightarrow> a)"

definition IpCompare :: "sockaddr \<Rightarrow> sockaddr \<Rightarrow> bool" where
  "IpCompare a b =
     (if sa_empty a \<and> sa_empty b then True
      else if sa_family_of a \<noteq> sa_family_of b
      then family_number (sa_family_of a) < family_number (sa_family_of b)
      else memcmp (inaddr a) (inaddr b) < 0)"

definition canUseSocketAddress :: "network \<Rightarrow> sockaddr \<Rightarrow> bool" where
  "canUseSocketAddress n a \<longleftrightarrow> sa_family_of a = (if n = IPv4 then AF_INET else AF_INET6)"

definition network_of :: "sockaddr \<Rightarrow> network" where
  "network_of a = (if sa_family_of a = AF_INET then IPv4 else IPv6)"

section \<open>Bytes of a word\<close>

lemma length_be_bytes [simp]: "length (be_bytes n w) = n"
  by (simp add: be_bytes_def)

lemma be_bytes_nth: "i < n \<Longrightarrow> be_bytes n w ! i = ucast (drop_bit (8 * (n - 1 - i)) w)"
  by (simp add: be_bytes_def)

lemma bit_be_val_be_bytes:
  fixes w :: "'a::len word"
  assumes "8 * n = LENGTH('a)"
  shows "bit (be_val (be_bytes n w)) k \<longleftrightarrow> bit w k"
proof (cases "k < 8 * n")
  case True
  then have lt: "k div 8 < n" by auto
  then have i: "n - 1 - k div 8 < n" "8 * (n - 1 - (n - 1 - k div 8)) = 8 * (k div 8)" by auto
  have "bit (be_val (be_bytes n w)) k \<longleftrightarrow> bit (be_bytes n w ! (n - 1 - k div 8)) (k mod 8)"
    using True by (simp add: bit_be_val)
  also have "\<dots> \<longleftrightarrow> bit w (8 * (k div 8) + k mod 8)"
    using be_bytes_nth [OF i(1), of w] unfolding i(2)
    by (simp add: bit_unsigned_iff bit_drop_bit_eq)
  finally show ?thesis by simp
next
  case False
  then show ?thesis using bit_imp_le_length [of w k] assms by (auto simp: bit_be_val)
qed

lemma word_of_be_bytes:
  fixes w :: "'a::len word"
  assumes "8 * n = LENGTH('a)"
  shows "word_of_nat (be_val (be_bytes n w)) = w"
proof (rule bit_word_eqI)
  fix k assume "k < LENGTH('a)"
  have "word_of_nat m = (word_of_int (int m) :: 'a word)" for m by simp
  then have "bit (word_of_nat m :: 'a word) k \<longleftrightarrow> bit m k" for m
    using \<open>k < LENGTH('a)\<close> by (simp only: bit_word_of_int_iff bit_of_nat_iff_bit) simp
  then show "bit (word_of_nat (be_val (be_bytes n w)) :: 'a word) k \<longleftrightarrow> bit w k"
    by (simp add: bit_be_val_be_bytes [OF assms])
qed

lemma be_bytes_inj:
  fixes v w :: "'a::len word"
  assumes "8 * n = LENGTH('a)"
  shows "be_bytes n v = be_bytes n w \<longleftrightarrow> v = w"
  using word_of_be_bytes [OF assms] by metis

section \<open>Equality and order\<close>

lemma memcmp_eq_0: "length xs = length ys \<Longrightarrow> memcmp xs ys = 0 \<longleftrightarrow> xs = ys"
  using be_val_inj [of xs ys] by (auto simp: memcmp_sgn sgn_0_0)

lemma length_sa_raw: "length (sa_raw a) = sslen (sa_family_of a)"
  by (cases a) auto

lemma sa_eq_iff: "sa_eq a b \<longleftrightarrow> a = b"
proof -
  have "a = b" if "sa_family_of a = sa_family_of b" "sa_raw a = sa_raw b"
    using that by (cases a; cases b) (auto simp: be_bytes_inj)
  then show ?thesis using memcmp_eq_0 [of "sa_raw a" "sa_raw b"] by (auto simp: sa_eq_def length_sa_raw)
qed

lemma sa_of_blob_inaddr: "sa_of_blob (inaddr (Inet a p)) p = Some (Inet a p)"
  "sa_of_blob (inaddr (Inet6 b p f s)) p = Some (Inet6 b p 0 0)"
  by (simp_all add: sa_of_blob_def word_of_be_bytes)

lemma IpCompare_equiv:
  assumes "\<not> sa_empty a" "\<not> sa_empty b"
  shows "\<not> IpCompare a b \<and> \<not> IpCompare b a \<longleftrightarrow> sa_family_of a = sa_family_of b \<and> inaddr a = inaddr b"
proof -
  have len: "sa_family_of a = sa_family_of b \<Longrightarrow> length (inaddr a) = length (inaddr b)"
    by (cases a; cases b) auto
  show ?thesis
  proof (cases "sa_family_of a = sa_family_of b")
    case True
    then show ?thesis using assms len be_val_inj [of "inaddr a" "inaddr b"]
      by (auto simp: IpCompare_def memcmp_sgn)
  next
    case False
    then have "family_number (sa_family_of a) \<noteq> family_number (sa_family_of b)"
      by (cases "sa_family_of a"; cases "sa_family_of b") auto
    then show ?thesis using False assms by (auto simp: IpCompare_def)
  qed
qed

section \<open>Address classes\<close>

lemma isMappedIPv4_never: "\<not> isMappedIPv4 a"
  by (cases a) (auto simp: isMappedIPv4_def MAPPED_IPV4_PREFIX_def)

lemma or_else_Some [simp]: "or_else (Some x) b = (if x then Some True else b)"
  by (simp add: or_else_def split: bool.splits)

text \<open>On an address with a family no class predicate throws.\<close>

lemma address_classes_total:
  assumes "a \<noteq> Unspec"
  obtains l k lo m s where "isAnyLocal a = Some l" "isLinkLocal a = Some k" "isLoopback a = Some lo"
    "isMulticast a = Some m" "isSiteLocal a = Some s"
proof -
  have "isAnyLocal a \<noteq> None" "isLoopback a \<noteq> None" "isMulticast a \<noteq> None" using assms by (cases a; simp)+
  moreover have "isLinkLocal a \<noteq> None" using assms by (cases a) (auto simp: Let_def simp del: not_None_eq)
  moreover have "isSiteLocal a \<noteq> None" using assms by (cases a) (auto simp: Let_def simp del: not_None_eq)
  ultimately show ?thesis using that by (metis option.exhaust)
qed

lemma isGlobalUnicast_iff:
  assumes "a \<noteq> Unspec"
  shows "isGlobalUnicast a = Some (\<not> (isAnyLocal a = Some True \<or> isLinkLocal a = Some True \<or> isLoopback a = Some True \<or>
     isMulticast a = Some True \<or> isSiteLocal a = Some True \<or> isBroadcast a))"
  using assms by (rule address_classes_total) (auto simp: isGlobalUnicast_def isMappedIPv4_never)

lemma isBogon_iff:
  "isBogon a = Some (sa_port a = 0 \<or> isGlobalUnicast a = Some False)"
proof (cases "sa_port a = 0")
  case False
  have "uint (sa_port a) < 65536" using unsigned_less [of "sa_port a"] by simp
  moreover have "a \<noteq> Unspec" using False by auto
  ultimately show ?thesis using False isGlobalUnicast_iff [of a] by (auto simp: isBogon_def word_gt_0)
qed (simp add: isBogon_def)

lemma not_bogon:
  assumes "isBogon a = Some False"
  shows "sa_port a \<noteq> 0 \<and> isAnyLocal a = Some False \<and> isLinkLocal a = Some False \<and> isLoopback a = Some False \<and>
     isMulticast a = Some False \<and> isSiteLocal a = Some False \<and> \<not> isBroadcast a"
proof -
  have p: "sa_port a \<noteq> 0" using assms by (simp add: isBogon_iff)
  then have "a \<noteq> Unspec" by auto
  then show ?thesis using assms isGlobalUnicast_iff [OF \<open>a \<noteq> Unspec\<close>] p
    by (rule_tac address_classes_total [OF \<open>a \<noteq> Unspec\<close>]) (auto simp: isBogon_iff)
qed

section \<open>Correctness\<close>

text \<open>
  On an address with a family \<^verbatim>\<open>isBogon\<close> throws no exception; it accepts exactly the addresses with a
  nonzero port that are in none of the special classes.
\<close>

theorem isBogon_classes:
  assumes "a \<noteq> Unspec"
  shows "isBogon a = Some (sa_port a = 0 \<or> isAnyLocal a = Some True \<or> isLinkLocal a = Some True \<or> isLoopback a = Some True \<or>
     isMulticast a = Some True \<or> isSiteLocal a = Some True \<or> isBroadcast a)"
  using isGlobalUnicast_iff [OF assms] by (auto simp: isBogon_iff)

theorem isBogon_classes_witness:
  "isBogon (Inet 0x08080808 53) = Some (sa_port (Inet 0x08080808 53) = 0 \<or> isAnyLocal (Inet 0x08080808 53) = Some True \<or>
     isLinkLocal (Inet 0x08080808 53) = Some True \<or> isLoopback (Inet 0x08080808 53) = Some True \<or>
     isMulticast (Inet 0x08080808 53) = Some True \<or> isSiteLocal (Inet 0x08080808 53) = Some True \<or> isBroadcast (Inet 0x08080808 53))"
  by (rule isBogon_classes) simp

text \<open>
  \<^verbatim>\<open>isMappedIPv4\<close> compares the prefix \<^verbatim>\<open>::ffff\<close> with the start of the socket structure instead of the address
  in it, so no address is recognised as an IPv4-mapped one, and \<^verbatim>\<open>getMappedIPv4\<close> does not undo \<^verbatim>\<open>getMappedIPv6\<close>.
\<close>

theorem mapped_not_recognised:
  "\<not> isMappedIPv4 a \<and> getMappedIPv4 a = a \<and> getMappedIPv4 (getMappedIPv6 (Inet x p)) \<noteq> Inet x p"
  by (simp add: isMappedIPv4_never getMappedIPv4_def getMappedIPv6_def)

end
