(* ===== verification/Constants.thy ===== *)
theory Constants
  imports Main
begin

text \<open>
  The tuning constants of \<^verbatim>\<open>src/core/constants.cc\<close> that the modelled components read. All of them are
  positive \<^verbatim>\<open>int\<close> values; sizes are kept as \<open>nat\<close>, times in milliseconds as \<open>int\<close>.
\<close>

definition MAX_ACTIVE_CALLS :: nat where [simp]: "MAX_ACTIVE_CALLS = 256"

definition RPC_CALL_TIMEOUT_MAX :: int where [simp]: "RPC_CALL_TIMEOUT_MAX = 10000"

definition RPC_SERVER_REACHABILITY_TIMEOUT :: int where [simp]: "RPC_SERVER_REACHABILITY_TIMEOUT = 60000"

definition MAX_CONCURRENT_TASK_REQUESTS :: nat where [simp]: "MAX_CONCURRENT_TASK_REQUESTS = 10"

definition MAX_ACTIVE_TASKS :: nat where [simp]: "MAX_ACTIVE_TASKS = 16"

definition BOOTSTRAP_MIN_INTERVAL :: int where [simp]: "BOOTSTRAP_MIN_INTERVAL = 240000"

definition BOOTSTRAP_IF_LESS_THAN_X_PEERS :: nat where [simp]: "BOOTSTRAP_IF_LESS_THAN_X_PEERS = 30"

definition SELF_LOOKUP_INTERVAL :: int where [simp]: "SELF_LOOKUP_INTERVAL = 1800000"

definition ROUTING_TABLE_PERSIST_INTERVAL :: int where [simp]: "ROUTING_TABLE_PERSIST_INTERVAL = 600000"

definition MAX_ENTRIES_PER_BUCKET :: nat where [simp]: "MAX_ENTRIES_PER_BUCKET = 8"

definition BUCKET_REFRESH_INTERVAL :: int where [simp]: "BUCKET_REFRESH_INTERVAL = 900000"

definition ROUTING_TABLE_MAINTENANCE_INTERVAL :: int where [simp]: "ROUTING_TABLE_MAINTENANCE_INTERVAL = 240000"

definition KBUCKET_MAX_TIMEOUTS :: int where [simp]: "KBUCKET_MAX_TIMEOUTS = 5"

definition KBUCKET_OLD_AND_STALE_TIMEOUTS :: int where [simp]: "KBUCKET_OLD_AND_STALE_TIMEOUTS = 2"

definition KBUCKET_OLD_AND_STALE_TIME :: int where [simp]: "KBUCKET_OLD_AND_STALE_TIME = 900000"

definition KBUCKET_PING_BACKOFF_BASE_INTERVAL :: int where [simp]: "KBUCKET_PING_BACKOFF_BASE_INTERVAL = 60000"

definition TOKEN_TIMEOUT :: int where [simp]: "TOKEN_TIMEOUT = 300000"

definition MAX_PEER_AGE :: int where [simp]: "MAX_PEER_AGE = 7200000"

definition MAX_VALUE_AGE :: int where [simp]: "MAX_VALUE_AGE = 7200000"

end
