(* ===== verification/Bucket_Entry.thy ===== *)
theory Bucket_Entry
  imports Ids Socket_Address Constants
begin

text \<open>
  The routing-table entries of \<^verbatim>\<open>src/core/kbucket_entry.h\<close> and \<^verbatim>\<open>kbucket_entry.cc\<close> (with the fields and
  tests they inherit from \<^verbatim>\<open>include/boson/node_info.h\<close>). The code shares entries through pointers and
  compares pointers in a few places; the field \<open>e_ref\<close> stands for the identity of the object.
  \<^verbatim>\<open>currentTimeMillis()\<close> is the argument \<open>now\<close>; times are 64-bit and differences wrap, as in the code.
  \<^verbatim>\<open>failedRequests\<close> is a C++ \<^verbatim>\<open>int\<close> and is kept as an integer.
\<close>

record kbucket_entry =
  e_ref :: nat
  e_id :: id
  e_addr :: sockaddr
  e_version :: int
  created :: u64
  lastSeen :: u64
  lastSend :: u64
  reachable :: bool
  failedRequests :: int

definition mk_entry :: "nat \<Rightarrow> id \<Rightarrow> sockaddr \<Rightarrow> int \<Rightarrow> u64 \<Rightarrow> kbucket_entry" where
  "mk_entry ref i a version now =
     \<lparr>e_ref = ref, e_id = i, e_addr = a, e_version = version, created = now, lastSeen = now, lastSend = 0,
      reachable = False, failedRequests = 0\<rparr>"

definition e_matches :: "kbucket_entry \<Rightarrow> kbucket_entry \<Rightarrow> bool" where
  "e_matches e f \<longleftrightarrow> e_id e = e_id f \<or> sa_eq (e_addr e) (e_addr f)"

definition e_equals :: "kbucket_entry \<Rightarrow> kbucket_entry \<Rightarrow> bool" where
  "e_equals e f \<longleftrightarrow> e_id e = e_id f \<and> sa_eq (e_addr e) (e_addr f)"

definition isNeverContacted :: "kbucket_entry \<Rightarrow> bool" where
  "isNeverContacted e \<longleftrightarrow> lastSend e = 0"

definition isEligibleForNodesList :: "kbucket_entry \<Rightarrow> bool" where
  "isEligibleForNodesList e \<longleftrightarrow> reachable e \<and> failedRequests e < 3"

definition isEligibleForLocalLookup :: "kbucket_entry \<Rightarrow> bool" where
  "isEligibleForLocalLookup e \<longleftrightarrow> (reachable e \<and> failedRequests e \<le> 3) \<or> failedRequests e \<le> 0"

text \<open>
  The back-off interval is computed as a 32-bit \<^verbatim>\<open>int\<close> (the shift drops the bits that leave it) and is
  then converted to the unsigned 64-bit type of the times.
\<close>

definition backoffWindowEnd :: "kbucket_entry \<Rightarrow> int" where
  "backoffWindowEnd e =
     (if failedRequests e = 0 \<or> lastSend e = 0 then -1
      else let backoff = push_bit (nat (min KBUCKET_MAX_TIMEOUTS (max 0 (failedRequests e - 1))))
                           (word_of_int KBUCKET_PING_BACKOFF_BASE_INTERVAL :: u32)
           in sint (lastSend e + scast backoff))"

text \<open>
  The shift is on \<^verbatim>\<open>int\<close>: from 17 failures on the value overflows and from 33 on the shift count is too large, both
  undefined in the source; the model takes the low 32 bits there.
\<close>

definition withinBackoffWindow :: "u64 \<Rightarrow> kbucket_entry \<Rightarrow> bool" where
  "withinBackoffWindow now e =
     (let backoff = push_bit (nat (max KBUCKET_MAX_TIMEOUTS (max 0 (failedRequests e - 1))))
                      (word_of_int KBUCKET_PING_BACKOFF_BASE_INTERVAL :: u32)
      in failedRequests e \<noteq> 0 \<and> now - lastSend e < scast backoff)"

definition needsPing :: "u64 \<Rightarrow> kbucket_entry \<Rightarrow> bool" where
  "needsPing now e =
     (if now - lastSeen e < 30 * 1000 \<or> withinBackoffWindow now e then False
      else failedRequests e \<noteq> 0 \<or> now - lastSeen e > word_of_int KBUCKET_OLD_AND_STALE_TIME)"

definition oldAndStale :: "u64 \<Rightarrow> kbucket_entry \<Rightarrow> bool" where
  "oldAndStale now e \<longleftrightarrow>
     failedRequests e > KBUCKET_OLD_AND_STALE_TIMEOUTS \<and> now - lastSeen e > word_of_int KBUCKET_OLD_AND_STALE_TIME"

definition removableWithoutReplacement :: "kbucket_entry \<Rightarrow> bool" where
  "removableWithoutReplacement e =
     (let seenSinceLastPing = lastSeen e > lastSend e
      in failedRequests e > KBUCKET_MAX_TIMEOUTS \<and> \<not> seenSinceLastPing)"

definition signalResponse :: "u64 \<Rightarrow> kbucket_entry \<Rightarrow> kbucket_entry" where
  "signalResponse now e = e\<lparr>lastSeen := now, failedRequests := 0, reachable := True\<rparr>"

definition signalRequest :: "u64 \<Rightarrow> kbucket_entry \<Rightarrow> kbucket_entry" where
  "signalRequest now e = e\<lparr>lastSend := now\<rparr>"

definition mergeRequestTime :: "u64 \<Rightarrow> kbucket_entry \<Rightarrow> kbucket_entry" where
  "mergeRequestTime requestSent e = e\<lparr>lastSend := max (lastSend e) requestSent\<rparr>"

definition signalRequestTimeout :: "kbucket_entry \<Rightarrow> kbucket_entry" where
  "signalRequestTimeout e =
     (if failedRequests e \<le> 0 then e\<lparr>failedRequests := 1\<rparr> else e\<lparr>failedRequests := failedRequests e + 1\<rparr>)"

definition e_needsReplacement :: "u64 \<Rightarrow> kbucket_entry \<Rightarrow> bool" where
  "e_needsReplacement now e \<longleftrightarrow>
     (failedRequests e > 1 \<and> \<not> reachable e) \<or> (failedRequests e > KBUCKET_MAX_TIMEOUTS \<and> oldAndStale now e)"

definition e_merge :: "kbucket_entry \<Rightarrow> kbucket_entry \<Rightarrow> kbucket_entry" where
  "e_merge e other =
     (if \<not> e_equals e other \<or> e_ref e = e_ref other then e
      else let e1 = e\<lparr>created := min (created e) (created other), lastSeen := max (lastSeen e) (lastSeen other),
                      lastSend := max (lastSend e) (lastSend other)\<rparr>;
               e2 = (if reachable other then e1\<lparr>reachable := True\<rparr> else e1)
           in if failedRequests other > 0 then e2\<lparr>failedRequests := min (failedRequests e2) (failedRequests other)\<rparr>
              else e2)"

section \<open>Properties\<close>

text \<open>Operations on an entry change neither its identity nor its node.\<close>

named_theorems entry_frame

lemma frame_signalResponse [entry_frame]:
  "e_ref (signalResponse now e) = e_ref e" "e_id (signalResponse now e) = e_id e" "e_addr (signalResponse now e) = e_addr e"
  "reachable (signalResponse now e)" "created (signalResponse now e) = created e"
  by (simp_all add: signalResponse_def)

lemma frame_signalRequest [entry_frame]:
  "e_ref (signalRequest now e) = e_ref e" "e_id (signalRequest now e) = e_id e" "e_addr (signalRequest now e) = e_addr e"
  "reachable (signalRequest now e) = reachable e" "created (signalRequest now e) = created e"
  by (simp_all add: signalRequest_def)

lemma frame_signalRequestTimeout [entry_frame]:
  "e_ref (signalRequestTimeout e) = e_ref e" "e_id (signalRequestTimeout e) = e_id e"
  "e_addr (signalRequestTimeout e) = e_addr e" "reachable (signalRequestTimeout e) = reachable e"
  "created (signalRequestTimeout e) = created e"
  by (simp_all add: signalRequestTimeout_def)

lemma frame_merge [entry_frame]:
  "e_ref (e_merge e n) = e_ref e" "e_id (e_merge e n) = e_id e" "e_addr (e_merge e n) = e_addr e"
  "reachable e \<Longrightarrow> reachable (e_merge e n)"
  by (simp_all add: e_merge_def Let_def)

lemma matches_iff: "e_matches e n \<longleftrightarrow> e_id e = e_id n \<or> e_addr e = e_addr n"
  by (simp add: e_matches_def sa_eq_iff)

lemma equals_iff: "e_equals e n \<longleftrightarrow> e_id e = e_id n \<and> e_addr e = e_addr n"
  by (simp add: e_equals_def sa_eq_iff)

text \<open>
  For one to six failures the window of \<open>withinBackoffWindow\<close> is the same 32 minutes, whereas the
  window that \<open>backoffWindowEnd\<close> announces doubles with every failure.
\<close>

lemma withinBackoffWindow_constant:
  assumes "1 \<le> failedRequests e" and "failedRequests e \<le> 6"
  shows "withinBackoffWindow now e \<longleftrightarrow> now - lastSend e < 1920000"
proof -
  have "nat (max 5 (max 0 (failedRequests e - 1))) = 5" using assms by auto
  then show ?thesis using assms by (simp add: withinBackoffWindow_def Let_def push_bit_eq_mult)
qed

section \<open>Correctness\<close>

text \<open>
  The back-off before a failing node is pinged again is meant to double with each failure (\<^verbatim>\<open>backoffWindowEnd\<close>
  announces one minute after the first failure), but \<^verbatim>\<open>withinBackoffWindow\<close> uses the largest window, 32 minutes, for
  every number of failures from one to six.
\<close>

theorem backoff_window_constant:
  assumes "1 \<le> failedRequests e" and "failedRequests e \<le> 6"
  shows "withinBackoffWindow now e = (now - lastSend e < 1920000)"
  using withinBackoffWindow_constant [OF assms] by simp

theorem backoff_window_constant_witness:
  "withinBackoffWindow 1900000 (signalRequestTimeout (signalRequest 1 (mk_entry 0 zero_id Unspec 0 0))) =
     (1900000 - lastSend (signalRequestTimeout (signalRequest 1 (mk_entry 0 zero_id Unspec 0 0))) < 1920000)"
  by (rule backoff_window_constant) (simp_all add: signalRequestTimeout_def signalRequest_def mk_entry_def)

end
