(* ===== verification/Candidates.thy ===== *)
theory Candidates
  imports Bucket_Entry "HOL-Library.Multiset" "HOL-Library.Product_Lexorder"
begin

text \<open>
  The working sets of a lookup: \<^verbatim>\<open>task/candidate_node.h\<close>, the nodes still to be asked
  (\<^verbatim>\<open>closest_candidates.cc\<close>) and the nodes that answered (\<^verbatim>\<open>closest_set.h\<close>). The candidates of the code are
  shared objects; every list of the code holds at most one candidate per identifier, so the identifier
  stands for the object.
\<close>

section \<open>Nodes\<close>

text \<open>A node of a message is a plain \<^verbatim>\<open>NodeInfo\<close>, a node of the routing table a \<^verbatim>\<open>KBucketEntry\<close>.\<close>

record node_info =
  n_id :: id
  n_addr :: sockaddr
  n_version :: int

datatype node = PlainNode node_info | BucketNode kbucket_entry

fun node_id :: "node \<Rightarrow> id" where
  "node_id (PlainNode n) = n_id n"
| "node_id (BucketNode e) = e_id e"

fun node_addr :: "node \<Rightarrow> sockaddr" where
  "node_addr (PlainNode n) = n_addr n"
| "node_addr (BucketNode e) = e_addr e"

record candidate_node =
  c_id :: id
  c_addr :: sockaddr
  lastSent :: u64
  lastReply :: u64
  c_reachable :: bool
  pinged :: int
  c_token :: int

definition mk_candidate :: "node \<Rightarrow> candidate_node" where
  "mk_candidate n =
     \<lparr>c_id = node_id n, c_addr = node_addr n, lastSent = 0, lastReply = 0,
      c_reachable = (case n of BucketNode e \<Rightarrow> reachable e | PlainNode _ \<Rightarrow> False), pinged = 0, c_token = 0\<rparr>"

definition setSent :: "u64 \<Rightarrow> candidate_node \<Rightarrow> candidate_node" where
  "setSent now c = c\<lparr>lastSent := now, pinged := pinged c + 1\<rparr>"

definition clearSent :: "candidate_node \<Rightarrow> candidate_node" where
  "clearSent c = c\<lparr>lastSent := 0\<rparr>"

definition setReplied :: "u64 \<Rightarrow> candidate_node \<Rightarrow> candidate_node" where
  "setReplied now c = c\<lparr>lastReply := now\<rparr>"

definition setToken :: "int \<Rightarrow> candidate_node \<Rightarrow> candidate_node" where
  "setToken token c = c\<lparr>c_token := token\<rparr>"

definition isUnreachable :: "candidate_node \<Rightarrow> bool" where
  "isUnreachable c \<longleftrightarrow> pinged c \<ge> 3"

definition isInFlight :: "candidate_node \<Rightarrow> bool" where
  "isInFlight c \<longleftrightarrow> lastSent c \<noteq> 0"

definition isEligible :: "candidate_node \<Rightarrow> bool" where
  "isEligible c \<longleftrightarrow> lastSent c = 0 \<and> pinged c < 3"

section \<open>Candidates\<close>

record closest_candidates =
  cc_target :: id
  cc_capacity :: nat
  dedup_ids :: "id list"
  dedup_addrs :: "sockaddr list"
  closest :: "candidate_node list"

definition mk_candidates :: "id \<Rightarrow> nat \<Rightarrow> closest_candidates" where
  "mk_candidates target capacity =
     \<lparr>cc_target = target, cc_capacity = capacity, dedup_ids = [], dedup_addrs = [], closest = []\<rparr>"

definition cc_get :: "id \<Rightarrow> closest_candidates \<Rightarrow> candidate_node option" where
  "cc_get i cc = find (\<lambda>c. i = c_id c) (closest cc)"

fun remove_first :: "('a \<Rightarrow> bool) \<Rightarrow> 'a list \<Rightarrow> 'a list" where
  "remove_first P [] = []"
| "remove_first P (x # xs) = (if P x then xs else x # remove_first P xs)"

definition cc_remove :: "id \<Rightarrow> closest_candidates \<Rightarrow> candidate_node option \<times> closest_candidates" where
  "cc_remove i cc =
     (cc_get i cc, cc\<lparr>closest := remove_first (\<lambda>c. i = c_id c) (closest cc)\<rparr>)"

definition candidateOrder :: "id \<Rightarrow> candidate_node \<Rightarrow> candidate_node \<Rightarrow> int" where
  "candidateOrder target a b =
     (let comparison = pinged a - pinged b in
      if comparison \<noteq> 0 then (if comparison < 0 then -1 else 1)
      else threeWayCompare target (c_id a) (c_id b))"

definition cc_next :: "closest_candidates \<Rightarrow> candidate_node option" where
  "cc_next cc =
     (let candidates = filter isEligible (closest cc) in
      if candidates \<noteq> [] then Some (hd (sort_by (\<lambda>a b. candidateOrder (cc_target cc) a b < 0) candidates)) else None)"

definition cc_head :: "closest_candidates \<Rightarrow> id" where
  "cc_head cc = (case closest cc of [] \<Rightarrow> distance (cc_target cc) MAX_ID | c # _ \<Rightarrow> c_id c)"

definition cc_tail :: "closest_candidates \<Rightarrow> id" where
  "cc_tail cc = (if closest cc = [] then distance (cc_target cc) MAX_ID else c_id (last (closest cc)))"

text \<open>
  The first loop of \<^verbatim>\<open>add\<close>. \<^verbatim>\<open>insert\<close> into an ordered set fails when an equivalent element is present; for
  addresses two elements are equivalent when \<^verbatim>\<open>IpCompare\<close> orders neither before the other.
\<close>

definition addr_seen :: "sockaddr \<Rightarrow> sockaddr list \<Rightarrow> bool" where
  "addr_seen a as \<longleftrightarrow> (\<exists>b \<in> set as. \<not> IpCompare a b \<and> \<not> IpCompare b a)"

fun cc_filter :: "node list \<Rightarrow> id list \<Rightarrow> sockaddr list \<Rightarrow> candidate_node list \<times> id list \<times> sockaddr list" where
  "cc_filter [] ids addrs = ([], ids, addrs)"
| "cc_filter (n # ns) ids addrs =
     (if node_id n \<in> set ids then cc_filter ns ids addrs
      else if addr_seen (node_addr n) addrs then cc_filter ns (node_id n # ids) addrs
      else let (filtered, ids', addrs') = cc_filter ns (node_id n # ids) (node_addr n # addrs)
           in (mk_candidate n # filtered, ids', addrs'))"

text \<open>\<^verbatim>\<open>std::list::merge\<close>: an element of the second list goes first only if it is smaller.\<close>

fun merge_by :: "('a \<Rightarrow> 'a \<Rightarrow> bool) \<Rightarrow> 'a list \<Rightarrow> 'a list \<Rightarrow> 'a list" where
  "merge_by lt [] ys = ys"
| "merge_by lt xs [] = xs"
| "merge_by lt (x # xs) (y # ys) =
     (if lt y x then y # merge_by lt (x # xs) ys else x # merge_by lt xs (y # ys))"

definition cc_add :: "node list \<Rightarrow> closest_candidates \<Rightarrow> closest_candidates" where
  "cc_add candidates cc =
     (let closer = (\<lambda>a b. threeWayCompare (cc_target cc) (c_id a) (c_id b) < 0);
          (filtered, ids, addrs) = cc_filter candidates (dedup_ids cc) (dedup_addrs cc);
          merged = merge_by closer (closest cc) (sort_by closer filtered);
          cc = cc\<lparr>dedup_ids := ids, dedup_addrs := addrs, closest := merged\<rparr>
      in if length merged > cc_capacity cc
         then let toRemove = filter (\<lambda>c. \<not> isInFlight c) merged in
              if length toRemove > cc_capacity cc
              then let sorted = sort_by (\<lambda>a b. candidateOrder (cc_target cc) a b < 0) toRemove
                   in fold (\<lambda>c cc. snd (cc_remove (c_id c) cc)) (drop (cc_capacity cc) sorted) cc
              else cc
         else cc)"

section \<open>The closest set\<close>

text \<open>\<^verbatim>\<open>std::map<Id, Sp<CandidateNode>>\<close>: a list in the order of \<^verbatim>\<open>operator<\<close> on the keys.\<close>

record closest_set =
  cs_target :: id
  cs_capacity :: int
  cs_map :: "candidate_node list"
  insertAttemptsSinceTailModification :: int
  insertAttemptsSinceHeadModification :: int

definition mk_closest_set :: "id \<Rightarrow> int \<Rightarrow> closest_set" where
  "mk_closest_set target capacity =
     \<lparr>cs_target = target, cs_capacity = capacity, cs_map = [], insertAttemptsSinceTailModification = 0,
      insertAttemptsSinceHeadModification = 0\<rparr>"

fun map_set :: "candidate_node \<Rightarrow> candidate_node list \<Rightarrow> candidate_node list" where
  "map_set c [] = [c]"
| "map_set c (x # xs) =
     (if c_id c = c_id x then c # xs else if c_id c < c_id x then c # x # xs else x # map_set c xs)"

definition cs_reachedCapacity :: "closest_set \<Rightarrow> bool" where
  "cs_reachedCapacity s \<longleftrightarrow> int (length (cs_map s)) \<ge> cs_capacity s"

definition cs_contains :: "id \<Rightarrow> closest_set \<Rightarrow> bool" where
  "cs_contains i s \<longleftrightarrow> i \<in> c_id ` set (cs_map s)"

definition cs_add :: "candidate_node \<Rightarrow> closest_set \<Rightarrow> closest_set" where
  "cs_add cn s =
     (let m = map_set cn (cs_map s);
          s = s\<lparr>cs_map := m\<rparr>;
          s = (if int (length m) > cs_capacity s
               then s\<lparr>insertAttemptsSinceTailModification :=
                         (if c_id (last m) = c_id cn then insertAttemptsSinceTailModification s + 1 else 0),
                      cs_map := butlast m\<rparr>
               else s)
      in case cs_map s of
           [] \<Rightarrow> s
         | head # _ \<Rightarrow>
             s\<lparr>insertAttemptsSinceHeadModification :=
                 (if c_id head = c_id cn then 0 else insertAttemptsSinceHeadModification s + 1)\<rparr>)"

definition cs_removeCandidate :: "id \<Rightarrow> closest_set \<Rightarrow> closest_set" where
  "cs_removeCandidate i s =
     (if cs_map s \<noteq> [] then s\<lparr>cs_map := filter (\<lambda>c. c_id c \<noteq> i) (cs_map s)\<rparr> else s)"

definition cs_tail :: "closest_set \<Rightarrow> id" where
  "cs_tail s = (if cs_map s = [] then distance (cs_target s) MAX_ID else c_id (last (cs_map s)))"

definition cs_head :: "closest_set \<Rightarrow> id" where
  "cs_head s = (case cs_map s of [] \<Rightarrow> distance (cs_target s) MAX_ID | c # _ \<Rightarrow> c_id c)"

definition cs_isEligible :: "closest_set \<Rightarrow> bool" where
  "cs_isEligible s \<longleftrightarrow> cs_reachedCapacity s \<and> insertAttemptsSinceTailModification s > cs_capacity s"

section \<open>Properties of the candidates\<close>

definition c_dist :: "id \<Rightarrow> candidate_node \<Rightarrow> nat" where
  "c_dist target c = id_val (distance target (c_id c))"

lemma c_dist_inj: "c_dist t a = c_dist t b \<longleftrightarrow> c_id a = c_id b"
  by (metis c_dist_def distance_involution id_val_inj)

lemma closer_dist: "(\<lambda>a b. threeWayCompare t (c_id a) (c_id b) < 0) = (\<lambda>a b. c_dist t a < c_dist t b)"
  by (simp add: threeWayCompare_less c_dist_def)

lemma candidateOrder_key: "candidateOrder t a b < 0 \<longleftrightarrow> (pinged a, c_dist t a) < (pinged b, c_dist t b)"
  by (auto simp: candidateOrder_def Let_def threeWayCompare_less c_dist_def)

lemma mset_merge_by [simp]: "mset (merge_by lt xs ys) = mset xs + mset ys"
  by (induction lt xs ys rule: merge_by.induct) auto

lemma set_merge_by [simp]: "set (merge_by lt xs ys) = set xs \<union> set ys"
  using mset_merge_by [of lt xs ys] by (metis set_mset_mset set_mset_union)

lemma sorted_merge_by:
  fixes f :: "'a \<Rightarrow> 'b :: linorder"
  assumes "sorted (map f xs)" and "sorted (map f ys)"
  shows "sorted (map f (merge_by (\<lambda>a b. f a < f b) xs ys))"
  using assms
proof (induction "\<lambda>a b. f a < f b" xs ys rule: merge_by.induct)
  case (3 x xs y ys)
  show ?case
  proof (cases "f y < f x")
    case True
    then have "\<forall>z \<in> set (x # xs) \<union> set ys. f y \<le> f z" using "3.prems" by fastforce
    then show ?thesis using True 3 by simp
  next
    case False
    then have "\<forall>z \<in> set xs \<union> set (y # ys). f x \<le> f z" using "3.prems" by fastforce
    then show ?thesis using False 3 by simp
  qed
qed simp_all

text \<open>
  The candidates are ordered by distance, no two have the same identifier, and every identifier that ever was
  a candidate is remembered.
\<close>

definition cc_inv :: "closest_candidates \<Rightarrow> bool" where
  "cc_inv cc \<longleftrightarrow> sorted (map (c_dist (cc_target cc)) (closest cc)) \<and> distinct (map c_id (closest cc)) \<and>
     c_id ` set (closest cc) \<subseteq> set (dedup_ids cc)"

lemma cc_filter_spec:
  assumes "cc_filter ns ids addrs = (fs, ids', addrs')"
  shows "distinct (map c_id fs) \<and> c_id ` set fs \<inter> set ids = {} \<and> set ids' = set ids \<union> node_id ` set ns \<and>
    set fs \<subseteq> mk_candidate ` set ns"
  using assms
proof (induction ns ids addrs arbitrary: fs ids' addrs' rule: cc_filter.induct)
  case (2 n ns ids addrs)
  consider "node_id n \<in> set ids" | "node_id n \<notin> set ids" "addr_seen (node_addr n) addrs"
    | "node_id n \<notin> set ids" "\<not> addr_seen (node_addr n) addrs" by blast
  then show ?case
  proof cases
    case 1
    then have "cc_filter ns ids addrs = (fs, ids', addrs')" using "2.prems" by simp
    from "2.IH"(1) [OF 1 this] show ?thesis using 1 by auto
  next
    case 2
    then have "cc_filter ns (node_id n # ids) addrs = (fs, ids', addrs')" using "2.prems" by simp
    from "2.IH"(2) [OF 2 this] show ?thesis by auto
  next
    case 3
    then obtain gs where gs: "cc_filter ns (node_id n # ids) (node_addr n # addrs) = (gs, ids', addrs')" "fs = mk_candidate n # gs"
      using "2.prems" by (simp split: prod.splits)
    have "c_id (mk_candidate n) = node_id n" by (simp add: mk_candidate_def)
    then show ?thesis using "2.IH"(3) [OF 3 gs(1)] 3(1) gs(2) by auto
  qed
qed simp

lemma remove_first_filter: "distinct (map f xs) \<Longrightarrow> remove_first (\<lambda>x. i = f x) xs = filter (\<lambda>x. f x \<noteq> i) xs"
proof (induction xs)
  case (Cons x xs)
  then have "filter (\<lambda>y. f y \<noteq> f x) xs = xs" by (auto simp: filter_id_conv image_iff)
  then show ?case using Cons by auto
qed simp

lemma cc_remove_closest:
  "cc_inv cc \<Longrightarrow> closest (snd (cc_remove i cc)) = filter (\<lambda>c. c_id c \<noteq> i) (closest cc)"
  by (simp add: cc_remove_def cc_inv_def remove_first_filter)

lemma cc_remove_frame [simp]:
  "cc_target (snd (cc_remove i cc)) = cc_target cc" "cc_capacity (snd (cc_remove i cc)) = cc_capacity cc"
  "dedup_ids (snd (cc_remove i cc)) = dedup_ids cc"
  by (simp_all add: cc_remove_def)

lemma sorted_map_filter: "sorted (map f xs) \<Longrightarrow> sorted (map f (filter P xs))"
  by (rule sorted_filter)

lemma cc_filter_closest_inv:
  assumes "cc_inv cc" and "closest cc' = filter P (closest cc)" and "cc_target cc' = cc_target cc" and "dedup_ids cc' = dedup_ids cc"
  shows "cc_inv cc'"
  using assms by (auto simp: cc_inv_def sorted_map_filter distinct_map inj_on_def)

lemma cc_remove_inv: "cc_inv cc \<Longrightarrow> cc_inv (snd (cc_remove i cc))"
  using cc_filter_closest_inv cc_remove_closest by (metis cc_remove_frame(1,3))

lemma fold_cc_remove:
  assumes "cc_inv cc"
  shows "cc_inv (fold (\<lambda>c cc. snd (cc_remove (c_id c) cc)) xs cc) \<and>
    closest (fold (\<lambda>c cc. snd (cc_remove (c_id c) cc)) xs cc) = filter (\<lambda>c. c_id c \<notin> c_id ` set xs) (closest cc) \<and>
    cc_target (fold (\<lambda>c cc. snd (cc_remove (c_id c) cc)) xs cc) = cc_target cc \<and>
    cc_capacity (fold (\<lambda>c cc. snd (cc_remove (c_id c) cc)) xs cc) = cc_capacity cc \<and>
    dedup_ids (fold (\<lambda>c cc. snd (cc_remove (c_id c) cc)) xs cc) = dedup_ids cc"
  using assms
proof (induction xs arbitrary: cc)
  case (Cons x xs)
  show ?case using Cons.IH [OF cc_remove_inv [OF Cons.prems], of "c_id x"] cc_remove_closest [OF Cons.prems, of "c_id x"]
    by (simp add: conj_commute)
qed simp

text \<open>The list after the merge in \<open>cc_add\<close>, before the surplus is removed.\<close>

lemma cc_add_merged:
  assumes inv: "cc_inv cc" and f: "cc_filter ns (dedup_ids cc) (dedup_addrs cc) = (fs, ids, addrs)"
    and m: "m = merge_by (\<lambda>a b. c_dist (cc_target cc) a < c_dist (cc_target cc) b) (closest cc)
              (sort_by (\<lambda>a b. c_dist (cc_target cc) a < c_dist (cc_target cc) b) fs)"
  shows "cc_inv (cc\<lparr>dedup_ids := ids, dedup_addrs := addrs, closest := m\<rparr>)" and "mset m = mset (closest cc) + mset fs"
proof -
  note fs = cc_filter_spec [OF f]
  have srt: "sort_by (\<lambda>a b. c_dist (cc_target cc) a < c_dist (cc_target cc) b) fs = sort_key (c_dist (cc_target cc)) fs"
    by (rule sort_by_key) simp
  show ms: "mset m = mset (closest cc) + mset fs" by (simp add: m srt)
  have "sorted (map (c_dist (cc_target cc)) m)" unfolding m srt using inv by (intro sorted_merge_by) (auto simp: cc_inv_def)
  moreover have "distinct (map c_id m)"
  proof -
    have "distinct (map c_id (closest cc @ fs))" using inv fs by (auto simp: cc_inv_def)
    then show ?thesis by (rule mset_eq_imp_distinct_iff [THEN iffD1, rotated]) (simp add: ms)
  qed
  moreover have "c_id ` set m \<subseteq> set ids"
    using fs inv mset_eq_setD [of m "closest cc @ fs"] by (auto simp: ms cc_inv_def mk_candidate_def)
  ultimately show "cc_inv (cc\<lparr>dedup_ids := ids, dedup_addrs := addrs, closest := m\<rparr>)" by (simp add: cc_inv_def)
qed

lemma sort_candidateOrder:
  "sort_by (\<lambda>a b. candidateOrder t a b < 0) xs = sort_key (\<lambda>c. (pinged c, c_dist t c)) xs"
  by (rule sort_by_key) (rule candidateOrder_key)

text \<open>
  What \<^verbatim>\<open>add\<close> does: the new list is the old candidates and fresh ones for nodes never seen before, less a
  surplus; a candidate with a pending call is never dropped; at most \<^verbatim>\<open>capacity\<close> idle candidates remain; and the
  candidates dropped are the last in the order by attempts and distance.
\<close>

lemma cc_add_spec:
  assumes inv: "cc_inv cc"
  obtains D where "cc_inv (cc_add ns cc)" "cc_target (cc_add ns cc) = cc_target cc" "cc_capacity (cc_add ns cc) = cc_capacity cc"
    "set (dedup_ids (cc_add ns cc)) = set (dedup_ids cc) \<union> node_id ` set ns"
    "\<forall>c \<in> set (closest (cc_add ns cc)). c \<in> set (closest cc) \<or> (\<exists>n \<in> set ns. node_id n \<notin> set (dedup_ids cc) \<and> c = mk_candidate n)"
    "\<forall>c \<in> set (closest cc). isInFlight c \<longrightarrow> c \<in> set (closest (cc_add ns cc))"
    "length (closest (cc_add ns cc)) > cc_capacity cc \<longrightarrow>
       length (filter (\<lambda>c. \<not> isInFlight c) (closest (cc_add ns cc))) \<le> cc_capacity cc"
    "set (closest cc) - set (closest (cc_add ns cc)) \<subseteq> D"
    "\<forall>c \<in> set (closest (cc_add ns cc)). \<forall>d \<in> D. \<not> isInFlight c \<longrightarrow> (pinged c, c_dist (cc_target cc) c) \<le> (pinged d, c_dist (cc_target cc) d)"
proof -
  let ?t = "cc_target cc"
  obtain fs ids addrs where f: "cc_filter ns (dedup_ids cc) (dedup_addrs cc) = (fs, ids, addrs)" by (metis prod_cases3)
  define m where "m = merge_by (\<lambda>a b. c_dist ?t a < c_dist ?t b) (closest cc) (sort_by (\<lambda>a b. c_dist ?t a < c_dist ?t b) fs)"
  define cc1 where "cc1 = cc\<lparr>dedup_ids := ids, dedup_addrs := addrs, closest := m\<rparr>"
  note fs = cc_filter_spec [OF f]
  have inv1: "cc_inv cc1" and ms: "mset m = mset (closest cc) + mset fs"
    unfolding cc1_def using cc_add_merged [OF inv f m_def] by auto
  have sm: "set m = set (closest cc) \<union> set fs" using mset_eq_setD [of m "closest cc @ fs"] by (simp add: ms)
  define tr where "tr = sort_key (\<lambda>c. (pinged c, c_dist ?t c)) (filter (\<lambda>c. \<not> isInFlight c) m)"
  define D where "D = (if length m > cc_capacity cc then set (drop (cc_capacity cc) tr) else {})"
  define cc2 where "cc2 = cc_add ns cc"
  have dm: "distinct (map c_id m)" using inv1 by (simp add: cc_inv_def cc1_def)
  have trm: "mset tr = mset (filter (\<lambda>c. \<not> isInFlight c) m)" by (simp add: tr_def)
  have len: "length (filter (\<lambda>c. \<not> isInFlight c) m) = length tr" by (simp add: tr_def)
  have Dm: "D \<subseteq> {c \<in> set m. \<not> isInFlight c}" using mset_eq_setD [OF trm] by (auto simp: D_def dest: in_set_dropD)
  have "cc2 = (if length m > cc_capacity cc \<and> length tr > cc_capacity cc
      then fold (\<lambda>c cc. snd (cc_remove (c_id c) cc)) (drop (cc_capacity cc) tr) cc1 else cc1)"
    unfolding cc2_def cc_add_def closer_dist f Let_def prod.case m_def [symmetric] sort_candidateOrder
    by (simp add: cc1_def tr_def)
  then have cc2: "cc_inv cc2" "closest cc2 = filter (\<lambda>c. c_id c \<notin> c_id ` D) m" "cc_target cc2 = ?t" "cc_capacity cc2 = cc_capacity cc"
    "dedup_ids cc2 = ids"
    using inv1 fold_cc_remove [OF inv1, of "drop (cc_capacity cc) tr"] by (auto simp: D_def cc1_def)
  have keep: "c \<in> set (closest cc2) \<longleftrightarrow> c \<in> set m \<and> c \<notin> D" for c
    using dm Dm by (auto simp: cc2(2) distinct_map inj_on_def)
  show thesis
  proof (rule that [of D, folded cc2_def])
    show "cc_inv cc2" "cc_target cc2 = ?t" "cc_capacity cc2 = cc_capacity cc" by (fact cc2)+
    show "set (dedup_ids cc2) = set (dedup_ids cc) \<union> node_id ` set ns" using fs by (simp add: cc2(5))
    show "\<forall>c \<in> set (closest cc2). c \<in> set (closest cc) \<or> (\<exists>n \<in> set ns. node_id n \<notin> set (dedup_ids cc) \<and> c = mk_candidate n)"
    proof
      fix c
      assume "c \<in> set (closest cc2)"
      then consider "c \<in> set (closest cc)" | "c \<in> set fs" using keep sm by auto
      then show "c \<in> set (closest cc) \<or> (\<exists>n \<in> set ns. node_id n \<notin> set (dedup_ids cc) \<and> c = mk_candidate n)"
      proof cases
        case 2
        then obtain n where "n \<in> set ns" "c = mk_candidate n" using fs by auto
        moreover have "c_id c \<notin> set (dedup_ids cc)" using fs 2 by auto
        ultimately show ?thesis by (auto simp: mk_candidate_def)
      qed simp
    qed
    show "\<forall>c \<in> set (closest cc). isInFlight c \<longrightarrow> c \<in> set (closest cc2)" using Dm sm unfolding keep by auto
    show "set (closest cc) - set (closest cc2) \<subseteq> D" using sm keep by auto
    show "length (closest cc2) > cc_capacity cc \<longrightarrow> length (filter (\<lambda>c. \<not> isInFlight c) (closest cc2)) \<le> cc_capacity cc"
    proof
      assume "length (closest cc2) > cc_capacity cc"
      then have big: "length m > cc_capacity cc" unfolding cc2(2) by (rule less_le_trans) (rule length_filter_le)
      have "set (filter (\<lambda>c. \<not> isInFlight c) (closest cc2)) \<subseteq> set (take (cc_capacity cc) tr)"
      proof
        fix c
        assume "c \<in> set (filter (\<lambda>c. \<not> isInFlight c) (closest cc2))"
        then have "c \<in> set tr" "c \<notin> set (drop (cc_capacity cc) tr)" using keep big mset_eq_setD [OF trm] by (auto simp: D_def)
        then show "c \<in> set (take (cc_capacity cc) tr)" by (metis Un_iff append_take_drop_id set_append)
      qed
      moreover have "distinct (filter (\<lambda>c. \<not> isInFlight c) (closest cc2))" using dm by (simp add: cc2(2) distinct_map)
      ultimately show "length (filter (\<lambda>c. \<not> isInFlight c) (closest cc2)) \<le> cc_capacity cc"
        by (metis (no_types, lifting) List.finite_set card_length card_mono distinct_card le_trans length_take min.cobounded2)
    qed
    have "sorted (map (\<lambda>c. (pinged c, c_dist ?t c)) (take (cc_capacity cc) tr @ drop (cc_capacity cc) tr))" by (simp add: tr_def)
    then have ord: "\<forall>c \<in> set (take (cc_capacity cc) tr). \<forall>d \<in> set (drop (cc_capacity cc) tr). (pinged c, c_dist ?t c) \<le> (pinged d, c_dist ?t d)"
      unfolding map_append sorted_append by auto
    show "\<forall>c \<in> set (closest cc2). \<forall>d \<in> D. \<not> isInFlight c \<longrightarrow> (pinged c, c_dist ?t c) \<le> (pinged d, c_dist ?t d)"
    proof (intro ballI impI)
      fix c d
      assume c: "c \<in> set (closest cc2)" "\<not> isInFlight c" and d: "d \<in> D"
      then have "d \<in> set (drop (cc_capacity cc) tr)" by (auto simp: D_def split: if_splits)
      moreover have "c \<in> set tr" "c \<notin> D" using c keep mset_eq_setD [OF trm] by auto
      then have "c \<in> set (take (cc_capacity cc) tr)" using d
        by (metis D_def Un_iff append_take_drop_id empty_iff set_append)
      ultimately show "(pinged c, c_dist ?t c) \<le> (pinged d, c_dist ?t d)" using ord by blast
    qed
  qed
qed

text \<open>The next candidate is an eligible one with the fewest attempts and, among those, the closest.\<close>

lemma cc_next_spec:
  "cc_next cc = Some c \<Longrightarrow> c \<in> set (closest cc) \<and> isEligible c \<and>
     (\<forall>d \<in> set (closest cc). isEligible d \<longrightarrow> (pinged c, c_dist (cc_target cc) c) \<le> (pinged d, c_dist (cc_target cc) d))"
  "cc_next cc = None \<longleftrightarrow> (\<forall>c \<in> set (closest cc). \<not> isEligible c)"
proof -
  let ?f = "\<lambda>c. (pinged c, c_dist (cc_target cc) c)"
  let ?s = "sort_key ?f (filter isEligible (closest cc))"
  have n: "cc_next cc = (if filter isEligible (closest cc) \<noteq> [] then Some (hd ?s) else None)"
    by (simp add: cc_next_def Let_def sort_candidateOrder)
  show "cc_next cc = None \<longleftrightarrow> (\<forall>c \<in> set (closest cc). \<not> isEligible c)" by (auto simp: n filter_empty_conv)
  assume "cc_next cc = Some c"
  then have ne: "?s \<noteq> []" and c: "c = hd ?s" by (auto simp: n split: if_splits) (metis set_sort list.set(1) set_empty2)
  then obtain xs where xs: "?s = c # xs" by (cases ?s) auto
  have "sorted (map ?f ?s)" by simp
  then have "\<forall>d \<in> set ?s. ?f c \<le> ?f d" by (simp add: xs)
  moreover have "c \<in> set ?s" using xs by simp
  ultimately show "c \<in> set (closest cc) \<and> isEligible c \<and> (\<forall>d \<in> set (closest cc). isEligible d \<longrightarrow> ?f c \<le> ?f d)" by auto
qed

section \<open>Properties of the closest set\<close>

definition cs_inv :: "closest_set \<Rightarrow> bool" where
  "cs_inv s \<longleftrightarrow> sorted_wrt (<) (map c_id (cs_map s)) \<and> int (length (cs_map s)) \<le> cs_capacity s"

definition cs_ids :: "closest_set \<Rightarrow> id set" where
  "cs_ids s = c_id ` set (cs_map s)"

lemma map_set_ids: "c_id ` set (map_set c m) = insert (c_id c) (c_id ` set m)"
  by (induction m) auto

lemma map_set_sorted: "sorted_wrt (<) (map c_id m) \<Longrightarrow> sorted_wrt (<) (map c_id (map_set c m))"
proof (induction m)
  case (Cons x m)
  have "\<forall>i \<in> c_id ` set (map_set c m). c_id x < i" if "c_id x < c_id c" using Cons.prems that by (auto simp: map_set_ids)
  then show ?case using Cons by auto
qed simp

lemma map_set_length: "sorted_wrt (<) (map c_id m) \<Longrightarrow> length (map_set c m) = (if c_id c \<in> c_id ` set m then length m else Suc (length m))"
  by (induction m) auto

lemma map_set_mem: "c \<in> set (map_set c m)"
  by (induction m) auto

lemma cs_add_map:
  "cs_map (cs_add c s) = (let m = map_set c (cs_map s) in if int (length m) > cs_capacity s then butlast m else m)"
  "cs_capacity (cs_add c s) = cs_capacity s" "cs_target (cs_add c s) = cs_target s"
  by (auto simp: cs_add_def Let_def split: list.splits)

lemma cs_add_inv:
  assumes "cs_inv s" and "0 \<le> cs_capacity s"
  shows "cs_inv (cs_add c s)"
proof -
  define m where "m = map_set c (cs_map s)"
  have srt: "sorted_wrt (<) (map c_id m)" and len: "length m \<le> Suc (length (cs_map s))"
    using assms(1) map_set_sorted map_set_length [of "cs_map s" c] by (auto simp: cs_inv_def m_def)
  have "sorted_wrt (<) (map c_id (butlast m))"
    using srt by (cases m rule: rev_cases) (auto simp: sorted_wrt_append)
  then show ?thesis using srt len assms by (auto simp: cs_inv_def cs_add_map m_def [symmetric] Let_def)
qed

text \<open>
  The set keeps the nodes whose identifiers are smallest as numbers: a node that does not fit displaces the
  largest identifier, whatever the target is.
\<close>

lemma cs_add_ids:
  assumes inv: "cs_inv s" and cap: "1 \<le> cs_capacity s"
  shows "cs_ids (cs_add c s) =
    (if c_id c \<in> cs_ids s \<or> int (card (cs_ids s)) < cs_capacity s then insert (c_id c) (cs_ids s)
     else insert (c_id c) (cs_ids s) - {Max (insert (c_id c) (cs_ids s))})"
proof -
  define m where "m = map_set c (cs_map s)"
  have srt: "sorted_wrt (<) (map c_id m)" and ids: "c_id ` set m = insert (c_id c) (cs_ids s)"
    using inv map_set_sorted by (auto simp: cs_inv_def m_def cs_ids_def map_set_ids)
  have d: "distinct (map c_id (cs_map s))" using inv by (simp add: cs_inv_def strict_sorted_iff)
  then have card: "card (cs_ids s) = length (cs_map s)" unfolding cs_ids_def by (metis distinct_card length_map list.set_map)
  have len: "length m = (if c_id c \<in> cs_ids s then length (cs_map s) else Suc (length (cs_map s)))"
    using map_set_length [of "cs_map s" c] inv by (simp add: m_def cs_ids_def cs_inv_def)
  show ?thesis
  proof (cases "c_id c \<in> cs_ids s \<or> int (card (cs_ids s)) < cs_capacity s")
    case True
    then have "cs_map (cs_add c s) = m" using len card inv by (auto simp: cs_add_map m_def [symmetric] cs_inv_def)
    then show ?thesis using True ids by (simp add: cs_ids_def)
  next
    case False
    then have mb: "cs_map (cs_add c s) = butlast m" using len card by (auto simp: cs_add_map m_def [symmetric])
    obtain xs x where mx: "m = xs @ [x]" using len False by (cases m rule: rev_cases) auto
    have less: "\<forall>y \<in> set xs. c_id y < c_id x" using srt by (auto simp: mx sorted_wrt_append)
    have "Max (c_id ` set m) = c_id x" using less by (intro Max_eqI) (auto simp: mx less_imp_le)
    moreover have "c_id ` set xs = c_id ` set m - {c_id x}" using less by (auto simp: mx)
    moreover have "cs_ids (cs_add c s) = c_id ` set xs" by (simp add: cs_ids_def mb mx)
    ultimately have "cs_ids (cs_add c s) = insert (c_id c) (cs_ids s) - {Max (insert (c_id c) (cs_ids s))}"
      unfolding ids by simp
    then show ?thesis using False by (simp only: if_False)
  qed
qed

section \<open>Correctness\<close>

text \<open>
  C40: \<^verbatim>\<open>ClosestCandidates::add\<close> keeps the candidates sorted by distance and free of duplicates, adds only nodes whose
  identifier was never seen before, never drops a candidate with a pending call, and leaves at most \<^verbatim>\<open>capacity\<close> idle
  candidates when the list is over its capacity.
\<close>

theorem add_keeps_order_and_flights:
  assumes "cc_inv cc"
  shows "cc_inv (cc_add ns cc) \<and> set (dedup_ids (cc_add ns cc)) = set (dedup_ids cc) \<union> node_id ` set ns \<and>
    (\<forall>c \<in> set (closest (cc_add ns cc)). c \<in> set (closest cc) \<or> (\<exists>n \<in> set ns. node_id n \<notin> set (dedup_ids cc) \<and> c = mk_candidate n)) \<and>
    (\<forall>c \<in> set (closest cc). isInFlight c \<longrightarrow> c \<in> set (closest (cc_add ns cc))) \<and>
    (length (closest (cc_add ns cc)) > cc_capacity cc \<longrightarrow>
       length (filter (\<lambda>c. \<not> isInFlight c) (closest (cc_add ns cc))) \<le> cc_capacity cc)"
  by (rule cc_add_spec [OF assms, of ns]) simp

theorem add_keeps_order_and_flights_witness:
  "let cc = mk_candidates zero_id 0; ns = [PlainNode \<lparr>n_id = MAX_ID, n_addr = Inet 1 1, n_version = 0\<rparr>] in
    cc_inv (cc_add ns cc) \<and> set (dedup_ids (cc_add ns cc)) = set (dedup_ids cc) \<union> node_id ` set ns \<and>
    (\<forall>c \<in> set (closest (cc_add ns cc)). c \<in> set (closest cc) \<or> (\<exists>n \<in> set ns. node_id n \<notin> set (dedup_ids cc) \<and> c = mk_candidate n)) \<and>
    (\<forall>c \<in> set (closest cc). isInFlight c \<longrightarrow> c \<in> set (closest (cc_add ns cc))) \<and>
    (length (closest (cc_add ns cc)) > cc_capacity cc \<longrightarrow>
       length (filter (\<lambda>c. \<not> isInFlight c) (closest (cc_add ns cc))) \<le> cc_capacity cc)"
  unfolding Let_def by (rule add_keeps_order_and_flights) (simp add: cc_inv_def mk_candidates_def)

text \<open>
  \<^verbatim>\<open>ClosestCandidates::next\<close> returns a candidate that can be asked (no pending call, fewer than three attempts) with
  the fewest attempts and among those the one closest to the target, and none exactly if no candidate can be asked.
\<close>

theorem next_is_best:
  "(cc_next cc = Some c \<longrightarrow> c \<in> set (closest cc) \<and> isEligible c \<and>
     (\<forall>d \<in> set (closest cc). isEligible d \<longrightarrow> (pinged c, c_dist (cc_target cc) c) \<le> (pinged d, c_dist (cc_target cc) d))) \<and>
   (cc_next cc = None) = (\<forall>c \<in> set (closest cc). \<not> isEligible c)"
  using cc_next_spec [of cc] by blast

definition cand :: "id \<Rightarrow> candidate_node" where
  "cand i = mk_candidate (PlainNode \<lparr>n_id = i, n_addr = Inet 1 1, n_version = 0\<rparr>)"

theorem next_is_best_witness:
  "let cc = (mk_candidates zero_id 8)\<lparr>closest := [cand MAX_ID]\<rparr>; c = cand MAX_ID in
   cc_next cc = Some c \<and> c \<in> set (closest cc) \<and> isEligible c"
proof -
  have "cc_next ((mk_candidates zero_id 8)\<lparr>closest := [cand MAX_ID]\<rparr>) = Some (cand MAX_ID)"
    by (simp add: cc_next_def mk_candidates_def cand_def mk_candidate_def isEligible_def sort_by_def)
  with next_is_best [of "(mk_candidates zero_id 8)\<lparr>closest := [cand MAX_ID]\<rparr>" "cand MAX_ID"] show ?thesis by (simp add: Let_def)
qed

text \<open>
  \<^verbatim>\<open>ClosestSet::add\<close> keeps the nodes with the numerically smallest identifiers, not the ones closest to the target: the
  map is ordered by \<^verbatim>\<open>operator<\<close>. For a target equal to the largest identifier a set with room for one node prefers the zero
  identifier over the target itself.
\<close>

theorem closest_set_by_value:
  "(cs_inv s \<and> 1 \<le> cs_capacity s \<longrightarrow> cs_inv (cs_add c s) \<and> cs_ids (cs_add c s) =
    (if c_id c \<in> cs_ids s \<or> int (card (cs_ids s)) < cs_capacity s then insert (c_id c) (cs_ids s)
     else insert (c_id c) (cs_ids s) - {Max (insert (c_id c) (cs_ids s))})) \<and>
   cs_ids (cs_add (cand zero_id) (cs_add (cand MAX_ID) (mk_closest_set MAX_ID 1))) = {zero_id}"
proof -
  have "cs_ids (cs_add (cand zero_id) (cs_add (cand MAX_ID) (mk_closest_set MAX_ID 1))) = {zero_id}"
    by (simp add: cs_ids_def cs_add_map mk_closest_set_def cand_def mk_candidate_def)
  then show ?thesis using cs_add_inv cs_add_ids by auto
qed

theorem closest_set_by_value_witness:
  "let s = cs_add (cand MAX_ID) (mk_closest_set MAX_ID 1) in cs_inv (mk_closest_set MAX_ID 1) \<and>
   cs_inv s \<and> cs_ids (cs_add (cand zero_id) s) = {zero_id}"
proof -
  have "cs_inv (mk_closest_set MAX_ID 1)" "1 \<le> cs_capacity (mk_closest_set MAX_ID 1)" by (simp_all add: cs_inv_def mk_closest_set_def)
  then show ?thesis using closest_set_by_value [of "mk_closest_set MAX_ID 1" "cand MAX_ID"] by (simp add: Let_def)
qed

end
