(* ===== verification/Lookups.thy ===== *)
theory Lookups
  imports Candidates
begin

text \<open>
  Lookup tasks: the state machine of \<^verbatim>\<open>task/task.cc\<close> as a lookup drives it, the shared part of the lookups
  (\<^verbatim>\<open>lookup_task.cc\<close>) and the node, value and peer lookups. A pending call is represented by the identifier
  of its target. \<^verbatim>\<open>serializedUpdate\<close> runs on one thread and not from within itself, so its body is executed
  once per call.
\<close>

datatype task_state = INITIAL | QUEUED | RUNNING | FINISHED | CANCELED

record lookup_task =
  lt_target :: id
  lt_state :: task_state
  startTime :: u64
  finishTime :: u64
  inFlight :: "id list"
  notified :: nat \<comment> \<open>how often the completion listeners were called\<close>
  closestSet :: closest_set
  closestCandidates :: closest_candidates

definition mk_lookup :: "id \<Rightarrow> lookup_task" where
  "mk_lookup target =
     \<lparr>lt_target = target, lt_state = INITIAL, startTime = 0, finishTime = 0, inFlight = [], notified = 0,
      closestSet = mk_closest_set target (int MAX_ENTRIES_PER_BUCKET),
      closestCandidates = mk_candidates target (MAX_ENTRIES_PER_BUCKET * 3)\<rparr>"

definition setState :: "task_state list \<Rightarrow> task_state \<Rightarrow> lookup_task \<Rightarrow> bool \<times> lookup_task" where
  "setState expected newState t =
     (if lt_state t \<in> set expected then (True, t\<lparr>lt_state := newState\<rparr>) else (False, t))"

definition isFinished :: "lookup_task \<Rightarrow> bool" where
  "isFinished t \<longleftrightarrow> lt_state t = FINISHED \<or> lt_state t = CANCELED"

definition canDoRequest :: "lookup_task \<Rightarrow> bool" where
  "canDoRequest t \<longleftrightarrow> length (inFlight t) < MAX_CONCURRENT_TASK_REQUESTS"

definition t_finish :: "u64 \<Rightarrow> lookup_task \<Rightarrow> lookup_task" where
  "t_finish now t =
     (case setState [INITIAL, QUEUED, RUNNING] FINISHED t of
        (True, t') \<Rightarrow> t'\<lparr>finishTime := now, notified := notified t' + 1\<rparr>
      | (False, t') \<Rightarrow> t')"

definition t_cancel :: "u64 \<Rightarrow> lookup_task \<Rightarrow> lookup_task" where
  "t_cancel now t =
     (case setState [INITIAL, QUEUED, RUNNING] CANCELED t of
        (True, t') \<Rightarrow> t'\<lparr>finishTime := now, notified := notified t' + 1\<rparr>
      | (False, t') \<Rightarrow> t')"

text \<open>\<^verbatim>\<open>LookupTask::isDone\<close>.\<close>

definition lt_isDone :: "lookup_task \<Rightarrow> bool" where
  "lt_isDone t \<longleftrightarrow>
     (inFlight t = [] \<or> isFinished t) \<and>
     (closest (closestCandidates t) = [] \<or>
      (cs_isEligible (closestSet t) \<and>
       threeWayCompare (lt_target t) (cs_tail (closestSet t)) (cc_head (closestCandidates t)) \<le> 0))"

text \<open>\<^verbatim>\<open>LookupTask::addCandidates\<close>; \<open>selfId\<close> and \<open>isSelfAddress\<close> come from the node. \<^verbatim>\<open>isBogon\<close> never throws
  (\<open>isBogon_iff\<close>).\<close>

definition lt_addCandidates :: "id \<Rightarrow> (sockaddr \<Rightarrow> bool) \<Rightarrow> node list \<Rightarrow> lookup_task \<Rightarrow> lookup_task" where
  "lt_addCandidates selfId isSelfAddress nodes t =
     (let candidates = filter (\<lambda>n. \<not> (isBogon (node_addr n) = Some True \<or> node_id n = selfId \<or>
                                    isSelfAddress (node_addr n) \<or> cs_contains (node_id n) (closestSet t))) nodes
      in if candidates \<noteq> [] then t\<lparr>closestCandidates := cc_add candidates (closestCandidates t)\<rparr> else t)"

text \<open>
  The loop of the lookups' \<^verbatim>\<open>update\<close>: \<^verbatim>\<open>sendCall\<close> marks the candidate and records the call.
\<close>

definition t_sendCall :: "u64 \<Rightarrow> candidate_node \<Rightarrow> lookup_task \<Rightarrow> lookup_task" where
  "t_sendCall now c t =
     (if \<not> canDoRequest t then t
      else t\<lparr>closestCandidates := (closestCandidates t)\<lparr>closest :=
                update_first (\<lambda>d. c_id d = c_id c) (setSent now) (closest (closestCandidates t))\<rparr>,
             inFlight := inFlight t @ [c_id c]\<rparr>)"

function lt_update :: "u64 \<Rightarrow> lookup_task \<Rightarrow> lookup_task" where
  "lt_update now t =
     (if canDoRequest t
      then case cc_next (closestCandidates t) of
             None \<Rightarrow> t
           | Some candidate \<Rightarrow> lt_update now (t_sendCall now candidate t)
      else t)"
  by pat_completeness auto
termination
  by (relation "measure (\<lambda>(now, t). MAX_CONCURRENT_TASK_REQUESTS - length (inFlight t))")
    (auto simp: t_sendCall_def canDoRequest_def)

declare lt_update.simps [simp del]

definition serializedUpdate :: "u64 \<Rightarrow> lookup_task \<Rightarrow> lookup_task" where
  "serializedUpdate now t =
     (let t1 = (if lt_isDone t then t_finish now t else t)
      in if canDoRequest t1 \<and> \<not> isFinished t1
         then let t2 = lt_update now t1 in if lt_isDone t2 then t_finish now t2 else t2
         else t1)"

definition t_start :: "u64 \<Rightarrow> (lookup_task \<Rightarrow> lookup_task) \<Rightarrow> lookup_task \<Rightarrow> lookup_task" where
  "t_start now prepare t =
     (case setState [INITIAL, QUEUED] RUNNING t of
        (True, t') \<Rightarrow> serializedUpdate now (prepare (t'\<lparr>startTime := now\<rparr>))
      | (False, t') \<Rightarrow> t')"

section \<open>Call-backs\<close>

definition removeCall :: "id \<Rightarrow> lookup_task \<Rightarrow> lookup_task" where
  "removeCall i t = t\<lparr>inFlight := remove1 i (inFlight t)\<rparr>"

definition lt_callError :: "id \<Rightarrow> lookup_task \<Rightarrow> lookup_task" where
  "lt_callError i t = t\<lparr>closestCandidates := snd (cc_remove i (closestCandidates t))\<rparr>"

definition lt_callTimeout :: "id \<Rightarrow> lookup_task \<Rightarrow> lookup_task" where
  "lt_callTimeout i t =
     (let cc = closestCandidates t in
      case cc_get i cc of
        None \<Rightarrow> t
      | Some c \<Rightarrow>
          if isUnreachable c then t\<lparr>closestCandidates := snd (cc_remove i cc)\<rparr>
          else t\<lparr>closestCandidates := cc\<lparr>closest := update_first (\<lambda>d. c_id d = i) clearSent (closest cc)\<rparr>\<rparr>)"

text \<open>\<^verbatim>\<open>LookupTask::callResponsed\<close>.\<close>

definition lt_callResponsed :: "u64 \<Rightarrow> id \<Rightarrow> int \<Rightarrow> lookup_task \<Rightarrow> lookup_task" where
  "lt_callResponsed now i token t =
     (case cc_remove i (closestCandidates t) of
        (None, cc) \<Rightarrow> t\<lparr>closestCandidates := cc\<rparr>
      | (Some c, cc) \<Rightarrow>
          t\<lparr>closestCandidates := cc, closestSet := cs_add (setToken token (setReplied now c)) (closestSet t)\<rparr>)"

text \<open>
  A response: whether it comes from the node that was asked and is of the expected type and method
  (\<open>r_matches\<close>), its token, and the nodes it lists for the network.
\<close>

record response =
  r_matches :: bool
  r_token :: int
  r_nodes :: "node list"
  r_result :: bool \<comment> \<open>it carries a value or peers\<close>
  r_accepted :: bool \<comment> \<open>and they pass the checks of the lookup\<close>

text \<open>
  The result handlers that \<^verbatim>\<open>DHT::findNode\<close> and its siblings install record the result and, depending on the lookup option,
  cancel the task: \<open>cancels\<close>. \<^verbatim>\<open>NodeLookup\<close> calls its handler for each listed node that is the target.
\<close>

definition node_results :: "bool \<Rightarrow> u64 \<Rightarrow> node list \<Rightarrow> lookup_task \<Rightarrow> lookup_task" where
  "node_results cancels now nodes t =
     fold (\<lambda>n t. if node_id n = lt_target t \<and> cancels then t_cancel now t else t) nodes t"

definition node_callResponsed ::
  "id \<Rightarrow> (sockaddr \<Rightarrow> bool) \<Rightarrow> bool \<Rightarrow> u64 \<Rightarrow> id \<Rightarrow> response \<Rightarrow> lookup_task \<Rightarrow> lookup_task" where
  "node_callResponsed selfId isSelfAddress cancels now i r t =
     (let t1 = lt_callResponsed now i (r_token r) t in
      if \<not> r_matches r then t1
      else node_results cancels now (r_nodes r)
             (if r_nodes r \<noteq> [] then lt_addCandidates selfId isSelfAddress (r_nodes r) t1 else t1))"

text \<open>The value and the peer lookup test the response first and return early.\<close>

definition value_callResponsed ::
  "id \<Rightarrow> (sockaddr \<Rightarrow> bool) \<Rightarrow> bool \<Rightarrow> u64 \<Rightarrow> id \<Rightarrow> response \<Rightarrow> lookup_task \<Rightarrow> lookup_task" where
  "value_callResponsed selfId isSelfAddress cancels now i r t =
     (if \<not> r_matches r then t
      else
        let t1 = lt_callResponsed now i (r_token r) t in
        if r_result r then (if r_accepted r \<and> cancels then t_cancel now t1 else t1)
        else if r_nodes r \<noteq> [] then lt_addCandidates selfId isSelfAddress (r_nodes r) t1 else t1)"

text \<open>The state-change handler that \<^verbatim>\<open>Task::sendCall\<close> installs, for each kind of change.\<close>

definition on_responded :: "u64 \<Rightarrow> (lookup_task \<Rightarrow> lookup_task) \<Rightarrow> id \<Rightarrow> lookup_task \<Rightarrow> lookup_task" where
  "on_responded now callResponsed i t =
     (let t1 = removeCall i t in
      serializedUpdate now (if \<not> isFinished t1 then callResponsed t1 else t1))"

definition on_error :: "u64 \<Rightarrow> id \<Rightarrow> lookup_task \<Rightarrow> lookup_task" where
  "on_error now i t =
     (let t1 = removeCall i t in serializedUpdate now (if \<not> isFinished t1 then lt_callError i t1 else t1))"

definition on_timeout :: "u64 \<Rightarrow> id \<Rightarrow> lookup_task \<Rightarrow> lookup_task" where
  "on_timeout now i t =
     (let t1 = removeCall i t in serializedUpdate now (if \<not> isFinished t1 then lt_callTimeout i t1 else t1))"

definition on_stalled :: "u64 \<Rightarrow> lookup_task \<Rightarrow> lookup_task" where
  "on_stalled now t = serializedUpdate now t"

section \<open>A node lookup never gets stuck\<close>

text \<open>
  While the task runs, the pending calls are exactly the calls to the candidates marked as in flight, there are
  at most ten, and every idle candidate can still be asked.
\<close>

definition flight_ok :: "lookup_task \<Rightarrow> bool" where
  "flight_ok t \<longleftrightarrow>
     cc_inv (closestCandidates t) \<and> distinct (inFlight t) \<and> length (inFlight t) \<le> MAX_CONCURRENT_TASK_REQUESTS \<and>
     set (inFlight t) = {c_id c | c. c \<in> set (closest (closestCandidates t)) \<and> isInFlight c} \<and>
     (\<forall>c \<in> set (closest (closestCandidates t)). 0 \<le> pinged c \<and> pinged c \<le> 3 \<and> (\<not> isInFlight c \<longrightarrow> pinged c < 3))"

lemma cc_inv_update_first:
  assumes "cc_inv cc" and "\<And>c. c_id (f c) = c_id c"
  shows "cc_inv (cc\<lparr>closest := update_first P f (closest cc)\<rparr>)"
proof -
  have "map c_id (update_first P f (closest cc)) = map c_id (closest cc)" by (rule map_update_first) (rule assms(2))
  moreover have "map (c_dist (cc_target cc)) (update_first P f (closest cc)) = map (c_dist (cc_target cc)) (closest cc)"
    by (rule map_update_first) (simp add: c_dist_def assms(2))
  ultimately show ?thesis using assms(1) unfolding cc_inv_def
    by (metis (no_types, lifting) closest_candidates.select_convs(1,3,5) closest_candidates.surjective closest_candidates.update_convs(5) list.set_map)
qed

lemma update_first_by_id:
  assumes "distinct (map c_id cs)" and "c \<in> set cs"
  shows "set (update_first (\<lambda>d. c_id d = c_id c) f cs) = insert (f c) (set cs - {c})"
  using assms
proof (induction cs)
  case (Cons x cs)
  show ?case
  proof (cases "c_id x = c_id c")
    case True
    then have "x = c" using Cons.prems by (auto simp: image_iff)
    then show ?thesis using Cons.prems by auto
  next
    case False
    then show ?thesis using Cons by auto
  qed
qed simp

lemma flight_ok_replace:
  assumes ok: "flight_ok t" and c: "c \<in> set (closest (closestCandidates t))" and f: "\<And>d. c_id (f d) = c_id d"
    and p: "0 \<le> pinged (f c)" "pinged (f c) \<le> 3" "\<not> isInFlight (f c) \<longrightarrow> pinged (f c) < 3"
    and fl: "distinct fl" "length fl \<le> MAX_CONCURRENT_TASK_REQUESTS"
      "set fl = (if isInFlight (f c) then insert (c_id c) (set (inFlight t)) else set (inFlight t) - {c_id c})"
  shows "flight_ok (t\<lparr>closestCandidates := (closestCandidates t)\<lparr>closest :=
      update_first (\<lambda>d. c_id d = c_id c) f (closest (closestCandidates t))\<rparr>, inFlight := fl\<rparr>)"
proof -
  let ?cs = "closest (closestCandidates t)"
  have d: "distinct (map c_id ?cs)" using ok by (simp add: flight_ok_def cc_inv_def)
  note set = update_first_by_id [OF d c, of f]
  have inj: "e = c" if "e \<in> set ?cs" "c_id e = c_id c" for e using d c that by (auto simp: distinct_map inj_on_def)
  have "{c_id e | e. e \<in> insert (f c) (set ?cs - {c}) \<and> isInFlight e} = set fl"
    using ok inj f [of c] unfolding fl(3) flight_ok_def by (auto split: if_splits) metis+
  then show ?thesis using ok p fl(1,2) cc_inv_update_first [of "closestCandidates t" f] f
    unfolding flight_ok_def by (simp add: set)
qed

lemma flight_update_commute:
  "t\<lparr>inFlight := fl, closestCandidates := cc\<rparr> = t\<lparr>closestCandidates := cc, inFlight := fl\<rparr>" for t :: lookup_task
  by simp

lemma t_sendCall_ok:
  assumes ok: "flight_ok t" and can: "canDoRequest t" and nx: "cc_next (closestCandidates t) = Some c" and "now \<noteq> 0"
  shows "flight_ok (t_sendCall now c t)"
proof -
  have c: "c \<in> set (closest (closestCandidates t))" "lastSent c = 0" "pinged c < 3" "0 \<le> pinged c"
    using cc_next_spec(1) [OF nx] ok by (auto simp: isEligible_def flight_ok_def)
  have "c_id c \<notin> set (inFlight t)"
  proof
    assume "c_id c \<in> set (inFlight t)"
    then obtain e where "e \<in> set (closest (closestCandidates t))" "isInFlight e" "c_id e = c_id c"
      using ok by (auto simp: flight_ok_def)
    moreover have "e = c" using calculation c(1) ok by (auto simp: flight_ok_def cc_inv_def distinct_map inj_on_def)
    ultimately show False using c(2) by (simp add: isInFlight_def)
  qed
  then have "flight_ok (t\<lparr>closestCandidates := (closestCandidates t)\<lparr>closest :=
      update_first (\<lambda>d. c_id d = c_id c) (setSent now) (closest (closestCandidates t))\<rparr>, inFlight := inFlight t @ [c_id c]\<rparr>)"
    using assms c ok can by (intro flight_ok_replace) (auto simp: setSent_def isInFlight_def flight_ok_def canDoRequest_def)
  then show ?thesis using can by (simp add: t_sendCall_def)
qed

lemma t_sendCall_frame [simp]:
  "lt_state (t_sendCall now c t) = lt_state t" "lt_target (t_sendCall now c t) = lt_target t"
  "notified (t_sendCall now c t) = notified t" "closestSet (t_sendCall now c t) = closestSet t"
  by (simp_all add: t_sendCall_def)

lemma lt_update_ok:
  assumes "flight_ok t" and "now \<noteq> 0"
  shows "flight_ok (lt_update now t) \<and> lt_state (lt_update now t) = lt_state t \<and> notified (lt_update now t) = notified t \<and>
    closestSet (lt_update now t) = closestSet t \<and>
    (\<not> canDoRequest (lt_update now t) \<or> cc_next (closestCandidates (lt_update now t)) = None)"
  using assms
proof (induction now t rule: lt_update.induct)
  case (1 now t)
  show ?case
  proof (cases "canDoRequest t \<and> cc_next (closestCandidates t) \<noteq> None")
    case True
    then obtain c where c: "canDoRequest t" "cc_next (closestCandidates t) = Some c" by auto
    then have "lt_update now t = lt_update now (t_sendCall now c t)" by (simp add: lt_update.simps [of now t])
    then show ?thesis using "1.IH" [OF c] t_sendCall_ok [OF "1.prems"(1) c] "1.prems"(2) by simp
  next
    case False
    then have "lt_update now t = t" by (auto simp: lt_update.simps [of now t])
    then show ?thesis using False "1.prems" by auto
  qed
qed

lemma flight_ok_removed:
  assumes "flight_ok t"
  shows "flight_ok (t\<lparr>inFlight := remove1 i (inFlight t), closestCandidates := snd (cc_remove i (closestCandidates t))\<rparr>)"
proof -
  have inv: "cc_inv (closestCandidates t)" and d: "distinct (inFlight t)" using assms by (auto simp: flight_ok_def)
  show ?thesis using assms cc_remove_inv [OF inv, of i] d length_remove1 [of i "inFlight t"]
    by (auto simp: flight_ok_def cc_remove_closest [OF inv] set_remove1_eq)
qed

lemma flight_ok_timeout:
  assumes ok: "flight_ok t"
  shows "flight_ok (lt_callTimeout i (removeCall i t))"
proof (cases "cc_get i (closestCandidates t)")
  case None
  then have "\<forall>c \<in> set (closest (closestCandidates t)). c_id c \<noteq> i" by (auto simp: cc_get_def find_eq_None)
  then have "i \<notin> set (inFlight t)" using ok by (auto simp: flight_ok_def)
  then show ?thesis using ok None by (simp add: lt_callTimeout_def removeCall_def remove1_idem Let_def)
next
  case (Some c)
  then have c: "c \<in> set (closest (closestCandidates t))" "c_id c = i" using find_Some_in by (fastforce simp: cc_get_def)+
  have d: "distinct (inFlight t)" using ok by (simp add: flight_ok_def)
  show ?thesis
  proof (cases "isUnreachable c")
    case True
    then show ?thesis using flight_ok_removed [OF ok, of i] Some by (simp add: lt_callTimeout_def removeCall_def Let_def)
  next
    case False
    then have "flight_ok (t\<lparr>closestCandidates := (closestCandidates t)\<lparr>closest :=
      update_first (\<lambda>d. c_id d = c_id c) clearSent (closest (closestCandidates t))\<rparr>, inFlight := remove1 i (inFlight t)\<rparr>)"
      using ok c d length_remove1 [of i "inFlight t"]
      by (intro flight_ok_replace) (auto simp: clearSent_def isInFlight_def isUnreachable_def flight_ok_def set_remove1_eq)
    then show ?thesis using Some False c(2) by (simp add: lt_callTimeout_def removeCall_def Let_def flight_update_commute)
  qed
qed

lemma flight_ok_addCandidates:
  assumes ok: "flight_ok t"
  shows "flight_ok (lt_addCandidates selfId isSelf nodes t)"
proof -
  let ?cc = "closestCandidates t"
  have inv: "cc_inv ?cc" using ok by (simp add: flight_ok_def)
  have "flight_ok (t\<lparr>closestCandidates := cc_add ns ?cc\<rparr>)" for ns
  proof -
    obtain D where a: "cc_inv (cc_add ns ?cc)"
      "\<forall>c \<in> set (closest (cc_add ns ?cc)). c \<in> set (closest ?cc) \<or> (\<exists>n \<in> set ns. node_id n \<notin> set (dedup_ids ?cc) \<and> c = mk_candidate n)"
      "\<forall>c \<in> set (closest ?cc). isInFlight c \<longrightarrow> c \<in> set (closest (cc_add ns ?cc))"
      using cc_add_spec [OF inv, of ns] by metis
    have "isInFlight (mk_candidate n) = False" "pinged (mk_candidate n) = 0" for n by (simp_all add: mk_candidate_def isInFlight_def)
    then have "set (inFlight t) = {c_id c | c. c \<in> set (closest (cc_add ns ?cc)) \<and> isInFlight c}"
      "\<forall>c \<in> set (closest (cc_add ns ?cc)). 0 \<le> pinged c \<and> pinged c \<le> 3 \<and> (\<not> isInFlight c \<longrightarrow> pinged c < 3)"
      using ok a(2,3) by (auto simp: flight_ok_def)
    then show ?thesis using ok a(1) by (simp add: flight_ok_def)
  qed
  then show ?thesis using ok by (simp add: lt_addCandidates_def Let_def)
qed

lemma flight_ok_responsed: "flight_ok t \<Longrightarrow> flight_ok (lt_callResponsed now i token (removeCall i t))"
  using flight_ok_removed [of t i]
  by (auto simp: lt_callResponsed_def removeCall_def cc_remove_def flight_ok_def split: option.splits)

lemma flight_ok_error: "flight_ok t \<Longrightarrow> flight_ok (lt_callError i (removeCall i t))"
  using flight_ok_removed [of t i] by (simp add: lt_callError_def removeCall_def)

lemma call_state_frame [simp]:
  "lt_state (removeCall i t) = lt_state t" "notified (removeCall i t) = notified t"
  "lt_state (lt_callError i t) = lt_state t" "notified (lt_callError i t) = notified t"
  "lt_state (lt_callTimeout i t) = lt_state t" "notified (lt_callTimeout i t) = notified t"
  "lt_state (lt_callResponsed now i token t) = lt_state t" "notified (lt_callResponsed now i token t) = notified t"
  "lt_state (lt_addCandidates selfId isSelf nodes t) = lt_state t"
  "notified (lt_addCandidates selfId isSelf nodes t) = notified t"
  "inFlight (lt_addCandidates selfId isSelf nodes t) = inFlight t"
  by (auto simp: removeCall_def lt_callError_def lt_callTimeout_def lt_callResponsed_def lt_addCandidates_def Let_def
      split: option.splits prod.splits)

lemma t_finish_frame [simp]:
  "\<not> isFinished t \<Longrightarrow> lt_state (t_finish now t) = FINISHED" "\<not> isFinished t \<Longrightarrow> notified (t_finish now t) = notified t + 1"
  "isFinished t \<Longrightarrow> t_finish now t = t"
  by (cases "lt_state t"; simp add: t_finish_def setState_def isFinished_def)+

text \<open>What holds between two events of a node lookup.\<close>

definition lookup_inv :: "lookup_task \<Rightarrow> bool" where
  "lookup_inv t \<longleftrightarrow>
     (\<not> isFinished t \<longrightarrow> flight_ok t) \<and> (lt_state t = RUNNING \<longrightarrow> inFlight t \<noteq> []) \<and>
     (lt_state t = INITIAL \<or> lt_state t = QUEUED \<longrightarrow> inFlight t = []) \<and>
     notified t = (if isFinished t then 1 else 0)"

lemma not_stuck:
  assumes "flight_ok t" and "cc_next (closestCandidates t) = None" and "inFlight t = []"
  shows "lt_isDone t"
proof -
  have "closest (closestCandidates t) = []"
  proof (rule ccontr)
    assume "closest (closestCandidates t) \<noteq> []"
    then obtain c where c: "c \<in> set (closest (closestCandidates t))" by (metis list.set_intros(1) neq_Nil_conv)
    have "\<not> isInFlight c" "\<not> isEligible c" using assms c cc_next_spec(2) by (auto simp: flight_ok_def)
    then show False using assms(1) c by (auto simp: flight_ok_def isInFlight_def isEligible_def)
  qed
  then show ?thesis using assms(3) by (simp add: lt_isDone_def)
qed

lemma serializedUpdate_inv:
  assumes "now \<noteq> 0" and "lt_state t = RUNNING \<or> isFinished t" and "\<not> isFinished t \<longrightarrow> flight_ok t"
    and "notified t = (if isFinished t then 1 else 0)"
  shows "lookup_inv (serializedUpdate now t)"
proof (cases "isFinished t")
  case True
  then show ?thesis using assms(4) by (auto simp: serializedUpdate_def lookup_inv_def isFinished_def)
next
  case False
  then have run: "lt_state t = RUNNING" and ok: "flight_ok t" and n: "notified t = 0" using assms by auto
  show ?thesis
  proof (cases "lt_isDone t \<or> \<not> canDoRequest t")
    case True
    then show ?thesis using False run ok n
      by (auto simp: serializedUpdate_def lookup_inv_def isFinished_def canDoRequest_def)
  next
    case do: False
    define u where "u = lt_update now t"
    have u: "flight_ok u" "lt_state u = RUNNING" "notified u = 0" "\<not> canDoRequest u \<or> cc_next (closestCandidates u) = None"
      unfolding u_def using lt_update_ok [OF ok assms(1)] run n by auto
    have "inFlight u \<noteq> []" if "\<not> lt_isDone u" using not_stuck [OF u(1)] that u(4) by (auto simp: canDoRequest_def)
    then show ?thesis using do False u
      by (auto simp: serializedUpdate_def u_def [symmetric] lookup_inv_def isFinished_def Let_def)
  qed
qed

inductive lookup_step :: "id \<Rightarrow> (sockaddr \<Rightarrow> bool) \<Rightarrow> lookup_task \<Rightarrow> lookup_task \<Rightarrow> bool" for selfId isSelf where
  ls_inject: "lt_state t = INITIAL \<Longrightarrow> lookup_step selfId isSelf t (lt_addCandidates selfId isSelf nodes t)"
| ls_queue: "lookup_step selfId isSelf t (snd (setState [INITIAL] QUEUED t))"
| ls_start: "now \<noteq> 0 \<Longrightarrow> lookup_step selfId isSelf t (t_start now (lt_addCandidates selfId isSelf nodes) t)"
| ls_responded: "now \<noteq> 0 \<Longrightarrow> i \<in> set (inFlight t) \<Longrightarrow>
    lookup_step selfId isSelf t (on_responded now (node_callResponsed selfId isSelf cancels now i r) i t)"
| ls_error: "now \<noteq> 0 \<Longrightarrow> i \<in> set (inFlight t) \<Longrightarrow> lookup_step selfId isSelf t (on_error now i t)"
| ls_timeout: "now \<noteq> 0 \<Longrightarrow> i \<in> set (inFlight t) \<Longrightarrow> lookup_step selfId isSelf t (on_timeout now i t)"
| ls_stalled: "now \<noteq> 0 \<Longrightarrow> i \<in> set (inFlight t) \<Longrightarrow> lookup_step selfId isSelf t (on_stalled now t)"
| ls_cancel: "lookup_step selfId isSelf t (t_cancel now t)"

inductive_cases lookup_stepE: "lookup_step selfId isSelf t t'"

lemma lookup_inv_event:
  assumes "lookup_inv t" and "i \<in> set (inFlight t)"
  shows "lt_state t = RUNNING \<or> isFinished t"
  using assms by (cases "lt_state t") (auto simp: lookup_inv_def isFinished_def)

text \<open>What the handling of a response, an error or a timeout may do to the task.\<close>

definition event_ok :: "lookup_task \<Rightarrow> lookup_task \<Rightarrow> bool" where
  "event_ok t t' \<longleftrightarrow> (flight_ok t \<longrightarrow> flight_ok t') \<and>
     (lt_state t' = lt_state t \<and> notified t' = notified t \<or> isFinished t' \<and> \<not> isFinished t \<and> notified t' = notified t + 1)"

lemma on_event_inv:
  assumes inv: "lookup_inv t" and "now \<noteq> 0" and i: "i \<in> set (inFlight t)" and f: "event_ok t (f (removeCall i t))"
  shows "lookup_inv (serializedUpdate now (if \<not> isFinished (removeCall i t) then f (removeCall i t) else removeCall i t))"
proof (rule serializedUpdate_inv [OF assms(2)])
  show "lt_state (if \<not> isFinished (removeCall i t) then f (removeCall i t) else removeCall i t) = RUNNING \<or>
    isFinished (if \<not> isFinished (removeCall i t) then f (removeCall i t) else removeCall i t)"
    using lookup_inv_event [OF inv i] f by (auto simp: isFinished_def event_ok_def)
qed (use inv f in \<open>auto simp: lookup_inv_def isFinished_def event_ok_def\<close>)

lemma event_ok_same: "(flight_ok t \<Longrightarrow> flight_ok t') \<Longrightarrow> lt_state t' = lt_state t \<Longrightarrow> notified t' = notified t \<Longrightarrow> event_ok t t'"
  by (simp add: event_ok_def)

lemma t_cancel_frame:
  "flight_ok (t_cancel now t) = flight_ok t" "isFinished t \<Longrightarrow> t_cancel now t = t" "isFinished (t_cancel now t)"
  "\<not> isFinished t \<Longrightarrow> notified (t_cancel now t) = notified t + 1"
proof -
  show "flight_ok (t_cancel now t) = flight_ok t" by (simp add: flight_ok_def t_cancel_def setState_def)
qed (cases "lt_state t"; simp add: t_cancel_def setState_def isFinished_def)+

lemma event_ok_cancel:
  assumes "event_ok s t"
  shows "event_ok s (t_cancel now t)"
proof (cases "isFinished t")
  case False
  then have "lt_state t = lt_state s" "notified t = notified s" using assms by (auto simp: event_ok_def)
  then show ?thesis using False assms by (simp add: event_ok_def t_cancel_frame isFinished_def [of s, symmetric] isFinished_def [of t])
qed (simp add: t_cancel_frame assms)

lemma event_ok_results: "event_ok s t \<Longrightarrow> event_ok s (node_results cancels now nodes t)"
  unfolding node_results_def by (induction nodes arbitrary: t) (simp_all add: event_ok_cancel)

lemma node_callResponsed_ok: "event_ok t (node_callResponsed selfId isSelf cancels now i r (removeCall i t))"
  using flight_ok_responsed [of t now i "r_token r"] flight_ok_addCandidates
  by (auto simp: node_callResponsed_def Let_def intro!: event_ok_results event_ok_same)

lemma lookup_step_inv:
  assumes "lookup_step selfId isSelf t t'" and "lookup_inv t"
  shows "lookup_inv t'"
  using assms
proof (cases rule: lookup_step.cases)
  case (ls_start now nodes)
  show ?thesis
  proof (cases "lt_state t = INITIAL \<or> lt_state t = QUEUED")
    case True
    then have "flight_ok (t\<lparr>lt_state := RUNNING, startTime := now\<rparr>)" "notified t = 0"
      using assms(2) by (auto simp: lookup_inv_def isFinished_def flight_ok_def)
    then show ?thesis using True ls_start flight_ok_addCandidates
      by (auto simp: t_start_def setState_def isFinished_def intro!: serializedUpdate_inv)
  next
    case False
    then show ?thesis using ls_start assms(2) by (simp add: t_start_def setState_def)
  qed
next
  case (ls_responded now i cancels r)
  then show ?thesis using assms(2)
    by (simp only: on_responded_def Let_def) (rule on_event_inv; simp add: node_callResponsed_ok)
next
  case (ls_error now i)
  then show ?thesis using assms(2)
    by (simp only: on_error_def Let_def) (rule on_event_inv; simp add: flight_ok_error event_ok_same)
next
  case (ls_timeout now i)
  then show ?thesis using assms(2)
    by (simp only: on_timeout_def Let_def) (rule on_event_inv; simp add: flight_ok_timeout event_ok_same)
next
  case (ls_stalled now i)
  then have "t' = serializedUpdate now t" by (simp add: on_stalled_def)
  moreover have "lookup_inv (serializedUpdate now t)"
    using assms(2) lookup_inv_event [OF assms(2) ls_stalled(3)] ls_stalled(2)
    by (intro serializedUpdate_inv) (auto simp: lookup_inv_def)
  ultimately show ?thesis by simp
next
  case (ls_cancel now)
  then show ?thesis using assms(2)
    by (cases "lt_state t") (auto simp: t_cancel_def setState_def lookup_inv_def isFinished_def)
next
  case (ls_inject nodes)
  then show ?thesis using assms(2) flight_ok_addCandidates by (auto simp: lookup_inv_def isFinished_def)
next
  case ls_queue
  then show ?thesis using assms(2) by (auto simp: setState_def lookup_inv_def isFinished_def flight_ok_def)
qed

lemma lookup_init_inv: "lookup_inv (mk_lookup target)"
  by (simp add: lookup_inv_def mk_lookup_def isFinished_def flight_ok_def mk_candidates_def cc_inv_def)

lemma lookup_reachable_inv: "(lookup_step selfId isSelf)\<^sup>*\<^sup>* (mk_lookup target) t \<Longrightarrow> lookup_inv t"
  by (induction rule: rtranclp_induct) (auto intro: lookup_init_inv lookup_step_inv)

section \<open>Progress\<close>

text \<open>
  A weight that every event lowers when it brings no new node: three attempts per candidate, two for
  each attempt left and one for a pending call.
\<close>

definition c_weight :: "candidate_node \<Rightarrow> nat" where
  "c_weight c = nat (7 - 2 * pinged c) + of_bool (isInFlight c)"

definition lookup_weight :: "lookup_task \<Rightarrow> nat" where
  "lookup_weight t = sum_list (map c_weight (closest (closestCandidates t)))"

lemma sum_update_first:
  "x \<in> set xs \<Longrightarrow> P x \<Longrightarrow> (\<And>y. y \<in> set xs \<Longrightarrow> P y \<Longrightarrow> g (f y) < (g y :: nat)) \<Longrightarrow>
     sum_list (map g (update_first P f xs)) < sum_list (map g xs)"
  by (induction xs) auto

lemma sum_remove_first:
  "x \<in> set xs \<Longrightarrow> P x \<Longrightarrow> (\<And>y. y \<in> set xs \<Longrightarrow> 0 < (g y :: nat)) \<Longrightarrow>
     sum_list (map g (remove_first P xs)) < sum_list (map g xs)"
  by (induction xs) auto

lemma find_update_weight:
  assumes "flight_ok t" and "i \<in> set (inFlight t)"
  obtains c where "c \<in> set (closest (closestCandidates t))" "c_id c = i" "isInFlight c" "cc_get i (closestCandidates t) = Some c"
proof -
  obtain c where c: "c \<in> set (closest (closestCandidates t))" "c_id c = i" "isInFlight c"
    using assms by (auto simp: flight_ok_def)
  moreover have d: "distinct (map c_id (closest (closestCandidates t)))" using assms(1) by (simp add: flight_ok_def cc_inv_def)
  moreover have "cc_get i (closestCandidates t) = Some c"
  proof (cases "cc_get i (closestCandidates t)")
    case None
    then show ?thesis using c by (auto simp: cc_get_def find_eq_None)
  next
    case (Some e)
    then have "e \<in> set (closest (closestCandidates t))" "c_id e = i" by (auto simp: cc_get_def dest: find_Some_in)
    then show ?thesis using Some c d by (auto simp: distinct_map inj_on_def)
  qed
  ultimately show ?thesis using that by blast
qed

lemma lt_update_weight:
  assumes "flight_ok t" and "now \<noteq> 0"
  shows "lookup_weight (lt_update now t) \<le> lookup_weight t"
  using assms
proof (induction now t rule: lt_update.induct)
  case (1 now t)
  show ?case
  proof (cases "canDoRequest t")
    case can: True
    show ?thesis
    proof (cases "cc_next (closestCandidates t)")
      case (Some c)
      have sub: "lookup_weight (lt_update now (t_sendCall now c t)) \<le> lookup_weight (t_sendCall now c t)"
        using "1.IH" [OF can Some] t_sendCall_ok [OF "1.prems"(1) can Some "1.prems"(2)] "1.prems"(2) by blast
      have c: "c \<in> set (closest (closestCandidates t))" "isEligible c" using cc_next_spec(1) [OF Some] by auto
      have "lookup_weight (t_sendCall now c t) < lookup_weight t"
        unfolding t_sendCall_def lookup_weight_def using can
      proof (simp, intro sum_update_first [of c])
        fix d assume d: "d \<in> set (closest (closestCandidates t))" "c_id d = c_id c"
        then have "d = c" using "1.prems"(1) c by (auto simp: flight_ok_def cc_inv_def distinct_map inj_on_def)
        then show "c_weight (setSent now d) < c_weight d"
          using c(2) "1.prems"(2) by (auto simp: c_weight_def setSent_def isEligible_def isInFlight_def)
      qed (use c in auto)
      then show ?thesis using sub can Some by (simp add: lt_update.simps [of now t])
    qed (simp add: lt_update.simps [of now t])
  qed (simp add: lt_update.simps [of now t])
qed

lemma lookup_weight_finish [simp]: "lookup_weight (t_finish now t) = lookup_weight t"
  by (simp add: lookup_weight_def t_finish_def setState_def)

lemma serializedUpdate_weight:
  assumes "flight_ok t" and "now \<noteq> 0"
  shows "lookup_weight (serializedUpdate now t) \<le> lookup_weight t"
proof -
  have "flight_ok (t_finish now t)" using assms(1) by (simp add: flight_ok_def t_finish_def setState_def)
  then show ?thesis using lt_update_weight [OF _ assms(2), of t] lt_update_weight [OF _ assms(2), of "t_finish now t"] assms(1)
    by (auto simp: serializedUpdate_def Let_def)
qed

lemma weight_pos: "flight_ok t \<Longrightarrow> c \<in> set (closest (closestCandidates t)) \<Longrightarrow> 0 < c_weight c"
  by (fastforce simp: flight_ok_def c_weight_def)

lemma removed_weight:
  assumes "flight_ok t" and "i \<in> set (inFlight t)"
  shows "lookup_weight (t\<lparr>inFlight := fl, closestCandidates := snd (cc_remove i (closestCandidates t)), closestSet := s\<rparr>) < lookup_weight t"
proof -
  obtain c where "c \<in> set (closest (closestCandidates t))" "c_id c = i" using find_update_weight [OF assms] by metis
  then show ?thesis using weight_pos [OF assms(1)]
    by (auto simp: lookup_weight_def cc_remove_def intro!: sum_remove_first)
qed

lemma timeout_weight:
  assumes ok: "flight_ok t" and i: "i \<in> set (inFlight t)"
  shows "lookup_weight (lt_callTimeout i (removeCall i t)) < lookup_weight t"
proof -
  obtain c where c: "c \<in> set (closest (closestCandidates t))" "c_id c = i" "isInFlight c" "cc_get i (closestCandidates t) = Some c"
    using find_update_weight [OF assms] by metis
  show ?thesis
  proof (cases "isUnreachable c")
    case True
    then show ?thesis using removed_weight [OF assms, where fl = "remove1 i (inFlight t)" and s = "closestSet t"] c(4)
      by (simp add: lt_callTimeout_def removeCall_def Let_def lookup_weight_def)
  next
    case False
    have "sum_list (map c_weight (update_first (\<lambda>d. c_id d = i) clearSent (closest (closestCandidates t)))) <
      sum_list (map c_weight (closest (closestCandidates t)))"
    proof (rule sum_update_first [of c])
      fix d assume d: "d \<in> set (closest (closestCandidates t))" "c_id d = i"
      then have "d = c" using ok c by (auto simp: flight_ok_def cc_inv_def distinct_map inj_on_def)
      then show "c_weight (clearSent d) < c_weight d"
        using c(3) by (auto simp: c_weight_def clearSent_def isInFlight_def)
    qed (use c in auto)
    then show ?thesis using False c(4) by (simp add: lt_callTimeout_def removeCall_def Let_def lookup_weight_def)
  qed
qed

section \<open>Correctness\<close>

text \<open>
  C7: whatever events reach a node lookup, in any order, a running lookup has a pending call (so it never waits for
  nothing), it has at most ten of them, no candidate is asked more than three times, every pending call is one of a
  candidate marked as in flight, and the completion listeners are called exactly once, when it finishes or is canceled.
\<close>

theorem lookup_never_stuck:
  assumes "(lookup_step selfId isSelf)\<^sup>*\<^sup>* (mk_lookup target) t"
  shows "(lt_state t = RUNNING \<longrightarrow> inFlight t \<noteq> []) \<and> notified t = (if isFinished t then 1 else 0) \<and>
    (\<not> isFinished t \<longrightarrow> length (inFlight t) \<le> MAX_CONCURRENT_TASK_REQUESTS \<and>
       (\<forall>c \<in> set (closest (closestCandidates t)). pinged c \<le> 3) \<and>
       set (inFlight t) = {c_id c | c. c \<in> set (closest (closestCandidates t)) \<and> isInFlight c})"
  using lookup_reachable_inv [OF assms] by (auto simp: lookup_inv_def flight_ok_def)

theorem lookup_never_stuck_witness:
  "\<exists>t. lookup_step zero_id (\<lambda>_. False) (mk_lookup MAX_ID) t \<and> t = t_start 1 (lt_addCandidates zero_id (\<lambda>_. False) []) (mk_lookup MAX_ID) \<and>
    (lt_state t = RUNNING \<longrightarrow> inFlight t \<noteq> []) \<and> notified t = (if isFinished t then 1 else 0)"
proof -
  have "lookup_step zero_id (\<lambda>_. False) (mk_lookup MAX_ID) (t_start 1 (lt_addCandidates zero_id (\<lambda>_. False) []) (mk_lookup MAX_ID))"
    by (rule ls_start) simp
  then show ?thesis using lookup_never_stuck [OF r_into_rtranclp] by blast
qed

text \<open>
  C8: a node lookup makes progress: the end of any pending call, by a response that lists no further nodes, an error or
  a timeout, lowers the weight of the task, which bounds the number of calls it can still make.
\<close>

theorem lookup_progress:
  assumes inv: "(lookup_step selfId isSelf)\<^sup>*\<^sup>* (mk_lookup target) t" and run: "lt_state t = RUNNING"
    and i: "i \<in> set (inFlight t)" and now: "now \<noteq> 0" and none: "r_nodes r = []"
  shows "lookup_weight (on_responded now (node_callResponsed selfId isSelf cancels now i r) i t) < lookup_weight t \<and>
    lookup_weight (on_error now i t) < lookup_weight t \<and> lookup_weight (on_timeout now i t) < lookup_weight t"
proof -
  have ok: "flight_ok t" and nf: "\<not> isFinished (removeCall i t)"
    using lookup_reachable_inv [OF inv] run by (auto simp: lookup_inv_def isFinished_def)
  have resp: "lookup_weight (node_callResponsed selfId isSelf cancels now i r (removeCall i t)) < lookup_weight t"
    using removed_weight [OF ok i] none
    by (auto simp: node_callResponsed_def node_results_def lt_callResponsed_def removeCall_def Let_def cc_remove_def
        lookup_weight_def split: option.splits)
  have resp_ok: "flight_ok (node_callResponsed selfId isSelf cancels now i r (removeCall i t))"
    using node_callResponsed_ok ok by (auto simp: event_ok_def)
  have err: "lookup_weight (lt_callError i (removeCall i t)) < lookup_weight t"
    using removed_weight [OF ok i] by (simp add: lt_callError_def removeCall_def lookup_weight_def)
  have step: "lookup_weight (serializedUpdate now t') < lookup_weight t" if "flight_ok t'" "lookup_weight t' < lookup_weight t" for t'
    using serializedUpdate_weight [OF that(1) now] that(2) by (rule le_less_trans)
  show ?thesis
    using nf step [OF resp_ok resp] step [OF flight_ok_error [OF ok] err]
      step [OF flight_ok_timeout [OF ok] timeout_weight [OF ok i]]
    by (simp add: on_responded_def on_error_def on_timeout_def Let_def)
qed

text \<open>The start of a lookup with one node.\<close>

definition one_node :: "node list" where
  "one_node = [PlainNode \<lparr>n_id = MAX_ID, n_addr = Inet 0x08080808 53, n_version = 0\<rparr>]"

definition one_call :: lookup_task where
  "one_call = t_start 1 (lt_addCandidates zero_id (\<lambda>_. False) one_node) (mk_lookup MAX_ID)"

lemma one_node_public: "isBogon (Inet 0x08080808 53) = Some False"
  by code_simp

lemmas lookup_eval = t_start_def setState_def mk_lookup_def lt_addCandidates_def one_node_public cs_contains_def mk_closest_set_def
  mk_candidates_def cc_add_def sort_by_def addr_seen_def serializedUpdate_def lt_isDone_def isFinished_def canDoRequest_def
  cs_isEligible_def cs_reachedCapacity_def cc_next_def isEligible_def t_sendCall_def lt_update.simps isInFlight_def
  mk_candidate_def setSent_def

lemma one_call_state:
  "lt_state one_call = RUNNING" "inFlight one_call = [MAX_ID]" "map pinged (closest (closestCandidates one_call)) = [1]"
  "cs_map (closestSet one_call) = []" "map c_id (closest (closestCandidates one_call)) = [MAX_ID]"
  "cs_capacity (closestSet one_call) = 8"
  by (simp_all add: one_call_def one_node_def lookup_eval Let_def)

lemma one_call_reachable: "(lookup_step zero_id (\<lambda>_. False))\<^sup>*\<^sup>* (mk_lookup MAX_ID) one_call"
  unfolding one_call_def by (rule r_into_rtranclp, rule ls_start) simp

theorem lookup_progress_witness:
  "lookup_weight (on_responded 2 (node_callResponsed zero_id (\<lambda>_. False) True 2 MAX_ID \<lparr>r_matches = True, r_token = 0, r_nodes = [], r_result = False, r_accepted = False\<rparr>)
      MAX_ID one_call) < lookup_weight one_call \<and>
    lookup_weight (on_error 2 MAX_ID one_call) < lookup_weight one_call \<and> lookup_weight (on_timeout 2 MAX_ID one_call) < lookup_weight one_call"
  by (rule lookup_progress [OF one_call_reachable]) (simp_all add: one_call_state)

text \<open>
  A value or peer lookup can get stuck: a response that does not come from the node that was asked (or has another type
  or method) ends its call, but the candidate stays marked as in flight; if it was the last pending call and no other
  candidate can be asked, the task stays in the running state with no pending call, and no event of a call can come any more.
\<close>

theorem value_lookup_stuck:
  assumes "lt_state t = RUNNING" and "inFlight t = [i]" and "closest (closestCandidates t) \<noteq> []"
    and "cc_next (closestCandidates t) = None" and "\<not> cs_reachedCapacity (closestSet t)" and "\<not> r_matches r"
  shows "on_responded now (value_callResponsed selfId isSelf cancels now i r) i t = t\<lparr>inFlight := []\<rparr> \<and>
    serializedUpdate later (t\<lparr>inFlight := []\<rparr>) = t\<lparr>inFlight := []\<rparr>"
  using assms
  by (simp add: on_responded_def value_callResponsed_def removeCall_def serializedUpdate_def lt_isDone_def cs_isEligible_def
      isFinished_def lt_update.simps Let_def)

theorem value_lookup_stuck_witness:
  "on_responded 2 (value_callResponsed zero_id (\<lambda>_. False) True 2 MAX_ID \<lparr>r_matches = False, r_token = 0, r_nodes = [], r_result = False, r_accepted = False\<rparr>) MAX_ID one_call
     = one_call\<lparr>inFlight := []\<rparr> \<and>
   serializedUpdate 3 (one_call\<lparr>inFlight := []\<rparr>) = one_call\<lparr>inFlight := []\<rparr>"
proof (rule value_lookup_stuck)
  show "cc_next (closestCandidates one_call) = None"
    by (simp add: one_call_def one_node_def lookup_eval Let_def)
qed (use one_call_state in \<open>auto simp: cs_reachedCapacity_def\<close>)

end
