(* ===== verification/Values.thy ===== *)
theory Values
  imports Ids Socket_Address
begin

text \<open>
  Stored values, \<^verbatim>\<open>src/core/value.cc\<close>, and announced peers, \<^verbatim>\<open>src/core/peer_info.cc\<close>. The cryptographic
  primitives and the Unicode normalisation come from libraries and are fields of a record of operations; a
  signature key pair is given by its private key. A constructor that throws is \<open>Inl\<close> with the message.
  The signed bytes hold the sequence number in the byte order of the host, little endian here.
\<close>

record crypto =
  c_sha256 :: "u8 list \<Rightarrow> u8 list"
  c_public :: "u8 list \<Rightarrow> id" \<comment> \<open>public key of a private key\<close>
  c_sign :: "u8 list \<Rightarrow> u8 list \<Rightarrow> u8 list" \<comment> \<open>data, private key\<close>
  c_verify :: "u8 list \<Rightarrow> u8 list \<Rightarrow> id \<Rightarrow> bool" \<comment> \<open>data, signature, public key\<close>
  c_encrypt :: "u8 list \<Rightarrow> u8 list \<Rightarrow> id \<Rightarrow> u8 list \<Rightarrow> u8 list" \<comment> \<open>data, nonce, recipient, private key\<close>
  c_decrypt :: "u8 list \<Rightarrow> u8 list \<Rightarrow> id \<Rightarrow> u8 list \<Rightarrow> u8 list" \<comment> \<open>data, nonce, sender, private key\<close>
  c_nfc :: "string \<Rightarrow> string"

definition NONCE_BYTES :: nat where [simp]: "NONCE_BYTES = 24"
definition SIGNATURE_BYTES :: nat where [simp]: "SIGNATURE_BYTES = 64"
definition PRIVATE_KEY_BYTES :: nat where [simp]: "PRIVATE_KEY_BYTES = 64"

text \<open>What the code relies on: documented behaviour of the library calls.\<close>

definition sign_ok :: "crypto \<Rightarrow> bool" where
  "sign_ok C \<longleftrightarrow> (\<forall>d sk. c_verify C d (c_sign C d sk) (c_public C sk) \<and> length (c_sign C d sk) = SIGNATURE_BYTES)"

definition box_ok :: "crypto \<Rightarrow> bool" where
  "box_ok C \<longleftrightarrow>
     (\<forall>d n sk sk'. c_decrypt C (c_encrypt C d n (c_public C sk') sk) n (c_public C sk) sk' = d) \<and>
     (\<forall>d n r sk. length (c_encrypt C d n r sk) = length d + 16)"

section \<open>Values\<close>

record value_record =
  v_publicKey :: "id option"
  v_recipient :: "id option"
  v_privateKey :: "u8 list option"
  v_nonce :: "u8 list option"
  v_signature :: "u8 list option"
  v_data :: "u8 list"
  v_sequenceNumber :: int

definition isEncrypted :: "value_record \<Rightarrow> bool" where
  "isEncrypted v \<longleftrightarrow> v_recipient v \<noteq> None"

definition isSigned :: "value_record \<Rightarrow> bool" where
  "isSigned v \<longleftrightarrow> v_signature v \<noteq> None"

definition isMutable :: "value_record \<Rightarrow> bool" where
  "isMutable v \<longleftrightarrow> v_publicKey v \<noteq> None"

definition opt_bytes :: "u8 list \<Rightarrow> u8 list option" where
  "opt_bytes b = (if b = [] then None else Some b)"

text \<open>\<^verbatim>\<open>Id(const Blob&)\<close> with its exception.\<close>

definition id_or_throw :: "u8 list \<Rightarrow> string + id" where
  "id_or_throw b = (case id_of_blob b of None \<Rightarrow> Inl ''The binary id should be 32 bytes long.'' | Some i \<Rightarrow> Inr i)"

definition value_of :: "u8 list \<Rightarrow> u8 list \<Rightarrow> u8 list \<Rightarrow> u8 list \<Rightarrow> int \<Rightarrow> u8 list \<Rightarrow> u8 list \<Rightarrow> string + value_record" where
  "value_of publicKey privateKey recipient nonce sequenceNumber signature data =
     (let plain = \<lparr>v_publicKey = None, v_recipient = None, v_privateKey = None, v_nonce = None, v_signature = None,
                   v_data = data, v_sequenceNumber = 0\<rparr>
      in if publicKey \<noteq> [] then
           if privateKey \<noteq> [] \<and> length privateKey \<noteq> PRIVATE_KEY_BYTES then Inl ''Invalid private key''
           else if length nonce \<noteq> NONCE_BYTES then Inl ''Invalid nonce''
           else if sequenceNumber < 0 then Inl ''Invalid sequence number''
           else if length signature \<noteq> SIGNATURE_BYTES then Inl ''Invalid signature''
           else (case id_or_throw publicKey of
                   Inl e \<Rightarrow> Inl e
                 | Inr pk \<Rightarrow>
                     (case if recipient = [] then Inr None else map_sum id Some (id_or_throw recipient) of
                        Inl e \<Rightarrow> Inl e
                      | Inr rcpt \<Rightarrow>
                          if data = [] then Inl ''Invalid data''
                          else Inr (plain\<lparr>v_publicKey := Some pk, v_privateKey := opt_bytes privateKey, v_recipient := rcpt,
                                      v_nonce := Some nonce, v_signature := Some signature,
                                      v_sequenceNumber := sequenceNumber\<rparr>)))
         else if data = [] then Inl ''Invalid data''
         else Inr plain)"

text \<open>\<^verbatim>\<open>Value::calculateId\<close>; the nonce of a mutable value is always present.\<close>

definition calculateId :: "crypto \<Rightarrow> id option \<Rightarrow> u8 list option \<Rightarrow> u8 list \<Rightarrow> id option" where
  "calculateId C publicKey nonce data =
     id_of_blob (c_sha256 C (case publicKey of Some pk \<Rightarrow> bytes pk @ the nonce | None \<Rightarrow> data))"

definition v_getId :: "crypto \<Rightarrow> value_record \<Rightarrow> id option" where
  "v_getId C v = calculateId C (v_publicKey v) (v_nonce v) (v_data v)"

definition le32 :: "int \<Rightarrow> u8 list" where
  "le32 n = rev (be_bytes 4 (word_of_int n :: u32))"

definition v_getSignData :: "value_record \<Rightarrow> u8 list" where
  "v_getSignData v =
     (case v_recipient v of Some r \<Rightarrow> bytes r | None \<Rightarrow> []) @ the (v_nonce v) @ le32 (v_sequenceNumber v) @ v_data v"

definition v_isValid :: "crypto \<Rightarrow> value_record \<Rightarrow> bool" where
  "v_isValid C v =
     (if v_data v = [] then False
      else case v_publicKey v of
             Some pk \<Rightarrow> c_verify C (v_getSignData v) (the (v_signature v)) pk
           | None \<Rightarrow> True)"

text \<open>The constructor that signs, and encrypts when there is a recipient.\<close>

definition value_signed :: "crypto \<Rightarrow> u8 list \<Rightarrow> id option \<Rightarrow> u8 list \<Rightarrow> int \<Rightarrow> u8 list \<Rightarrow> string + value_record" where
  "value_signed C sk recipient nonce sequenceNumber data =
     (if sequenceNumber < 0 then Inl ''Invalid sequence number''
      else if data = [] then Inl ''Invalid data''
      else let v = \<lparr>v_publicKey = Some (c_public C sk), v_recipient = recipient, v_privateKey = Some sk,
                    v_nonce = Some nonce, v_signature = None,
                    v_data = (case recipient of Some r \<Rightarrow> c_encrypt C data nonce r sk | None \<Rightarrow> data),
                    v_sequenceNumber = sequenceNumber\<rparr>
           in Inr (v\<lparr>v_signature := Some (c_sign C (v_getSignData v) sk)\<rparr>))"

definition createValue :: "u8 list \<Rightarrow> string + value_record" where
  "createValue data = value_of [] [] [] [] (-1) [] data"

definition createSignedValue :: "crypto \<Rightarrow> u8 list \<Rightarrow> u8 list \<Rightarrow> int \<Rightarrow> u8 list \<Rightarrow> string + value_record" where
  "createSignedValue C sk nonce sequenceNumber data = value_signed C sk None nonce sequenceNumber data"

definition createEncryptedValue :: "crypto \<Rightarrow> u8 list \<Rightarrow> id \<Rightarrow> u8 list \<Rightarrow> int \<Rightarrow> u8 list \<Rightarrow> string + value_record" where
  "createEncryptedValue C sk recipient nonce sequenceNumber data = value_signed C sk (Some recipient) nonce sequenceNumber data"

definition v_decryptData :: "crypto \<Rightarrow> u8 list \<Rightarrow> value_record \<Rightarrow> u8 list" where
  "v_decryptData C recipientSk v =
     (if \<not> v_isValid C v then []
      else case (v_recipient v, v_publicKey v, v_nonce v) of
             (Some r, Some pk, Some n) \<Rightarrow> c_decrypt C (v_data v) n pk recipientSk
           | _ \<Rightarrow> [])"

definition v_update :: "crypto \<Rightarrow> u8 list \<Rightarrow> value_record \<Rightarrow> string + value_record" where
  "v_update C data v =
     (if \<not> isMutable v then Inl ''Immutable value''
      else case v_privateKey v of
             None \<Rightarrow> Inl ''Not the owner of the value''
           | Some sk \<Rightarrow> value_signed C sk (v_recipient v) (the (v_nonce v)) (v_sequenceNumber v + 1) data)"

definition v_eq :: "value_record \<Rightarrow> value_record \<Rightarrow> bool" where
  "v_eq a b \<longleftrightarrow> v_publicKey a = v_publicKey b \<and> v_recipient a = v_recipient b \<and> v_signature a = v_signature b \<and>
     v_nonce a = v_nonce b \<and> v_data a = v_data b \<and> v_sequenceNumber a = v_sequenceNumber b"

section \<open>Peers\<close>

record peer_info =
  p_publicKey :: id
  p_privateKey :: "u8 list option"
  p_nodeId :: id
  p_origin :: id
  p_port :: u16
  p_alternativeURL :: "string option"
  p_signature :: "u8 list"

definition isDelegated :: "peer_info \<Rightarrow> bool" where
  "isDelegated p \<longleftrightarrow> p_nodeId p \<noteq> p_origin p"

definition peer_of :: "crypto \<Rightarrow> u8 list \<Rightarrow> u8 list \<Rightarrow> u8 list \<Rightarrow> u8 list \<Rightarrow> u16 \<Rightarrow> string \<Rightarrow> u8 list \<Rightarrow> string + peer_info" where
  "peer_of C peerId privateKey nodeId origin port alternativeURL signature =
     (if length peerId \<noteq> ID_BYTES then Inl ''Invalid peer Id''
      else if privateKey \<noteq> [] \<and> length privateKey \<noteq> PRIVATE_KEY_BYTES then Inl ''Invalid private key''
      else if length nodeId \<noteq> ID_BYTES then Inl ''Invalid node id''
      else if origin \<noteq> [] \<and> length origin \<noteq> ID_BYTES then Inl ''Invalid origin id''
      else if port = 0 then Inl ''Invalid port''
      else if length signature \<noteq> SIGNATURE_BYTES then Inl ''Invalid signature''
      else Inr \<lparr>p_publicKey = the (id_of_blob peerId), p_privateKey = opt_bytes privateKey,
                p_nodeId = the (id_of_blob nodeId),
                p_origin = the (id_of_blob (if origin = [] then nodeId else origin)), p_port = port,
                p_alternativeURL = (if alternativeURL \<noteq> [] then Some (c_nfc C alternativeURL) else None),
                p_signature = signature\<rparr>)"

definition string_bytes :: "string \<Rightarrow> u8 list" where
  "string_bytes s = map (\<lambda>c. of_char c) s"

definition p_getSignData :: "peer_info \<Rightarrow> u8 list" where
  "p_getSignData p = bytes (p_nodeId p) @ bytes (p_origin p) @ be_bytes 2 (p_port p) @
     (case p_alternativeURL p of Some s \<Rightarrow> string_bytes s | None \<Rightarrow> [])"

definition peer_create :: "crypto \<Rightarrow> u8 list \<Rightarrow> id \<Rightarrow> id \<Rightarrow> u16 \<Rightarrow> string \<Rightarrow> string + peer_info" where
  "peer_create C sk nodeId origin port alternativeURL =
     (if port = 0 then Inl ''Invalid port''
      else let p = \<lparr>p_publicKey = c_public C sk, p_privateKey = Some sk, p_nodeId = nodeId,
                    p_origin = (if origin = zero_id then nodeId else origin), p_port = port,
                    p_alternativeURL = (if alternativeURL \<noteq> [] then Some (c_nfc C alternativeURL) else None),
                    p_signature = []\<rparr>
           in Inr (p\<lparr>p_signature := c_sign C (p_getSignData p) sk\<rparr>))"

definition p_isValid :: "crypto \<Rightarrow> peer_info \<Rightarrow> bool" where
  "p_isValid C p =
     (if length (p_signature p) \<noteq> SIGNATURE_BYTES then False
      else c_verify C (p_getSignData p) (p_signature p) (p_publicKey p))"

definition p_eq :: "peer_info \<Rightarrow> peer_info \<Rightarrow> bool" where
  "p_eq a b \<longleftrightarrow> p_publicKey a = p_publicKey b \<and> p_signature a = p_signature b"

definition p_less :: "peer_info \<Rightarrow> peer_info \<Rightarrow> bool" where
  "p_less a b =
     (let rc = compareTo (p_publicKey a) (p_publicKey b) in
      if rc \<noteq> 0 then rc < 0
      else let rc = compareTo (p_nodeId a) (p_nodeId b) in
           if rc \<noteq> 0 then rc < 0 else compareTo (p_origin a) (p_origin b) < 0)"

section \<open>Properties\<close>

lemma bytes_not_empty [simp]: "bytes i \<noteq> []"
proof
  assume "bytes i = []"
  then show False using length_bytes [of i] by (simp del: length_bytes)
qed

lemma id_of_blob_bytes [simp]: "id_of_blob (bytes i) = Some i"
  by (simp add: id_of_blob_def bytes_inverse)

lemma id_or_throw_bytes [simp]: "id_or_throw (bytes i) = Inr i"
  by (simp add: id_or_throw_def)

text \<open>The shape of a value without its private key.\<close>

definition wf_value :: "value_record \<Rightarrow> bool" where
  "wf_value v \<longleftrightarrow> v_data v \<noteq> [] \<and> v_privateKey v = None \<and>
     (case v_publicKey v of
        None \<Rightarrow> v_recipient v = None \<and> v_nonce v = None \<and> v_signature v = None \<and> v_sequenceNumber v = 0
      | Some pk \<Rightarrow> (\<exists>n s. v_nonce v = Some n \<and> length n = NONCE_BYTES \<and> v_signature v = Some s \<and> length s = SIGNATURE_BYTES) \<and>
                   0 \<le> v_sequenceNumber v)"

definition blob_of :: "id option \<Rightarrow> u8 list" where
  "blob_of i = (case i of None \<Rightarrow> [] | Some i \<Rightarrow> bytes i)"

definition bytes_of :: "u8 list option \<Rightarrow> u8 list" where
  "bytes_of b = (case b of None \<Rightarrow> [] | Some b \<Rightarrow> b)"

lemma value_of_fields:
  assumes "wf_value v"
  shows "value_of (blob_of (v_publicKey v)) [] (blob_of (v_recipient v)) (bytes_of (v_nonce v)) (v_sequenceNumber v)
    (bytes_of (v_signature v)) (v_data v) = Inr v"
  using assms
  by (cases v; cases "v_publicKey v"; cases "v_recipient v")
    (auto simp: wf_value_def value_of_def blob_of_def bytes_of_def opt_bytes_def Let_def)

lemma value_of_wf: "value_of pk [] r n seq s d = Inr v \<Longrightarrow> wf_value v"
  by (auto simp: value_of_def wf_value_def Let_def opt_bytes_def split: if_splits sum.splits)

lemma value_signed_cases:
  assumes "value_signed C sk recipient nonce seq data = Inr v"
  shows "0 \<le> seq" and "data \<noteq> []" and "v_publicKey v = Some (c_public C sk)" and "v_recipient v = recipient"
    and "v_privateKey v = Some sk" and "v_nonce v = Some nonce" and "v_sequenceNumber v = seq"
    and "v_data v = (case recipient of Some r \<Rightarrow> c_encrypt C data nonce r sk | None \<Rightarrow> data)"
    and "v_signature v = Some (c_sign C (v_getSignData v) sk)"
  using assms by (auto simp: value_signed_def v_getSignData_def Let_def split: if_splits)

lemma value_signed_valid:
  assumes "value_signed C sk recipient nonce seq data = Inr v" and "sign_ok C" and "box_ok C"
  shows "v_isValid C v"
proof -
  note v = value_signed_cases [OF assms(1)]
  have "length (c_encrypt C data nonce r sk) = length data + 16" for r using assms(3) by (simp add: box_ok_def)
  then have "v_data v \<noteq> []" using v(2,8) by (auto split: option.splits) (metis add_is_0 list.size(3) zero_neq_numeral)
  then show ?thesis using v(3,9) assms(2) by (simp add: v_isValid_def sign_ok_def)
qed

lemma v_getId_mutable:
  assumes "v_publicKey v = v_publicKey w" and "v_nonce v = v_nonce w" and "v_publicKey v \<noteq> None"
  shows "v_getId C v = v_getId C w"
  using assms by (auto simp: v_getId_def calculateId_def)

lemma v_update_spec:
  assumes "v_update C data v = Inr w"
  obtains sk where "v_privateKey v = Some sk" "v_publicKey v \<noteq> None" "v_sequenceNumber w = v_sequenceNumber v + 1"
    "v_publicKey w = Some (c_public C sk)" "v_nonce w = Some (the (v_nonce v))" "v_recipient w = v_recipient v"
    "value_signed C sk (v_recipient v) (the (v_nonce v)) (v_sequenceNumber v + 1) data = Inr w"
proof -
  obtain sk where sk: "v_privateKey v = Some sk" "v_publicKey v \<noteq> None"
    "value_signed C sk (v_recipient v) (the (v_nonce v)) (v_sequenceNumber v + 1) data = Inr w"
    using assms by (auto simp: v_update_def isMutable_def split: if_splits option.splits)
  show thesis by (rule that [OF sk(1,2) _ _ _ _ sk(3)]) (use value_signed_cases [OF sk(3)] in simp_all)
qed

lemma peer_create_valid:
  "peer_create C sk nodeId origin port alt = Inr p \<Longrightarrow> sign_ok C \<Longrightarrow> p_isValid C p"
  by (auto simp: peer_create_def p_isValid_def sign_ok_def p_getSignData_def Let_def split: if_splits)

text \<open>A peer as it is after \<open>peer_of\<close>.\<close>

definition wf_peer :: "crypto \<Rightarrow> peer_info \<Rightarrow> bool" where
  "wf_peer C p \<longleftrightarrow> p_privateKey p = None \<and> p_port p \<noteq> 0 \<and> length (p_signature p) = SIGNATURE_BYTES \<and>
     (case p_alternativeURL p of None \<Rightarrow> True | Some u \<Rightarrow> u \<noteq> [] \<and> c_nfc C u = u)"

definition url_of :: "string option \<Rightarrow> string" where
  "url_of u = (case u of None \<Rightarrow> [] | Some s \<Rightarrow> s)"

lemma peer_of_fields:
  assumes "wf_peer C p"
  shows "peer_of C (bytes (p_publicKey p)) [] (bytes (p_nodeId p)) (bytes (p_origin p)) (p_port p) (url_of (p_alternativeURL p)) (p_signature p) = Inr p"
    and "\<not> isDelegated p \<Longrightarrow>
      peer_of C (bytes (p_publicKey p)) [] (bytes (p_nodeId p)) [] (p_port p) (url_of (p_alternativeURL p)) (p_signature p) = Inr p"
  using assms
  by (auto simp: wf_peer_def peer_of_def opt_bytes_def url_of_def isDelegated_def split: option.splits intro!: peer_info.equality)

section \<open>Correctness\<close>

text \<open>An instance of the primitives that satisfies what the code relies on.\<close>

definition plain_crypto :: crypto where
  "plain_crypto =
     \<lparr>c_sha256 = (\<lambda>_. replicate 32 7), c_public = (\<lambda>_. zero_id), c_sign = (\<lambda>_ _. replicate 64 1), c_verify = (\<lambda>_ _ _. True),
      c_encrypt = (\<lambda>d n r sk. d @ replicate 16 0), c_decrypt = (\<lambda>d n s sk. take (length d - 16) d), c_nfc = (\<lambda>s. s)\<rparr>"

lemma plain_crypto_ok: "sign_ok plain_crypto" "box_ok plain_crypto"
  by (simp_all add: sign_ok_def box_ok_def plain_crypto_def)

text \<open>
  A value made by \<^verbatim>\<open>createEncryptedValue\<close> is encrypted, signed and valid, and \<^verbatim>\<open>decryptData\<close> with the private key of the
  recipient gives the data back.
\<close>

theorem encrypted_value_round_trip:
  assumes "sign_ok C" and "box_ok C" and "createEncryptedValue C sk (c_public C sk') nonce seq data = Inr v"
  shows "isEncrypted v \<and> isSigned v \<and> v_isValid C v \<and> v_decryptData C sk' v = data"
proof -
  note v = assms(3) [unfolded createEncryptedValue_def]
  have "v_isValid C v" by (rule value_signed_valid [OF v assms(1,2)])
  then show ?thesis using value_signed_cases [OF v] assms(2)
    by (simp add: isEncrypted_def isSigned_def v_decryptData_def box_ok_def)
qed

theorem encrypted_value_round_trip_witness:
  "\<exists>v. createEncryptedValue plain_crypto [1] (c_public plain_crypto [2]) (replicate 24 3) 0 [4, 5] = Inr v \<and>
     isEncrypted v \<and> isSigned v \<and> v_isValid plain_crypto v \<and> v_decryptData plain_crypto [2] v = [4, 5]"
proof -
  obtain v where v: "createEncryptedValue plain_crypto [1] (c_public plain_crypto [2]) (replicate 24 3) 0 [4, 5] = Inr v"
    by (simp add: createEncryptedValue_def value_signed_def Let_def)
  show ?thesis using encrypted_value_round_trip [OF plain_crypto_ok v] v by blast
qed

text \<open>
  \<^verbatim>\<open>Value::update\<close> fails exactly for an immutable value, for a value whose private key is not known, for empty data and
  for a negative next sequence number; an update of a value made by its owner is valid, keeps its identifier and raises
  its sequence number by one.
\<close>

theorem value_update:
  assumes "sign_ok C" and "box_ok C" and "value_signed C sk recipient nonce seq data = Inr v"
  shows "((\<exists>e. v_update C data' u = Inl e) = (\<not> isMutable u \<or> v_privateKey u = None \<or> data' = [] \<or> v_sequenceNumber u < -1)) \<and>
    (v_update C data' v = Inr w \<longrightarrow> v_isValid C w \<and> v_getId C w = v_getId C v \<and> v_sequenceNumber w = v_sequenceNumber v + 1)"
proof (intro conjI impI)
  show "(\<exists>e. v_update C data' u = Inl e) = (\<not> isMutable u \<or> v_privateKey u = None \<or> data' = [] \<or> v_sequenceNumber u < -1)"
    by (auto simp: v_update_def value_signed_def Let_def split: option.splits)
  assume w: "v_update C data' v = Inr w"
  note v = value_signed_cases [OF assms(3)]
  obtain sk1 where sk1: "v_privateKey v = Some sk1" "v_sequenceNumber w = v_sequenceNumber v + 1"
    "v_publicKey w = Some (c_public C sk1)" "v_nonce w = Some (the (v_nonce v))"
    "value_signed C sk1 (v_recipient v) (the (v_nonce v)) (v_sequenceNumber v + 1) data' = Inr w"
    using v_update_spec [OF w] by metis
  show "v_isValid C w" by (rule value_signed_valid [OF sk1(5) assms(1,2)])
  show "v_sequenceNumber w = v_sequenceNumber v + 1" by (rule sk1(2))
  show "v_getId C w = v_getId C v" using sk1 v by (intro v_getId_mutable) auto
qed

theorem value_update_witness:
  "\<exists>v w. value_signed plain_crypto [1] None (replicate 24 3) 0 [4] = Inr v \<and> v_update plain_crypto [5] v = Inr w \<and>
     v_isValid plain_crypto w \<and> v_getId plain_crypto w = v_getId plain_crypto v \<and> v_sequenceNumber w = v_sequenceNumber v + 1"
proof -
  obtain v where v: "value_signed plain_crypto [1] None (replicate 24 3) 0 [4] = Inr v" by (simp add: value_signed_def Let_def)
  obtain w where w: "v_update plain_crypto [5] v = Inr w"
    using value_signed_cases [OF v] by (simp add: v_update_def isMutable_def value_signed_def Let_def)
  show ?thesis using value_update [OF plain_crypto_ok v, of "[5]" v w] v w by blast
qed

text \<open>
  Every value built from the fields of a message is well formed: a mutable one has a 24-byte nonce, a 64-byte signature
  and a sequence number that is not negative, an immutable one has none of them, and the data is never empty; and a
  well-formed value is built from its own fields.
\<close>

theorem value_of_exact:
  "(value_of pk [] r n seq s d = Inr v \<longrightarrow> wf_value v) \<and>
   (wf_value u \<longrightarrow> value_of (blob_of (v_publicKey u)) [] (blob_of (v_recipient u)) (bytes_of (v_nonce u)) (v_sequenceNumber u)
      (bytes_of (v_signature u)) (v_data u) = Inr u)"
  using value_of_wf value_of_fields by blast

theorem value_of_exact_witness:
  "\<exists>v. value_of [] [] [] [] (-1) [] [9] = Inr v \<and> wf_value v \<and>
     value_of (blob_of (v_publicKey v)) [] (blob_of (v_recipient v)) (bytes_of (v_nonce v)) (v_sequenceNumber v)
       (bytes_of (v_signature v)) (v_data v) = Inr v"
proof -
  obtain v where "value_of [] [] [] [] (-1) [] [9] = Inr v" by (simp add: value_of_def Let_def)
  then show ?thesis using value_of_exact [of "[]" "[]" "[]" "-1" "[]" "[9]" v v] by blast
qed

end
