(* ===== verification/Storage.thy ===== *)
theory Storage
  imports Values Constants "HOL-Library.Multiset"
begin

text \<open>
  The store for values and peers, \<^verbatim>\<open>src/core/sqlite_storage.cc\<close>, behind the interface \<^verbatim>\<open>src/core/data_storage.h\<close>.
  The two tables of the database are association lists from the primary key to the other columns, and each SQL
  statement of the code is an operation on them; \<open>NULL\<close> is \<open>None\<close>. The order of the rows has no meaning: a
  \<^verbatim>\<open>SELECT\<close> without \<^verbatim>\<open>ORDER BY\<close> may list them in any order. Columns hold signed 64-bit integers.
  An exception is \<open>Inl\<close> with its message; failures of the database itself (a statement that cannot be prepared) are not
  modelled. \<open>now\<close> is \<^verbatim>\<open>currentTimeMillis()\<close>.
\<close>

section \<open>Tables\<close>

text \<open>\<^verbatim>\<open>INSERT ... ON CONFLICT DO UPDATE SET\<close>: \<open>conflict\<close> gets the row that is there and the one excluded.\<close>

definition upsert :: "'k \<Rightarrow> 'r \<Rightarrow> ('r \<Rightarrow> 'r \<Rightarrow> 'r) \<Rightarrow> ('k \<times> 'r) list \<Rightarrow> ('k \<times> 'r) list" where
  "upsert k excluded conflict tbl =
     (if k \<in> fst ` set tbl then map (\<lambda>(k', r). (k', if k' = k then conflict r excluded else r)) tbl
      else tbl @ [(k, excluded)])"

text \<open>The times of the code are unsigned and are bound as signed integers.\<close>

definition cutoff :: "u64 \<Rightarrow> int \<Rightarrow> int" where
  "cutoff now age = sint (now - word_of_int age)"

text \<open>A loop that builds one object per row stops at the first constructor that throws.\<close>

fun collect :: "('e + 'a) list \<Rightarrow> 'e + 'a list" where
  "collect [] = Inr []"
| "collect (Inl e # xs) = Inl e"
| "collect (Inr x # xs) = map_sum id (\<lambda>ys. x # ys) (collect xs)"

record value_row =
  vr_persistent :: bool
  vr_publicKey :: "u8 list option"
  vr_privateKey :: "u8 list option"
  vr_recipient :: "u8 list option"
  vr_nonce :: "u8 list option"
  vr_signature :: "u8 list option"
  vr_sequenceNumber :: int
  vr_data :: "u8 list"
  vr_timestamp :: int
  vr_announced :: int

record peer_row =
  pr_persistent :: bool
  pr_privateKey :: "u8 list option"
  pr_port :: int
  pr_alternativeURL :: "string option"
  pr_signature :: "u8 list"
  pr_timestamp :: int
  pr_announced :: int

text \<open>The primary key of a peer is its identifier, its node and its origin.\<close>

record storage =
  valores :: "(id \<times> value_row) list"
  peers_table :: "((id \<times> id \<times> id) \<times> peer_row) list"

definition empty_storage :: storage where
  "empty_storage = \<lparr>valores = [], peers_table = []\<rparr>"

section \<open>Values\<close>

text \<open>Building a value from the columns of a row; a nonce of another length is left out.\<close>

definition row_value :: "value_row \<Rightarrow> string + value_record" where
  "row_value r =
     (let nonce = bytes_of (vr_nonce r) in
      value_of (bytes_of (vr_publicKey r)) (bytes_of (vr_privateKey r)) (bytes_of (vr_recipient r))
        (if length nonce = NONCE_BYTES then nonce else []) (vr_sequenceNumber r) (bytes_of (vr_signature r)) (vr_data r))"

definition st_getValue :: "u64 \<Rightarrow> id \<Rightarrow> storage \<Rightarrow> string + value_record option" where
  "st_getValue now valueId st =
     (case map_of (valores st) valueId of
        Some r \<Rightarrow> if vr_timestamp r \<ge> cutoff now MAX_VALUE_AGE then map_sum id Some (row_value r) else Inr None
      | None \<Rightarrow> Inr None)"

text \<open>The columns bound by \<^verbatim>\<open>putValue\<close>, and the columns that are set when the value is already there.\<close>

definition value_columns :: "u64 \<Rightarrow> value_record \<Rightarrow> bool \<Rightarrow> bool \<Rightarrow> value_row" where
  "value_columns now v persistent updateLastAnnounce =
     \<lparr>vr_persistent = persistent, vr_publicKey = map_option bytes (v_publicKey v), vr_privateKey = v_privateKey v,
      vr_recipient = map_option bytes (v_recipient v), vr_nonce = (if isMutable v then v_nonce v else None),
      vr_signature = v_signature v, vr_sequenceNumber = v_sequenceNumber v, vr_data = v_data v, vr_timestamp = sint now,
      vr_announced = (if updateLastAnnounce then sint now else 0)\<rparr>"

definition value_conflict :: "value_row \<Rightarrow> value_row \<Rightarrow> value_row" where
  "value_conflict r excluded = excluded\<lparr>vr_persistent := vr_persistent r, vr_announced := vr_announced r\<rparr>"

definition put_check :: "value_record \<Rightarrow> int \<Rightarrow> value_record option \<Rightarrow> string option" where
  "put_check v expectedSeq old =
     (case old of
        None \<Rightarrow> None
      | Some w \<Rightarrow>
          if \<not> isMutable w then None
          else if \<not> isMutable v then Some ''Can not replace mutable value with immutable is not supported''
          else if v_privateKey w \<noteq> None \<and> v_privateKey v = None then Some ''Not the owner of value''
          else if v_sequenceNumber v < v_sequenceNumber w then Some ''Sequence number less than current''
          else if expectedSeq \<ge> 0 \<and> v_sequenceNumber w \<ge> 0 \<and> v_sequenceNumber w \<noteq> expectedSeq then Some ''CAS failure''
          else None)"

definition st_putValue ::
  "crypto \<Rightarrow> u64 \<Rightarrow> value_record \<Rightarrow> int \<Rightarrow> bool \<Rightarrow> bool \<Rightarrow> storage \<Rightarrow> string + value_record option \<times> storage" where
  "st_putValue C now v expectedSeq persistent updateLastAnnounce st =
     (if isMutable v \<and> \<not> v_isValid C v then Inl ''Value signature validation failed''
      else case v_getId C v of
        None \<Rightarrow> Inl ''The binary id should be 32 bytes long.''
      | Some i \<Rightarrow>
          (case st_getValue now i st of
             Inl e \<Rightarrow> Inl e
           | Inr old \<Rightarrow>
               (case put_check v expectedSeq old of
                  Some e \<Rightarrow> Inl e
                | None \<Rightarrow>
                    Inr (old, st\<lparr>valores := upsert i (value_columns now v persistent updateLastAnnounce) value_conflict (valores st)\<rparr>))))"

definition st_getAllValues :: "u64 \<Rightarrow> storage \<Rightarrow> id list" where
  "st_getAllValues now st = sort (map fst (filter (\<lambda>(i, r). vr_timestamp r \<ge> cutoff now MAX_VALUE_AGE) (valores st)))"

definition st_updateValueLastAnnounce :: "u64 \<Rightarrow> id \<Rightarrow> storage \<Rightarrow> storage" where
  "st_updateValueLastAnnounce now valueId st =
     st\<lparr>valores := map (\<lambda>(i, r). (i, if i = valueId then r\<lparr>vr_timestamp := sint now, vr_announced := sint now\<rparr> else r)) (valores st)\<rparr>"

definition st_getPersistentValues :: "u64 \<Rightarrow> storage \<Rightarrow> string + value_record list" where
  "st_getPersistentValues lastAnnounceBefore st =
     collect (map (\<lambda>(i, r). row_value r)
       (filter (\<lambda>(i, r). vr_persistent r \<and> vr_announced r \<le> sint lastAnnounceBefore) (valores st)))"

definition st_removeValue :: "id \<Rightarrow> storage \<Rightarrow> bool \<times> storage" where
  "st_removeValue valueId st =
     (valueId \<in> fst ` set (valores st), st\<lparr>valores := filter (\<lambda>(i, r). i \<noteq> valueId) (valores st)\<rparr>)"

section \<open>Peers\<close>

text \<open>A C string ends at the first null character.\<close>

definition c_string :: "string \<Rightarrow> string" where
  "c_string s = takeWhile (\<lambda>c. c \<noteq> CHR 0x00) s"

definition row_peer :: "crypto \<Rightarrow> id \<Rightarrow> id \<Rightarrow> u8 list \<Rightarrow> peer_row \<Rightarrow> string + peer_info" where
  "row_peer C peerId nodeId origin r =
     peer_of C (bytes peerId) (bytes_of (pr_privateKey r)) (bytes nodeId) origin (word_of_int (pr_port r))
       (c_string (url_of (pr_alternativeURL r))) (pr_signature r)"

text \<open>\<open>shuffle\<close> is the order \<^verbatim>\<open>ORDER BY RANDOM()\<close> gives.\<close>

definition st_getPeers ::
  "crypto \<Rightarrow> u64 \<Rightarrow> (((id \<times> id \<times> id) \<times> peer_row) list \<Rightarrow> ((id \<times> id \<times> id) \<times> peer_row) list) \<Rightarrow> id \<Rightarrow> int \<Rightarrow> storage \<Rightarrow>
   string + peer_info list" where
  "st_getPeers C now shuffle peerId maxPeers st =
     (let maxPeers = (if maxPeers \<le> 0 then 0x7fffffff else maxPeers);
          rows = filter (\<lambda>((i, n, og), r). i = peerId \<and> pr_timestamp r \<ge> cutoff now MAX_PEER_AGE) (peers_table st)
      in collect (map (\<lambda>((i, n, og), r). row_peer C peerId n (bytes og) r) (take (nat maxPeers) (shuffle rows))))"

text \<open>\<^verbatim>\<open>getPeer(peerId, origin)\<close>: the first row of the result.\<close>

definition st_getPeer :: "crypto \<Rightarrow> u64 \<Rightarrow> id \<Rightarrow> id \<Rightarrow> storage \<Rightarrow> string + peer_info option" where
  "st_getPeer C now peerId origin st =
     (case filter (\<lambda>((i, n, og), r). i = peerId \<and> og = origin \<and> pr_timestamp r \<ge> cutoff now MAX_PEER_AGE) (peers_table st) of
        [] \<Rightarrow> Inr None
      | ((i, n, og), r) # _ \<Rightarrow> map_sum id Some (row_peer C peerId n (bytes og) r))"

definition peer_columns :: "u64 \<Rightarrow> peer_info \<Rightarrow> bool \<Rightarrow> bool \<Rightarrow> peer_row" where
  "peer_columns now p persistent updateLastAnnounce =
     \<lparr>pr_persistent = persistent, pr_privateKey = p_privateKey p, pr_port = uint (p_port p),
      pr_alternativeURL = map_option c_string (p_alternativeURL p), pr_signature = p_signature p, pr_timestamp = sint now,
      pr_announced = (if updateLastAnnounce then sint now else 0)\<rparr>"

text \<open>All columns but the key are set to those of the new row.\<close>

definition st_putPeer :: "u64 \<Rightarrow> peer_info \<Rightarrow> bool \<Rightarrow> bool \<Rightarrow> storage \<Rightarrow> storage" where
  "st_putPeer now p persistent updateLastAnnounce st =
     st\<lparr>peers_table := upsert (p_publicKey p, p_nodeId p, p_origin p) (peer_columns now p persistent updateLastAnnounce)
          (\<lambda>r excluded. excluded) (peers_table st)\<rparr>"

text \<open>\<^verbatim>\<open>putPeer\<close> of a list, one transaction.\<close>

definition st_putPeers :: "u64 \<Rightarrow> peer_info list \<Rightarrow> storage \<Rightarrow> storage" where
  "st_putPeers now ps st = fold (\<lambda>p. st_putPeer now p False False) ps st"

definition st_getAllPeers :: "u64 \<Rightarrow> storage \<Rightarrow> id list" where
  "st_getAllPeers now st =
     sort (remdups (map (\<lambda>((i, n, og), r). i) (filter (\<lambda>(k, r). pr_timestamp r \<ge> cutoff now MAX_PEER_AGE) (peers_table st))))"

definition st_updatePeerLastAnnounce :: "u64 \<Rightarrow> id \<Rightarrow> id \<Rightarrow> storage \<Rightarrow> storage" where
  "st_updatePeerLastAnnounce now peerId origin st =
     st\<lparr>peers_table := map (\<lambda>((i, n, og), r).
          ((i, n, og), if i = peerId \<and> og = origin then r\<lparr>pr_timestamp := sint now, pr_announced := sint now\<rparr> else r)) (peers_table st)\<rparr>"

text \<open>The loop of \<^verbatim>\<open>getPersistentPeers\<close> has no case for the column \<^verbatim>\<open>origin\<close>: its blob stays empty.\<close>

definition st_getPersistentPeers :: "crypto \<Rightarrow> u64 \<Rightarrow> storage \<Rightarrow> string + peer_info list" where
  "st_getPersistentPeers C lastAnnounceBefore st =
     collect (map (\<lambda>((i, n, og), r). row_peer C i n [] r)
       (filter (\<lambda>(k, r). pr_persistent r \<and> pr_announced r \<le> sint lastAnnounceBefore) (peers_table st)))"

definition st_removePeer :: "id \<Rightarrow> id \<Rightarrow> storage \<Rightarrow> bool \<times> storage" where
  "st_removePeer peerId origin st =
     ((\<exists>((i, n, og), r) \<in> set (peers_table st). i = peerId \<and> og = origin),
      st\<lparr>peers_table := filter (\<lambda>((i, n, og), r). \<not> (i = peerId \<and> og = origin)) (peers_table st)\<rparr>)"

section \<open>Expiry\<close>

definition st_expire :: "u64 \<Rightarrow> storage \<Rightarrow> storage" where
  "st_expire now st =
     st\<lparr>valores := filter (\<lambda>(i, r). vr_persistent r \<or> vr_timestamp r \<ge> cutoff now MAX_VALUE_AGE) (valores st),
        peers_table := filter (\<lambda>(k, r). pr_persistent r \<or> pr_timestamp r \<ge> cutoff now MAX_PEER_AGE) (peers_table st)\<rparr>"
section \<open>Properties of the tables\<close>

named_theorems sql_simps

lemma map_of_upsert [sql_simps]:
  "map_of (upsert k x f tbl) k' =
     (if k' = k then Some (case map_of tbl k of None \<Rightarrow> x | Some r \<Rightarrow> f r x) else map_of tbl k')"
proof (cases "k \<in> fst ` set tbl")
  case True
  have "map_of (map (\<lambda>(k', r). (k', if k' = k then f r x else r)) tbl) k' = map_option (\<lambda>r. if k' = k then f r x else r) (map_of tbl k')"
    by (induction tbl) auto
  moreover obtain r where "map_of tbl k = Some r" using True by (metis map_of_eq_None_iff not_None_eq)
  ultimately show ?thesis using True by (auto simp: upsert_def option.map_ident)
next
  case False
  then have "map_of tbl k = None" by (simp add: map_of_eq_None_iff)
  then show ?thesis using False by (auto simp: upsert_def map_add_def split: option.splits)
qed

lemma map_fst_update [sql_simps]: "map fst (map (\<lambda>(k, r). (k, g k r)) tbl) = map fst tbl"
  by (induction tbl) auto

lemma distinct_upsert: "distinct (map fst tbl) \<Longrightarrow> distinct (map fst (upsert k x f tbl))"
  by (simp add: upsert_def map_fst_update [of "\<lambda>k' r. if k' = k then f r x else r" tbl] del: map_map)

lemma map_of_update [sql_simps]: "map_of (map (\<lambda>(k, r). (k, g k r)) tbl) k = map_option (g k) (map_of tbl k)"
  by (induction tbl) auto

lemma map_of_delete [sql_simps]:
  assumes "distinct (map fst tbl)"
  shows "map_of (filter (\<lambda>(k, r). P k r) tbl) k = (case map_of tbl k of Some r \<Rightarrow> if P k r then Some r else None | None \<Rightarrow> None)"
  using assms
proof (induction tbl)
  case (Cons e tbl)
  have "map_of tbl (fst e) = None" using Cons.prems by (simp add: map_of_eq_None_iff)
  then show ?case using Cons by (cases e) (auto split: option.splits)
qed simp

lemma distinct_delete: "distinct (map fst tbl) \<Longrightarrow> distinct (map fst (filter P tbl))"
  by (simp add: distinct_map_filter)

lemma sint_small:
  assumes "- (2 ^ 63) \<le> n" and "n < 2 ^ 63"
  shows "sint (word_of_int n :: u64) = n"
  using assms by (simp add: sint_sbintrunc' signed_take_bit_int_eq_self)

text \<open>The age test in plain numbers, for times below \<open>2 ^ 63\<close>.\<close>

lemma cutoff_exact:
  assumes "unat now < 2 ^ 63" and "0 \<le> age" and "age < 2 ^ 63"
  shows "cutoff now age = int (unat now) - age" and "sint now = int (unat now)"
proof -
  have b: "0 \<le> int (unat now)" "int (unat now) < 2 ^ 63" using assms(1) by (simp, metis of_nat_less_iff of_nat_numeral of_nat_power)
  have "sint (word_of_int (int (unat now)) :: u64) = int (unat now)" by (rule sint_small) (use b in linarith)+
  then show "sint now = int (unat now)" by simp
  have "sint (word_of_int (int (unat now) - age) :: u64) = int (unat now) - age" by (rule sint_small) (use b assms(2,3) in linarith)+
  moreover have "word_of_int (int (unat now)) = now" by simp
  then have "word_of_int (int (unat now) - age) = now - word_of_int age" by (simp only: of_int_diff)
  ultimately show "cutoff now age = int (unat now) - age" by (simp only: cutoff_def)
qed
section \<open>Stored values\<close>

text \<open>A value as its constructors make it, possibly with the private key of its owner.\<close>

definition wf_owned :: "value_record \<Rightarrow> bool" where
  "wf_owned v \<longleftrightarrow> wf_value (v\<lparr>v_privateKey := None\<rparr>) \<and>
     (case v_privateKey v of None \<Rightarrow> True | Some sk \<Rightarrow> isMutable v \<and> length sk = PRIVATE_KEY_BYTES)"

lemma row_value_columns:
  assumes "wf_owned v"
  shows "row_value ((value_columns now v p u)\<lparr>vr_persistent := p', vr_announced := a\<rparr>) = Inr v"
  using assms
  by (cases v; cases "v_publicKey v"; cases "v_recipient v"; cases "v_privateKey v")
    (auto simp: wf_owned_def wf_value_def row_value_def value_columns_def value_of_def bytes_of_def opt_bytes_def isMutable_def Let_def)

lemma wf_owned_valid: "wf_owned v \<Longrightarrow> \<not> isMutable v \<Longrightarrow> v_isValid C v"
  by (simp add: wf_owned_def wf_value_def v_isValid_def isMutable_def)

text \<open>
  The invariant of the store: keys are unique, and each row of the values makes a well-formed value whose identifier is the
  key and whose signature, when it has one, is good.
\<close>

definition row_ok :: "crypto \<Rightarrow> id \<Rightarrow> value_row \<Rightarrow> bool" where
  "row_ok C i r \<longleftrightarrow> (\<exists>v. row_value r = Inr v \<and> v_getId C v = Some i \<and> v_isValid C v \<and> wf_owned v)"

definition values_inv :: "crypto \<Rightarrow> storage \<Rightarrow> bool" where
  "values_inv C st \<longleftrightarrow> distinct (map fst (valores st)) \<and> (\<forall>i r. map_of (valores st) i = Some r \<longrightarrow> row_ok C i r)"

lemma row_ok_frame:
  "row_value r = row_value r' \<Longrightarrow> row_ok C i r = row_ok C i r'"
  by (simp add: row_ok_def)

lemma put_cases:
  assumes "st_putValue C now v e p u st = Inr (old, st')"
  obtains i where "v_getId C v = Some i" "st_getValue now i st = Inr old" "put_check v e old = None" "isMutable v \<longrightarrow> v_isValid C v"
    "st' = st\<lparr>valores := upsert i (value_columns now v p u) value_conflict (valores st)\<rparr>"
  using assms by (auto simp: st_putValue_def split: if_splits option.splits sum.splits)

lemma put_row:
  assumes "wf_owned v" and "tbl = upsert i (value_columns now v p u) value_conflict (valores st)"
  obtains r where "map_of tbl i = Some r" "row_value r = Inr v" "vr_timestamp r = sint now"
proof -
  define r where "r = (case map_of (valores st) i of None \<Rightarrow> value_columns now v p u | Some r \<Rightarrow> value_conflict r (value_columns now v p u))"
  have "r = (value_columns now v p u)\<lparr>vr_persistent := vr_persistent r, vr_announced := vr_announced r\<rparr>"
    by (cases "map_of (valores st) i") (simp_all add: r_def value_conflict_def)
  then have "row_value r = Inr v" "vr_timestamp r = sint now" using row_value_columns [OF assms(1)]
    by (metis, metis (no_types, lifting) value_columns_def value_row.select_convs(9) value_row.update_convs(1,10))
  moreover have "map_of tbl i = Some r" by (simp add: assms(2) map_of_upsert r_def)
  ultimately show thesis using that by blast
qed

lemma put_inv:
  assumes inv: "values_inv C st" and wf: "wf_owned v" and p: "st_putValue C now v e p u st = Inr (old, st')"
  shows "values_inv C st'"
proof -
  obtain i where i: "v_getId C v = Some i" "isMutable v \<longrightarrow> v_isValid C v"
    "st' = st\<lparr>valores := upsert i (value_columns now v p u) value_conflict (valores st)\<rparr>" using put_cases [OF p] by metis
  obtain r where r: "map_of (valores st') i = Some r" "row_value r = Inr v" using put_row [OF wf refl] i(3) by (metis storage.select_convs(1) storage.surjective storage.update_convs(1))
  have "row_ok C i r" using r(2) i wf wf_owned_valid [OF wf] by (auto simp: row_ok_def)
  moreover have "map_of (valores st') j = map_of (valores st) j" if "j \<noteq> i" for j using that i(3) by (simp add: map_of_upsert)
  ultimately show ?thesis using inv r(1) i(3) unfolding values_inv_def by (metis distinct_upsert option.inject storage.select_convs(1) storage.surjective storage.update_convs(1))
qed

text \<open>Times at which a value written at \<open>t\<close> is alive: the two hours that follow.\<close>

definition alive_at :: "u64 \<Rightarrow> u64 \<Rightarrow> bool" where
  "alive_at t now \<longleftrightarrow> t \<le> now \<and> unat now \<le> unat t + 7200000 \<and> unat now < 2 ^ 63"

lemma alive_cutoff:
  assumes "alive_at t now"
  shows "cutoff now MAX_VALUE_AGE \<le> sint t" and "cutoff now MAX_PEER_AGE \<le> sint t"
proof -
  have n: "unat now < 2 ^ 63" and le: "unat t \<le> unat now" "unat now \<le> unat t + 7200000" using assms by (auto simp: alive_at_def word_le_nat_alt)
  then have t: "unat t < 2 ^ 63" by linarith
  have "cutoff now 7200000 = int (unat now) - 7200000" by (rule cutoff_exact(1) [OF n]) simp_all
  moreover have "sint t = int (unat t)" by (rule cutoff_exact(2) [OF t, of 0]) simp_all
  ultimately show "cutoff now MAX_VALUE_AGE \<le> sint t" "cutoff now MAX_PEER_AGE \<le> sint t"
    unfolding MAX_VALUE_AGE_def MAX_PEER_AGE_def using le by linarith+
qed

lemma put_get:
  assumes wf: "wf_owned v" and p: "st_putValue C t v e p u st = Inr (old, st')" and i: "v_getId C v = Some i"
  shows "alive_at t now \<Longrightarrow> st_getValue now i st' = Inr (Some v)" and "j \<noteq> i \<Longrightarrow> st_getValue now j st' = st_getValue now j st"
proof -
  have st': "st' = st\<lparr>valores := upsert i (value_columns t v p u) value_conflict (valores st)\<rparr>" using put_cases [OF p] i by (metis option.inject)
  obtain r where r: "map_of (valores st') i = Some r" "row_value r = Inr v" "vr_timestamp r = sint t"
    using put_row [OF wf refl] st' by (metis storage.select_convs(1) storage.surjective storage.update_convs(1))
  show "st_getValue now i st' = Inr (Some v)" if "alive_at t now"
    using r alive_cutoff(1) [OF that] by (simp add: st_getValue_def)
  show "st_getValue now j st' = st_getValue now j st" if "j \<noteq> i" using that by (simp add: st_getValue_def st' map_of_upsert)
qed

lemma get_ok:
  assumes "values_inv C st"
  shows "\<exists>r. st_getValue now i st = Inr r \<and> (\<forall>v. r = Some v \<longrightarrow> v_getId C v = Some i \<and> v_isValid C v \<and> wf_owned v)"
  using assms by (fastforce simp: values_inv_def row_ok_def st_getValue_def split: option.splits)
section \<open>The interface of a value store\<close>

text \<open>
  What the rest of the node relies on: \<^verbatim>\<open>DataStorage\<close> of \<^verbatim>\<open>data_storage.h\<close>. A put that fails leaves the store as it
  was; \<open>attempt\<close> is a put whose exception the caller has caught.
\<close>

type_synonym put_request = "u64 \<times> value_record \<times> int \<times> bool \<times> bool"

definition attempt ::
  "(u64 \<Rightarrow> value_record \<Rightarrow> int \<Rightarrow> bool \<Rightarrow> bool \<Rightarrow> 's \<Rightarrow> string + value_record option \<times> 's) \<Rightarrow> put_request \<Rightarrow> 's \<Rightarrow> 's" where
  "attempt put q s = (case q of (now, v, e, p, u) \<Rightarrow> case put now v e p u s of Inl _ \<Rightarrow> s | Inr (_, s') \<Rightarrow> s')"

locale value_store =
  fixes invar :: "'s \<Rightarrow> bool"
    and get :: "u64 \<Rightarrow> id \<Rightarrow> 's \<Rightarrow> string + value_record option"
    and put :: "u64 \<Rightarrow> value_record \<Rightarrow> int \<Rightarrow> bool \<Rightarrow> bool \<Rightarrow> 's \<Rightarrow> string + value_record option \<times> 's"
    and name_of :: "value_record \<Rightarrow> id option"
  assumes put_invar: "invar s \<Longrightarrow> wf_owned v \<Longrightarrow> put now v e p u s = Inr (old, s') \<Longrightarrow> invar s'"
    and put_checked: "put now v e p u s = Inr (old, s') \<Longrightarrow> \<exists>i. name_of v = Some i \<and> get now i s = Inr old \<and> put_check v e old = None"
    and get_put: "wf_owned v \<Longrightarrow> put t v e p u s = Inr (old, s') \<Longrightarrow> name_of v = Some i \<Longrightarrow> alive_at t now \<Longrightarrow> get now i s' = Inr (Some v)"
    and get_put_other: "wf_owned v \<Longrightarrow> put t v e p u s = Inr (old, s') \<Longrightarrow> name_of v = Some i \<Longrightarrow> j \<noteq> i \<Longrightarrow> get now j s' = get now j s"
begin

text \<open>A stored mutable value that is at least as new as \<open>w\<close>, and stays so until \<open>until\<close>.\<close>

lemma attempt_keeps:
  assumes live: "\<forall>now. t \<le> now \<longrightarrow> now \<le> until \<longrightarrow> get now i s = Inr (Some v)"
    and v: "isMutable v" "v_privateKey w \<noteq> None \<longrightarrow> v_privateKey v \<noteq> None" "v_sequenceNumber w \<le> v_sequenceNumber v"
    and q: "wf_owned v'" "t \<le> t'" "t' \<le> until" "unat until \<le> unat t + 7200000" "unat until < 2 ^ 63"
  obtains v2 where "\<forall>now. t' \<le> now \<longrightarrow> now \<le> until \<longrightarrow> get now i (attempt put (t', v', e, p, u) s) = Inr (Some v2)" "isMutable v2"
    "v_privateKey w \<noteq> None \<longrightarrow> v_privateKey v2 \<noteq> None" "v_sequenceNumber w \<le> v_sequenceNumber v2"
proof (cases "put t' v' e p u s")
  case (Inl x)
  then show ?thesis using that [of v] live v q(2) by (simp add: attempt_def)
next
  case (Inr r)
  obtain old s' where r: "put t' v' e p u s = Inr (old, s')" using Inr by (cases r) simp
  then have a: "attempt put (t', v', e, p, u) s = s'" by (simp add: attempt_def)
  obtain j where j: "name_of v' = Some j" "get t' j s = Inr old" "put_check v' e old = None" using put_checked [OF r] by blast
  show ?thesis
  proof (cases "j = i")
    case True
    then have "old = Some v" using live j(2) q(2,3) by auto
    then have "isMutable v'" "v_privateKey v \<noteq> None \<longrightarrow> v_privateKey v' \<noteq> None" "v_sequenceNumber v \<le> v_sequenceNumber v'"
      using j(3) v(1) by (auto simp: put_check_def split: if_splits)
    moreover have "alive_at t' now" if "t' \<le> now" "now \<le> until" for now
      using that q(2,4,5) by (auto simp: alive_at_def word_le_nat_alt)
    then have "\<forall>now. t' \<le> now \<longrightarrow> now \<le> until \<longrightarrow> get now i s' = Inr (Some v')" using get_put [OF q(1) r j(1)] True by blast
    ultimately show ?thesis using that [of v'] v a by auto
  next
    case False
    then have "\<forall>now. t' \<le> now \<longrightarrow> now \<le> until \<longrightarrow> get now i s' = Inr (Some v)" using get_put_other [OF q(1) r j(1)] live q(2) by auto
    then show ?thesis using that [of v] v a by simp
  qed
qed

text \<open>No sequence of puts makes a live mutable value older.\<close>

lemma attempts_keep:
  assumes "\<forall>now. t \<le> now \<longrightarrow> now \<le> until \<longrightarrow> get now i s = Inr (Some v)"
    and "isMutable v" "v_privateKey w \<noteq> None \<longrightarrow> v_privateKey v \<noteq> None" "v_sequenceNumber w \<le> v_sequenceNumber v"
    and "\<forall>(t', v', e, p, u) \<in> set qs. wf_owned v'" "sorted (t # map fst qs @ [until])" "unat until \<le> unat t + 7200000" "unat until < 2 ^ 63"
  shows "\<exists>v2. get until i (fold (attempt put) qs s) = Inr (Some v2) \<and> isMutable v2 \<and>
    (v_privateKey w \<noteq> None \<longrightarrow> v_privateKey v2 \<noteq> None) \<and> v_sequenceNumber w \<le> v_sequenceNumber v2"
  using assms
proof (induction qs arbitrary: t s v)
  case Nil
  then show ?case by (intro exI [of _ v]) simp
next
  case (Cons q qs)
  obtain t' v' e p u where q: "q = (t', v', e, p, u)" by (cases q) auto
  have t': "wf_owned v'" "t \<le> t'" "t' \<le> until" "sorted (t' # map fst qs @ [until])" using Cons.prems(5,6) by (auto simp: q)
  obtain v2 where "\<forall>now. t' \<le> now \<longrightarrow> now \<le> until \<longrightarrow> get now i (attempt put q s) = Inr (Some v2)" "isMutable v2"
    "v_privateKey w \<noteq> None \<longrightarrow> v_privateKey v2 \<noteq> None" "v_sequenceNumber w \<le> v_sequenceNumber v2"
    using attempt_keeps [OF Cons.prems(1-4) t'(1-3) Cons.prems(7,8)] q by blast
  moreover have "unat until \<le> unat t' + 7200000" using Cons.prems(7) t'(2) by (simp add: word_le_nat_alt)
  ultimately show ?case using Cons.IH [of t' "attempt put q s" v2] Cons.prems(5,8) t'(4) by simp
qed

end

interpretation vs: value_store "values_inv C" st_getValue "st_putValue C" "v_getId C" for C
proof unfold_locales
  show "values_inv C s \<Longrightarrow> wf_owned v \<Longrightarrow> st_putValue C now v e p u s = Inr (old, s') \<Longrightarrow> values_inv C s'" for s v now e p u old s'
    by (rule put_inv)
  show "st_putValue C now v e p u s = Inr (old, s') \<Longrightarrow> \<exists>i. v_getId C v = Some i \<and> st_getValue now i s = Inr old \<and> put_check v e old = None"
    for s v now e p u old s' by (metis put_cases)
qed (simp_all add: put_get)
section \<open>All states of the store\<close>

lemma values_inv_rows:
  assumes "values_inv C st" and "distinct (map fst (valores st'))"
    and "\<And>i r. map_of (valores st') i = Some r \<Longrightarrow> \<exists>r'. map_of (valores st) i = Some r' \<and> row_value r = row_value r'"
  shows "values_inv C st'"
  using assms unfolding values_inv_def by (metis row_ok_frame)

lemma remove_inv: "values_inv C st \<Longrightarrow> values_inv C (snd (st_removeValue i st))"
  by (rule values_inv_rows)
    (auto simp: st_removeValue_def values_inv_def map_of_delete intro: distinct_delete split: option.splits if_splits)

lemma announce_inv:
  assumes "values_inv C st"
  shows "values_inv C (st_updateValueLastAnnounce now i st)"
proof (rule values_inv_rows [OF assms])
  let ?g = "\<lambda>k r. if k = i then r\<lparr>vr_timestamp := sint now, vr_announced := sint now\<rparr> else r"
  show "distinct (map fst (valores (st_updateValueLastAnnounce now i st)))"
    using assms map_fst_update [of ?g "valores st"] by (simp add: st_updateValueLastAnnounce_def values_inv_def del: map_map)
  show "\<exists>r'. map_of (valores st) k = Some r' \<and> row_value r = row_value r'"
    if "map_of (valores (st_updateValueLastAnnounce now i st)) k = Some r" for k r
    using that by (auto simp: st_updateValueLastAnnounce_def map_of_update row_value_def Let_def split: if_splits)
qed

lemma expire_get:
  assumes "distinct (map fst (valores st))"
  shows "st_getValue now i (st_expire now st) = st_getValue now i st"
  using assms by (simp add: st_getValue_def st_expire_def map_of_delete split: option.splits)

lemma expire_inv: "values_inv C st \<Longrightarrow> values_inv C (st_expire now st)"
  by (rule values_inv_rows)
    (auto simp: st_expire_def values_inv_def map_of_delete intro: distinct_delete split: option.splits if_splits)

text \<open>A peer as its constructors make it, with a URL that is a C string.\<close>

definition wf_owned_peer :: "crypto \<Rightarrow> peer_info \<Rightarrow> bool" where
  "wf_owned_peer C p \<longleftrightarrow> wf_peer C (p\<lparr>p_privateKey := None\<rparr>) \<and> c_string (url_of (p_alternativeURL p)) = url_of (p_alternativeURL p) \<and>
     (case p_privateKey p of None \<Rightarrow> True | Some sk \<Rightarrow> length sk = PRIVATE_KEY_BYTES)"

lemma row_peer_columns:
  assumes "wf_owned_peer C p"
  shows "row_peer C (p_publicKey p) (p_nodeId p) (bytes (p_origin p)) (peer_columns now p b u) = Inr p"
    and "row_peer C (p_publicKey p) (p_nodeId p) [] (peer_columns now p b u) = Inr (p\<lparr>p_origin := p_nodeId p\<rparr>)"
  using assms
  by (cases p; cases "p_privateKey p"; cases "p_alternativeURL p";
      auto simp: wf_owned_peer_def wf_peer_def row_peer_def peer_columns_def peer_of_def bytes_of_def url_of_def opt_bytes_def)+

definition peer_row_ok :: "crypto \<Rightarrow> id \<times> id \<times> id \<Rightarrow> peer_row \<Rightarrow> bool" where
  "peer_row_ok C k r \<longleftrightarrow> (case k of (i, n, og) \<Rightarrow>
     \<exists>p. row_peer C i n (bytes og) r = Inr p \<and> p_publicKey p = i \<and> p_nodeId p = n \<and> p_origin p = og \<and> wf_owned_peer C p)"

definition peers_inv :: "crypto \<Rightarrow> storage \<Rightarrow> bool" where
  "peers_inv C st \<longleftrightarrow> distinct (map fst (peers_table st)) \<and> (\<forall>k r. map_of (peers_table st) k = Some r \<longrightarrow> peer_row_ok C k r)"

lemma peers_inv_rows:
  assumes "peers_inv C st" and "distinct (map fst (peers_table st'))"
    and "\<And>k r. map_of (peers_table st') k = Some r \<Longrightarrow>
      peer_row_ok C k r \<or> (\<exists>r'. map_of (peers_table st) k = Some r' \<and> peer_row_ok C k r = peer_row_ok C k r')"
  shows "peers_inv C st'"
  using assms unfolding peers_inv_def by metis

lemma putPeer_inv:
  assumes "peers_inv C st" and "wf_owned_peer C p"
  shows "peers_inv C (st_putPeer now p b u st)"
proof (rule peers_inv_rows [OF assms(1)])
  show "distinct (map fst (peers_table (st_putPeer now p b u st)))"
    using assms(1) by (simp add: st_putPeer_def peers_inv_def distinct_upsert)
  show "peer_row_ok C k r \<or> (\<exists>r'. map_of (peers_table st) k = Some r' \<and> peer_row_ok C k r = peer_row_ok C k r')"
    if "map_of (peers_table (st_putPeer now p b u st)) k = Some r" for k r
    using that row_peer_columns(1) [OF assms(2)] assms(2)
    by (auto simp: st_putPeer_def map_of_upsert peer_row_ok_def split: if_splits option.splits)
qed

lemma updatePeer_inv:
  assumes "peers_inv C st"
  shows "peers_inv C (st_updatePeerLastAnnounce now i og st)"
proof (rule peers_inv_rows [OF assms])
  let ?g = "\<lambda>k r. if fst k = i \<and> snd (snd k) = og then r\<lparr>pr_timestamp := sint now, pr_announced := sint now\<rparr> else r"
  have e: "peers_table (st_updatePeerLastAnnounce now i og st) = map (\<lambda>(k, r). (k, ?g k r)) (peers_table st)"
    by (auto simp: st_updatePeerLastAnnounce_def split: prod.splits)
  show "distinct (map fst (peers_table (st_updatePeerLastAnnounce now i og st)))"
    using assms unfolding e map_fst_update by (simp add: peers_inv_def)
  show "peer_row_ok C k r \<or> (\<exists>r'. map_of (peers_table st) k = Some r' \<and> peer_row_ok C k r = peer_row_ok C k r')"
    if "map_of (peers_table (st_updatePeerLastAnnounce now i og st)) k = Some r" for k r
    using that unfolding e map_of_update by (auto simp: peer_row_ok_def row_peer_def split: if_splits)
qed

lemma peers_filter_inv:
  assumes "peers_inv C st" and "peers_table st' = filter (\<lambda>(k, r). P k r) (peers_table st)"
  shows "peers_inv C st'"
  using assms by (intro peers_inv_rows [OF assms(1)])
    (auto simp: peers_inv_def map_of_delete intro: distinct_delete split: option.splits if_splits)

lemma peers_inv_frame: "peers_table st' = peers_table st \<Longrightarrow> peers_inv C st' = peers_inv C st"
  by (simp add: peers_inv_def)

text \<open>All operations that change the store, with values and peers as the constructors make them.\<close>

inductive storage_step :: "crypto \<Rightarrow> storage \<Rightarrow> storage \<Rightarrow> bool" for C where
  ss_put: "wf_owned v \<Longrightarrow> st_putValue C now v e p u st = Inr (old, st') \<Longrightarrow> storage_step C st st'"
| ss_announced: "storage_step C st (st_updateValueLastAnnounce now i st)"
| ss_remove: "storage_step C st (snd (st_removeValue i st))"
| ss_putPeer: "wf_owned_peer C q \<Longrightarrow> storage_step C st (st_putPeer now q p u st)"
| ss_announcedPeer: "storage_step C st (st_updatePeerLastAnnounce now i og st)"
| ss_removePeer: "storage_step C st (snd (st_removePeer i og st))"
| ss_expire: "storage_step C st (st_expire now st)"

lemma storage_step_values:
  assumes "storage_step C st st'" and "values_inv C st"
  shows "values_inv C st'"
  using assms
proof (cases rule: storage_step.cases)
  case (ss_put v now e p u old)
  then show ?thesis using assms(2) put_inv by blast
next
  case (ss_announced now i)
  then show ?thesis using announce_inv [OF assms(2)] by simp
next
  case (ss_remove i)
  then show ?thesis using remove_inv [OF assms(2)] by simp
next
  case (ss_expire now)
  then show ?thesis using expire_inv [OF assms(2)] by simp
qed (use assms(2) in \<open>simp_all add: st_putPeer_def st_updatePeerLastAnnounce_def st_removePeer_def values_inv_def\<close>)

lemma storage_step_peers:
  assumes "storage_step C st st'" and "peers_inv C st"
  shows "peers_inv C st'"
  using assms
proof (cases rule: storage_step.cases)
  case (ss_put v now e p u old)
  then have "peers_table st' = peers_table st" by (auto elim: put_cases)
  then show ?thesis using assms(2) peers_inv_frame by blast
next
  case (ss_putPeer q now p u)
  then show ?thesis using putPeer_inv [OF assms(2)] by simp
next
  case (ss_announcedPeer now i og)
  then show ?thesis using updatePeer_inv [OF assms(2), of now i og] by simp
next
  case (ss_removePeer i og)
  then have "peers_table st' = filter (\<lambda>(k, r). \<not> (fst k = i \<and> snd (snd k) = og)) (peers_table st)"
    by (auto simp: st_removePeer_def intro: filter_cong)
  then show ?thesis using peers_filter_inv [OF assms(2)] by blast
next
  case (ss_expire now)
  then have "peers_table st' = filter (\<lambda>(k, r). pr_persistent r \<or> pr_timestamp r \<ge> cutoff now MAX_PEER_AGE) (peers_table st)"
    by (simp add: st_expire_def)
  then show ?thesis using peers_filter_inv [OF assms(2)] by blast
qed (use assms(2) in \<open>simp_all add: st_updateValueLastAnnounce_def st_removeValue_def peers_inv_def\<close>)

lemma storage_reachable_inv:
  "(storage_step C)\<^sup>*\<^sup>* empty_storage st \<Longrightarrow> values_inv C st \<and> peers_inv C st"
  by (induction rule: rtranclp_induct)
    (auto simp: empty_storage_def values_inv_def peers_inv_def dest: storage_step_values storage_step_peers)
section \<open>Correctness\<close>

text \<open>
  C32: in every state of the store, \<^verbatim>\<open>getValue\<close> does not throw; what it returns for an identifier has that identifier
  and is valid: a mutable value carries a good signature of its owner, whoever sent it.
\<close>

theorem stored_values_authentic:
  assumes "(storage_step C)\<^sup>*\<^sup>* empty_storage st"
  shows "\<exists>r. st_getValue now i st = Inr r \<and> (\<forall>v. r = Some v \<longrightarrow> v_getId C v = Some i \<and> v_isValid C v)"
  using get_ok storage_reachable_inv [OF assms] by metis

definition note_value :: "int \<Rightarrow> value_record" where
  "note_value n = \<lparr>v_publicKey = Some zero_id, v_recipient = None, v_privateKey = None, v_nonce = Some (replicate 24 3),
     v_signature = Some (replicate 64 1), v_data = [4], v_sequenceNumber = n\<rparr>"

definition note_id :: id where
  "note_id = the (v_getId plain_crypto (note_value 0))"

lemma note_ok: "0 \<le> n \<Longrightarrow> wf_owned (note_value n)" "v_getId plain_crypto (note_value n) = Some note_id" "isMutable (note_value n)"
  by (simp_all add: note_value_def note_id_def wf_owned_def wf_value_def v_getId_def calculateId_def plain_crypto_def id_of_blob_def isMutable_def)

definition one_note :: storage where
  "one_note = empty_storage\<lparr>valores := upsert note_id (value_columns 1000 (note_value 5) False False) value_conflict []\<rparr>"

lemma one_note_put: "st_putValue plain_crypto 1000 (note_value 5) (-1) False False empty_storage = Inr (None, one_note)"
  using note_ok by (simp add: st_putValue_def v_isValid_def note_value_def plain_crypto_def st_getValue_def empty_storage_def put_check_def one_note_def)

lemma one_note_reached: "(storage_step plain_crypto)\<^sup>*\<^sup>* empty_storage one_note"
  by (rule r_into_rtranclp, rule ss_put [OF _ one_note_put]) (simp add: note_ok)

theorem stored_values_authentic_witness:
  "st_getValue 2000 note_id one_note = Inr (Some (note_value 5)) \<and> v_getId plain_crypto (note_value 5) = Some note_id \<and> v_isValid plain_crypto (note_value 5)"
proof -
  have "alive_at 1000 2000" by (simp add: alive_at_def)
  then have g: "st_getValue 2000 note_id one_note = Inr (Some (note_value 5))"
    using put_get(1) [OF _ one_note_put note_ok(2)] note_ok(1) [of 5] by simp
  with stored_values_authentic [OF one_note_reached, of 2000 note_id] show ?thesis by simp
qed

text \<open>
  C31: a mutable value never goes back. Once it is stored, whatever puts are attempted during the following two hours, by
  whomever, with or without an expected sequence number, the store still returns a mutable value for the identifier, with
  a sequence number that is no smaller; and if the value was stored with a private key, what is returned has one. It need not be the same key:
  \<open>owner_key_replaced\<close>.
\<close>

theorem sequence_never_falls:
  assumes "wf_owned w" and "isMutable w" and "v_getId C w = Some i" and "st_putValue C t w e p u st = Inr (old, st')"
    and "\<forall>(t', v', e, p, u) \<in> set qs. wf_owned v'" and "sorted (t # map fst qs @ [until])"
    and "unat until \<le> unat t + 7200000" and "unat until < 2 ^ 63"
  shows "\<exists>v. st_getValue until i (fold (attempt (st_putValue C)) qs st') = Inr (Some v) \<and> isMutable v \<and>
    (v_privateKey w \<noteq> None \<longrightarrow> v_privateKey v \<noteq> None) \<and> v_sequenceNumber w \<le> v_sequenceNumber v"
proof (rule vs.attempts_keep [of t until i st' w w qs])
  have "alive_at t now" if "t \<le> now" "now \<le> until" for now using that assms(7,8) by (auto simp: alive_at_def word_le_nat_alt)
  then show "\<forall>now. t \<le> now \<longrightarrow> now \<le> until \<longrightarrow> st_getValue now i st' = Inr (Some w)" using put_get(1) [OF assms(1,4,3)] by blast
qed (use assms in auto)

theorem sequence_never_falls_witness:
  "\<exists>v. st_getValue 5000 note_id (fold (attempt (st_putValue plain_crypto)) [(2000, note_value 3, -1, False, False)] one_note) = Inr (Some v) \<and>
    isMutable v \<and> 5 \<le> v_sequenceNumber v"
proof -
  have "v_sequenceNumber (note_value 5) = 5" by (simp add: note_value_def)
  moreover have "\<exists>v. st_getValue 5000 note_id (fold (attempt (st_putValue plain_crypto)) [(2000, note_value 3, -1, False, False)] one_note) = Inr (Some v) \<and>
    isMutable v \<and> (v_privateKey (note_value 5) \<noteq> None \<longrightarrow> v_privateKey v \<noteq> None) \<and> v_sequenceNumber (note_value 5) \<le> v_sequenceNumber v"
    by (rule sequence_never_falls [OF _ _ _ one_note_put]) (use note_ok in simp_all)
  ultimately show ?thesis by auto
qed

text \<open>\<^verbatim>\<open>putValue\<close> tests only that there is a private key: the same value with another key is accepted and replaces the key of the owner.\<close>

lemma owner_key_replaced:
  assumes "wf_owned w" and "isMutable w" and "v_getId C w = Some i" and "st_putValue C t w e p u st = Inr (old, st')" and "alive_at t now"
    and "wf_owned (w\<lparr>v_privateKey := Some k\<rparr>)" and "alive_at now now"
  shows "\<exists>st2. st_putValue C now (w\<lparr>v_privateKey := Some k\<rparr>) (-1) p' u' st' = Inr (Some w, st2) \<and>
    st_getValue now i st2 = Inr (Some (w\<lparr>v_privateKey := Some k\<rparr>))"
proof -
  let ?v = "w\<lparr>v_privateKey := Some k\<rparr>"
  have f: "isMutable ?v" "v_getId C ?v = Some i" "v_isValid C ?v = v_isValid C w"
    using assms(2,3) by (auto simp: isMutable_def isSigned_def isEncrypted_def v_getId_def v_isValid_def v_getSignData_def calculateId_def)
  have "v_isValid C w" using assms(2,4) by (auto simp: st_putValue_def split: if_splits)
  moreover have "st_getValue now i st' = Inr (Some w)" by (rule put_get(1) [OF assms(1,4,3,5)])
  ultimately obtain st2 where "st_putValue C now ?v (-1) p' u' st' = Inr (Some w, st2)" using f assms(2) by (auto simp: st_putValue_def put_check_def)
  then show ?thesis using put_get(1) [OF assms(6) _ f(2) assms(7)] by blast
qed

text \<open>
  C33: what \<^verbatim>\<open>putValue\<close> does is decided by the live value of the same identifier. It fails for a mutable value with a bad
  signature; when the live value is mutable and the new one is not, or lacks the private key that is stored, or is older,
  or when the stored sequence number is not the expected one; in no other case. On success the value is found under its
  identifier for two hours, nothing changes under other identifiers, and a value that is already there keeps its
  \<^verbatim>\<open>persistent\<close> mark. Expiry at any time does not change what can be found at that time.
\<close>

theorem put_value_outcome:
  assumes "(storage_step C)\<^sup>*\<^sup>* empty_storage st" and "wf_owned v" and "v_getId C v = Some i" and "st_getValue t i st = Inr old"
  shows "((\<exists>x. st_putValue C t v e p u st = Inl x) \<longleftrightarrow> (isMutable v \<and> \<not> v_isValid C v \<or>
      (\<exists>w. old = Some w \<and> isMutable w \<and> (\<not> isMutable v \<or> (v_privateKey w \<noteq> None \<and> v_privateKey v = None) \<or>
        v_sequenceNumber v < v_sequenceNumber w \<or> (0 \<le> e \<and> v_sequenceNumber w \<noteq> e))))) \<and>
    (\<forall>o' st'. st_putValue C t v e p u st = Inr (o', st') \<longrightarrow> o' = old \<and>
      (\<forall>now. alive_at t now \<longrightarrow> st_getValue now i st' = Inr (Some v) \<and> st_getValue now i (st_expire now st') = Inr (Some v)) \<and>
      (\<forall>now j. j \<noteq> i \<longrightarrow> st_getValue now j st' = st_getValue now j st) \<and>
      map_option vr_persistent (map_of (valores st') i) =
        Some (case map_of (valores st) i of None \<Rightarrow> p | Some r \<Rightarrow> vr_persistent r))"
proof -
  have inv: "values_inv C st" using storage_reachable_inv [OF assms(1)] by blast
  have nonneg: "0 \<le> v_sequenceNumber w" if "old = Some w" "isMutable w" for w
    using get_ok [OF inv, of t i] assms(4) that by (auto simp: wf_owned_def wf_value_def isMutable_def)
  have fails: "(\<exists>x. st_putValue C t v e p u st = Inl x) \<longleftrightarrow> (isMutable v \<and> \<not> v_isValid C v \<or>
      (\<exists>w. old = Some w \<and> isMutable w \<and> (\<not> isMutable v \<or> (v_privateKey w \<noteq> None \<and> v_privateKey v = None) \<or>
        v_sequenceNumber v < v_sequenceNumber w \<or> (0 \<le> e \<and> v_sequenceNumber w \<noteq> e))))"
    using nonneg assms(3,4) by (auto simp: st_putValue_def put_check_def split: option.splits)
  have puts: "o' = old \<and>
      (\<forall>now. alive_at t now \<longrightarrow> st_getValue now i st' = Inr (Some v) \<and> st_getValue now i (st_expire now st') = Inr (Some v)) \<and>
      (\<forall>now j. j \<noteq> i \<longrightarrow> st_getValue now j st' = st_getValue now j st) \<and>
      map_option vr_persistent (map_of (valores st') i) = Some (case map_of (valores st) i of None \<Rightarrow> p | Some r \<Rightarrow> vr_persistent r)"
    if p: "st_putValue C t v e p u st = Inr (o', st')" for o' st'
  proof (intro conjI allI impI)
    have c: "o' = old" "st' = st\<lparr>valores := upsert i (value_columns t v p u) value_conflict (valores st)\<rparr>"
      using put_cases [OF p] assms(3,4) by (metis option.inject sum.inject(2))+
    show "o' = old" by (rule c(1))
    show "map_option vr_persistent (map_of (valores st') i) = Some (case map_of (valores st) i of None \<Rightarrow> p | Some r \<Rightarrow> vr_persistent r)"
      by (simp add: c(2) map_of_upsert value_columns_def value_conflict_def split: option.splits)
    have d: "distinct (map fst (valores st'))" using put_inv [OF inv assms(2) p] by (simp add: values_inv_def)
    show "st_getValue now i st' = Inr (Some v)" "st_getValue now i (st_expire now st') = Inr (Some v)" if "alive_at t now" for now
      using put_get(1) [OF assms(2) p assms(3) that] expire_get [OF d] by simp_all
    show "st_getValue now j st' = st_getValue now j st" if "j \<noteq> i" for now j by (rule put_get(2) [OF assms(2) p assms(3) that])
  qed
  show ?thesis using fails puts by blast
qed

theorem put_value_outcome_witness:
  "\<exists>x. st_putValue plain_crypto 2000 (note_value 3) 5 True False one_note = Inl x"
proof -
  have "wf_owned (note_value 5)" "alive_at 1000 2000" by (simp_all add: note_ok alive_at_def)
  then have old: "st_getValue 2000 note_id one_note = Inr (Some (note_value 5))" using put_get(1) [OF _ one_note_put note_ok(2)] by blast
  have wf: "wf_owned (note_value 3)" by (simp add: note_ok)
  have "v_sequenceNumber (note_value 3) < v_sequenceNumber (note_value 5)" "isMutable (note_value 5)" by (simp add: note_value_def, rule note_ok(3))
  then show ?thesis using put_value_outcome [OF one_note_reached wf note_ok(2) old, of 5 True False, THEN conjunct1] by blast
qed

subsection \<open>Peers\<close>

lemma collect_all:
  assumes "\<forall>x \<in> set xs. f x = Inr (g x)"
  shows "collect (map f xs) = Inr (map g xs)"
  using assms by (induction xs) simp_all

text \<open>The peer a row stands for.\<close>

definition peer_at :: "crypto \<Rightarrow> (id \<times> id \<times> id) \<times> peer_row \<Rightarrow> peer_info" where
  "peer_at C kr = (case kr of ((i, n, og), r) \<Rightarrow> projr (row_peer C i n (bytes og) r))"

lemma peers_row:
  assumes "peers_inv C st" and "((i, n, og), r) \<in> set (peers_table st)"
  shows "row_peer C i n (bytes og) r = Inr (peer_at C ((i, n, og), r))" and "p_publicKey (peer_at C ((i, n, og), r)) = i"
    and "p_nodeId (peer_at C ((i, n, og), r)) = n" and "p_origin (peer_at C ((i, n, og), r)) = og"
proof -
  have "map_of (peers_table st) (i, n, og) = Some r" using assms by (auto simp: peers_inv_def)
  then obtain p where "row_peer C i n (bytes og) r = Inr p" "p_publicKey p = i" "p_nodeId p = n" "p_origin p = og"
    using assms(1) unfolding peers_inv_def peer_row_ok_def by fastforce
  then show "row_peer C i n (bytes og) r = Inr (peer_at C ((i, n, og), r))" "p_publicKey (peer_at C ((i, n, og), r)) = i"
    "p_nodeId (peer_at C ((i, n, og), r)) = n" "p_origin (peer_at C ((i, n, og), r)) = og" by (simp_all add: peer_at_def)
qed

lemma row_peer_no_origin:
  "row_peer C i n (bytes og) r = Inr p \<Longrightarrow> row_peer C i n [] r = Inr (p\<lparr>p_origin := n\<rparr>)"
  by (auto simp: row_peer_def peer_of_def split: if_splits)

definition live_rows :: "u64 \<Rightarrow> id \<Rightarrow> storage \<Rightarrow> ((id \<times> id \<times> id) \<times> peer_row) list" where
  "live_rows now i st = filter (\<lambda>((j, n, og), r). j = i \<and> pr_timestamp r \<ge> cutoff now MAX_PEER_AGE) (peers_table st)"

lemma getPeers_eq:
  assumes "peers_inv C st" and "\<forall>xs. mset (shuffle xs) = mset xs"
  shows "st_getPeers C now shuffle i m st =
    Inr (map (peer_at C) (take (nat (if m \<le> 0 then 0x7fffffff else m)) (shuffle (live_rows now i st))))"
proof -
  have "set (shuffle xs) = set xs" for xs using assms(2) by (metis set_mset_mset)
  then have "row_peer C i n (bytes og) r = Inr (peer_at C ((j, n, og), r))"
    if "((j, n, og), r) \<in> set (take k (shuffle (live_rows now i st)))" for j n og r k
    using peers_row(1) [OF assms(1), of j n og r] set_take_subset that by (force simp: live_rows_def)
  then show ?thesis unfolding st_getPeers_def live_rows_def Let_def by (intro collect_all) (auto split: prod.splits)
qed

lemma putPeer_row:
  assumes "wf_owned_peer C p" and "peers_inv C st"
  shows "((p_publicKey p, p_nodeId p, p_origin p), peer_columns t p b u) \<in> set (peers_table (st_putPeer t p b u st))"
    and "peer_at C ((p_publicKey p, p_nodeId p, p_origin p), peer_columns t p b u) = p"
proof -
  have "map_of (peers_table (st_putPeer t p b u st)) (p_publicKey p, p_nodeId p, p_origin p) = Some (peer_columns t p b u)"
    by (simp add: st_putPeer_def map_of_upsert split: option.splits)
  then show "((p_publicKey p, p_nodeId p, p_origin p), peer_columns t p b u) \<in> set (peers_table (st_putPeer t p b u st))" by (rule map_of_SomeD)
  show "peer_at C ((p_publicKey p, p_nodeId p, p_origin p), peer_columns t p b u) = p"
    using row_peer_columns(1) [OF assms(1)] by (simp add: peer_at_def)
qed

text \<open>
  A peer that was put is found for two hours: \<^verbatim>\<open>getPeer\<close> without a limit returns it, and every peer it returns is
  registered under the identifier asked for; with a limit it returns at most that many of the same peers.
\<close>

theorem peers_found:
  assumes "(storage_step C)\<^sup>*\<^sup>* empty_storage st" and "wf_owned_peer C p" and "alive_at t now"
    and "\<forall>xs. mset (shuffle xs) = mset xs" and "length (peers_table st) < 0x7fffffff"
  shows "\<exists>ps. st_getPeers C now shuffle (p_publicKey p) 0 (st_putPeer t p b u st) = Inr ps \<and> p \<in> set ps \<and>
    (\<forall>q \<in> set ps. p_publicKey q = p_publicKey p) \<and>
    (0 < m \<longrightarrow> (\<exists>qs. st_getPeers C now shuffle (p_publicKey p) m (st_putPeer t p b u st) = Inr qs \<and> length qs \<le> nat m \<and> set qs \<subseteq> set ps))"
proof -
  define st' where "st' = st_putPeer t p b u st"
  define rows where "rows = shuffle (live_rows now (p_publicKey p) st')"
  have inv0: "peers_inv C st" using storage_reachable_inv [OF assms(1)] by blast
  have inv: "peers_inv C st'" using putPeer_inv [OF inv0 assms(2)] by (simp add: st'_def)
  have rows: "mset rows = mset (live_rows now (p_publicKey p) st')" using assms(4) by (simp add: rows_def)
  then have sets: "set rows = set (live_rows now (p_publicKey p) st')" by (metis set_mset_mset)
  have "length (peers_table st') \<le> Suc (length (peers_table st))" by (simp add: st'_def st_putPeer_def upsert_def)
  moreover have "length rows \<le> length (peers_table st')" using mset_eq_length [OF rows] by (simp add: live_rows_def)
  ultimately have len: "length rows \<le> nat 0x7fffffff" using assms(5) by simp
  have "((p_publicKey p, p_nodeId p, p_origin p), peer_columns t p b u) \<in> set rows"
    using putPeer_row(1) [OF assms(2) inv0] alive_cutoff(2) [OF assms(3)] unfolding sets live_rows_def st'_def by (auto simp: peer_columns_def)
  then have "p \<in> peer_at C ` set rows" using putPeer_row(2) [OF assms(2) inv0] by (metis image_eqI)
  moreover have "p_publicKey (peer_at C e) = p_publicKey p" if "e \<in> set rows" for e
    using that peers_row(2) [OF inv] unfolding sets live_rows_def by auto
  moreover have "st_getPeers C now shuffle (p_publicKey p) 0 st' = Inr (map (peer_at C) rows)"
    using getPeers_eq [OF inv assms(4), of now "p_publicKey p" 0] len by (simp add: rows_def)
  moreover have "st_getPeers C now shuffle (p_publicKey p) m st' = Inr (map (peer_at C) (take (nat m) rows))" if "0 < m"
    using getPeers_eq [OF inv assms(4), of now "p_publicKey p" m] that by (simp add: rows_def)
  moreover have "set (map (peer_at C) (take (nat m) rows)) \<subseteq> set (map (peer_at C) rows)" using set_take_subset by fastforce
  ultimately show ?thesis unfolding st'_def [symmetric] by (intro exI [of _ "map (peer_at C) rows"]) auto
qed

definition web_peer :: peer_info where
  "web_peer = \<lparr>p_publicKey = MAX_ID, p_privateKey = None, p_nodeId = zero_id, p_origin = MAX_ID, p_port = 80,
     p_alternativeURL = None, p_signature = replicate 64 1\<rparr>"

lemma web_peer_ok: "wf_owned_peer plain_crypto web_peer"
  by (simp add: web_peer_def wf_owned_peer_def wf_peer_def url_of_def c_string_def)

theorem peers_found_witness:
  "\<exists>ps. st_getPeers plain_crypto 2000 rev MAX_ID 0 (st_putPeer 1000 web_peer False False empty_storage) = Inr ps \<and> web_peer \<in> set ps \<and>
    (\<exists>qs. st_getPeers plain_crypto 2000 rev MAX_ID 8 (st_putPeer 1000 web_peer False False empty_storage) = Inr qs \<and> length qs \<le> 8)"
proof -
  have r: "(storage_step plain_crypto)\<^sup>*\<^sup>* empty_storage empty_storage" by simp
  have a: "alive_at 1000 2000" by (simp add: alive_at_def)
  have s: "\<forall>xs. mset (rev xs) = mset xs" by simp
  have l: "length (peers_table empty_storage) < 0x7fffffff" by (simp add: empty_storage_def)
  have m: "p_publicKey web_peer = MAX_ID" by (simp add: web_peer_def)
  show ?thesis using peers_found [OF r web_peer_ok a s l, of False False 8] unfolding m by auto
qed

text \<open>
  Two ways to lose a peer that was registered as persistent. \<^verbatim>\<open>getPersistentPeers\<close>, from which the node re-announces
  its peers, returns none of them as delegated: the origin of a delegated peer is replaced by its node. And a later
  \<^verbatim>\<open>putPeer\<close> of the same peer, as for an announcement that comes from the network, clears the mark.
\<close>

theorem persistent_peer_lost:
  assumes "(storage_step C)\<^sup>*\<^sup>* empty_storage st" and "wf_owned_peer C p" and "0 \<le> sint before"
  shows "(\<exists>ps. st_getPersistentPeers C before (st_putPeer t p True False st) = Inr ps \<and> p\<lparr>p_origin := p_nodeId p\<rparr> \<in> set ps \<and>
      (\<forall>q \<in> set ps. \<not> isDelegated q)) \<and>
    (\<exists>r. map_of (peers_table (st_putPeer t' p False False (st_putPeer t p True False st))) (p_publicKey p, p_nodeId p, p_origin p) = Some r \<and>
      \<not> pr_persistent r)"
proof -
  define st' where "st' = st_putPeer t p True False st"
  define g where "g = (\<lambda>e. (peer_at C e)\<lparr>p_origin := p_nodeId (peer_at C e)\<rparr>)"
  define rows where "rows = filter (\<lambda>(k, r). pr_persistent r \<and> pr_announced r \<le> sint before) (peers_table st')"
  have inv0: "peers_inv C st" using storage_reachable_inv [OF assms(1)] by blast
  have inv: "peers_inv C st'" using putPeer_inv [OF inv0 assms(2)] by (simp add: st'_def)
  have "row_peer C i n [] r = Inr (g ((i, n, og), r))" if "((i, n, og), r) \<in> set rows" for i n og r
    using peers_row [OF inv, of i n og r] row_peer_no_origin that by (auto simp: g_def rows_def)
  then have "st_getPersistentPeers C before st' = Inr (map g rows)"
    unfolding st_getPersistentPeers_def rows_def [symmetric] by (intro collect_all) (auto split: prod.splits)
  moreover have "((p_publicKey p, p_nodeId p, p_origin p), peer_columns t p True False) \<in> set rows"
    using putPeer_row(1) [OF assms(2) inv0, of t True False] assms(3) unfolding rows_def st'_def by (simp add: peer_columns_def)
  then have "p\<lparr>p_origin := p_nodeId p\<rparr> \<in> g ` set rows"
    by (rule image_eqI [rotated]) (simp add: g_def putPeer_row(2) [OF assms(2) inv0])
  moreover have "\<not> isDelegated (g e)" for e by (simp add: g_def isDelegated_def)
  moreover have "\<exists>r. map_of (peers_table (st_putPeer t' p False False st')) (p_publicKey p, p_nodeId p, p_origin p) = Some r \<and> \<not> pr_persistent r"
    by (simp add: st_putPeer_def map_of_upsert peer_columns_def split: option.splits)
  ultimately show ?thesis unfolding st'_def [symmetric] by auto
qed

theorem persistent_peer_lost_witness:
  "isDelegated web_peer \<and>
   (\<exists>ps. st_getPersistentPeers plain_crypto 2000 (st_putPeer 1000 web_peer True False empty_storage) = Inr ps \<and>
      web_peer\<lparr>p_origin := p_nodeId web_peer\<rparr> \<in> set ps \<and> filter isDelegated ps = []) \<and>
   (\<exists>r. map_of (peers_table (st_putPeer 1500 web_peer False False (st_putPeer 1000 web_peer True False empty_storage)))
      (p_publicKey web_peer, p_nodeId web_peer, p_origin web_peer) = Some r \<and> \<not> pr_persistent r)"
proof -
  have r: "(storage_step plain_crypto)\<^sup>*\<^sup>* empty_storage empty_storage" by simp
  have b: "0 \<le> sint (2000 :: u64)" by simp
  have d: "isDelegated web_peer" by (simp add: isDelegated_def web_peer_def)
  show ?thesis using d persistent_peer_lost [OF r web_peer_ok b, of 1000 1500] by (auto simp: filter_empty_conv)
qed

end
