(* ===== verification/Tasks.thy ===== *)
theory Tasks
  imports Lookups Storage
begin

text \<open>
  The other tasks: announcing a value or a peer to the nodes a lookup has found (\<^verbatim>\<open>task/value_announce.cc\<close>,
  \<^verbatim>\<open>task/peer_announce.cc\<close>), which shares the state machine of \<^verbatim>\<open>task/task.cc\<close> with the lookups; the queue of tasks
  (\<^verbatim>\<open>task/task_manager.cc\<close>); and what the lookups accept as a result and the DHT keeps of it (\<^verbatim>\<open>task/value_lookup.cc\<close>,
  \<^verbatim>\<open>task/peer_lookup.cc\<close> and the handlers in \<^verbatim>\<open>dht.cc\<close>). A pending call is represented by its target.
\<close>

section \<open>Announcements\<close>

datatype announce_kind = ValueAnnounce | PeerAnnounce

record 'a announce =
  an_state :: task_state
  an_startTime :: u64
  an_finishTime :: u64
  an_todo :: "'a list"
  an_inFlight :: "'a list"
  an_asked :: "'a list" \<comment> \<open>the nodes a request was sent to\<close>
  an_notified :: nat

text \<open>The constructors queue the entries of the closest set.\<close>

definition mk_announce :: "'a list \<Rightarrow> 'a announce" where
  "mk_announce entries = \<lparr>an_state = INITIAL, an_startTime = 0, an_finishTime = 0, an_todo = entries, an_inFlight = [], an_asked = [], an_notified = 0\<rparr>"

definition an_isFinished :: "'a announce \<Rightarrow> bool" where
  "an_isFinished t \<longleftrightarrow> an_state t = FINISHED \<or> an_state t = CANCELED"

definition an_canDoRequest :: "'a announce \<Rightarrow> bool" where
  "an_canDoRequest t \<longleftrightarrow> length (an_inFlight t) < MAX_CONCURRENT_TASK_REQUESTS"

text \<open>\<^verbatim>\<open>isDone\<close> differs: the announcement of a peer does not wait for its calls.\<close>

fun an_isDone :: "announce_kind \<Rightarrow> 'a announce \<Rightarrow> bool" where
  "an_isDone ValueAnnounce t \<longleftrightarrow> an_todo t = [] \<and> (an_inFlight t = [] \<or> an_isFinished t)"
| "an_isDone PeerAnnounce t \<longleftrightarrow> an_todo t = []"

definition an_end :: "task_state \<Rightarrow> u64 \<Rightarrow> 'a announce \<Rightarrow> 'a announce" where
  "an_end s now t =
     (if an_state t \<in> {INITIAL, QUEUED, RUNNING} then t\<lparr>an_state := s, an_finishTime := now, an_notified := an_notified t + 1\<rparr> else t)"

definition an_finish :: "u64 \<Rightarrow> 'a announce \<Rightarrow> 'a announce" where "an_finish = an_end FINISHED"
definition an_cancel :: "u64 \<Rightarrow> 'a announce \<Rightarrow> 'a announce" where "an_cancel = an_end CANCELED"

function an_update :: "'a announce \<Rightarrow> 'a announce" where
  "an_update t =
     (if an_todo t \<noteq> [] \<and> an_canDoRequest t
      then an_update (t\<lparr>an_todo := tl (an_todo t), an_inFlight := an_inFlight t @ [hd (an_todo t)], an_asked := an_asked t @ [hd (an_todo t)]\<rparr>)
      else t)"
  by pat_completeness auto
termination by (relation "measure (\<lambda>t. length (an_todo t))") auto

declare an_update.simps [simp del]

definition an_serializedUpdate :: "announce_kind \<Rightarrow> u64 \<Rightarrow> 'a announce \<Rightarrow> 'a announce" where
  "an_serializedUpdate k now t =
     (let t1 = (if an_isDone k t then an_finish now t else t) in
      if an_canDoRequest t1 \<and> \<not> an_isFinished t1
      then let t2 = an_update t1 in if an_isDone k t2 then an_finish now t2 else t2
      else t1)"

definition an_start :: "announce_kind \<Rightarrow> u64 \<Rightarrow> 'a announce \<Rightarrow> 'a announce" where
  "an_start k now t =
     (if an_state t \<in> {INITIAL, QUEUED} then an_serializedUpdate k now (t\<lparr>an_state := RUNNING, an_startTime := now\<rparr>) else t)"

text \<open>The end of a call by a response, an error or a time-out: an announcement does nothing with it but go on.\<close>

definition an_callEnded :: "announce_kind \<Rightarrow> u64 \<Rightarrow> 'a \<Rightarrow> 'a announce \<Rightarrow> 'a announce" where
  "an_callEnded k now i t = an_serializedUpdate k now (t\<lparr>an_inFlight := remove1 i (an_inFlight t)\<rparr>)"

section \<open>The queue of tasks\<close>

record manager =
  tm_queued :: "nat list"
  tm_running :: "nat list"
  tm_canceling :: bool
  tm_state :: "nat \<Rightarrow> task_state"
  tm_nested :: "nat \<rightharpoonup> nat"

definition tm_terminal :: "task_state \<Rightarrow> bool" where
  "tm_terminal s \<longleftrightarrow> s = FINISHED \<or> s = CANCELED"

definition tm_add :: "nat \<Rightarrow> bool \<Rightarrow> manager \<Rightarrow> manager" where
  "tm_add t prior m =
     (if tm_canceling m then m
      else if tm_state m t = RUNNING then m\<lparr>tm_running := tm_running m @ [t]\<rparr>
      else if tm_state m t \<noteq> INITIAL then m
      else m\<lparr>tm_state := (tm_state m)(t := QUEUED), tm_queued := (if prior then t # tm_queued m else tm_queued m @ [t])\<rparr>)"

definition canStartTask :: "manager \<Rightarrow> bool" where
  "canStartTask m \<longleftrightarrow> \<not> tm_canceling m \<and> length (tm_running m) \<le> MAX_ACTIVE_TASKS"

definition removeTask :: "nat \<Rightarrow> manager \<Rightarrow> manager" where
  "removeTask t m = m\<lparr>tm_running := filter (\<lambda>u. u \<noteq> t) (tm_running m), tm_queued := filter (\<lambda>u. u \<noteq> t) (tm_queued m)\<rparr>"

text \<open>
  \<open>stays t\<close> says whether task \<open>t\<close> is still running when its \<^verbatim>\<open>start\<close> returns; one that is not has finished and removed itself.
\<close>

definition start_task :: "(nat \<Rightarrow> bool) \<Rightarrow> nat \<Rightarrow> manager \<Rightarrow> manager" where
  "start_task stays t m =
     (if tm_state m t = INITIAL \<or> tm_state m t = QUEUED
      then if stays t then m\<lparr>tm_state := (tm_state m)(t := RUNNING)\<rparr>
           else removeTask t (m\<lparr>tm_state := (tm_state m)(t := FINISHED)\<rparr>)
      else m)"

function tm_dequeue :: "(nat \<Rightarrow> bool) \<Rightarrow> manager \<Rightarrow> manager" where
  "tm_dequeue stays m =
     (if \<not> canStartTask m \<or> tm_queued m = [] then m
      else let t = hd (tm_queued m); m1 = m\<lparr>tm_queued := tl (tm_queued m)\<rparr> in
           if tm_terminal (tm_state m1 t) then tm_dequeue stays m1
           else tm_dequeue stays (start_task stays t (m1\<lparr>tm_running := tm_running m1 @ [t]\<rparr>)))"
  by pat_completeness auto
termination
proof (relation "measure (\<lambda>(stays, m). length (tm_queued m))")
  fix stays m x xa assume a: "\<not> (\<not> canStartTask m \<or> tm_queued m = [])" "x = hd (tm_queued m)" "xa = m\<lparr>tm_queued := tl (tm_queued m)\<rparr>"
  have "length (filter P (tl (tm_queued m))) < length (tm_queued m)" for P
    using a(1) le_imp_less_Suc [OF length_filter_le [of P "tl (tm_queued m)"]] by (cases "tm_queued m") simp_all
  moreover have "length (tl (tm_queued m)) < length (tm_queued m)" using a(1) by (cases "tm_queued m") auto
  ultimately show "((stays, start_task stays x (xa\<lparr>tm_running := tm_running xa @ [x]\<rparr>)), stays, m) \<in> measure (\<lambda>(stays, m). length (tm_queued m))"
    using a(3) by (auto simp: start_task_def removeTask_def)
qed auto

declare tm_dequeue.simps [simp del]

text \<open>Cancelling a task cancels its nested announcement, which has none itself; it does not take a task out of its list.\<close>

definition cancel_one :: "nat \<Rightarrow> manager \<Rightarrow> manager" where
  "cancel_one t m = (if tm_terminal (tm_state m t) then m else m\<lparr>tm_state := (tm_state m)(t := CANCELED)\<rparr>)"

definition cancel_task :: "nat \<Rightarrow> manager \<Rightarrow> manager" where
  "cancel_task t m = (case tm_nested m t of None \<Rightarrow> cancel_one t m | Some u \<Rightarrow> cancel_one u (cancel_one t m))"

definition cancelAll :: "manager \<Rightarrow> manager" where
  "cancelAll m =
     (let m1 = fold cancel_task (tm_queued m) (fold cancel_task (tm_running m) (m\<lparr>tm_canceling := True\<rparr>)) in m1\<lparr>tm_canceling := False\<rparr>)"

section \<open>Results of lookups\<close>

text \<open>What \<^verbatim>\<open>ValueLookup\<close> and \<^verbatim>\<open>PeerLookup\<close> hand on.\<close>

definition value_accepted :: "crypto \<Rightarrow> id \<Rightarrow> int \<Rightarrow> value_record \<Rightarrow> bool" where
  "value_accepted C target expectedSequence v \<longleftrightarrow>
     v_getId C v = Some target \<and> v_isValid C v \<and> \<not> (expectedSequence \<ge> 0 \<and> v_sequenceNumber v < expectedSequence)"

definition peers_accepted :: "crypto \<Rightarrow> peer_info list \<Rightarrow> bool" where
  "peers_accepted C ps \<longleftrightarrow> list_all (p_isValid C) ps"

datatype lookup_option = LOCAL | ARBITRARY | OPTIMISTIC | CONSERVATIVE

text \<open>The handler of \<^verbatim>\<open>DHT::findValue\<close>: the value kept, and whether the lookup is cancelled.\<close>

definition keep_value :: "value_record \<Rightarrow> value_record option \<Rightarrow> value_record option" where
  "keep_value v old =
     (case old of None \<Rightarrow> Some v | Some w \<Rightarrow> if isMutable v \<and> v_sequenceNumber w < v_sequenceNumber v then Some v else Some w)"

definition value_cancels :: "lookup_option \<Rightarrow> value_record \<Rightarrow> bool" where
  "value_cancels opt v \<longleftrightarrow> opt \<noteq> CONSERVATIVE \<or> \<not> isMutable v"

text \<open>The responses of a value lookup in the order they arrive; after a cancellation none is looked at.\<close>

fun find_value :: "crypto \<Rightarrow> id \<Rightarrow> int \<Rightarrow> lookup_option \<Rightarrow> value_record list \<Rightarrow> value_record option \<Rightarrow> value_record option" where
  "find_value C target expected opt [] kept = kept"
| "find_value C target expected opt (v # vs) kept =
     (if \<not> value_accepted C target expected v then find_value C target expected opt vs kept
      else if value_cancels opt v then keep_value v kept
      else find_value C target expected opt vs (keep_value v kept))"

text \<open>The same for \<^verbatim>\<open>DHT::findPeer\<close>; a response with one bad peer is dropped as a whole. The number of peers is
  compared as a \<^verbatim>\<open>size_t\<close>, so a negative \<^verbatim>\<open>expected\<close> is never reached.\<close>

fun find_peers :: "crypto \<Rightarrow> int \<Rightarrow> lookup_option \<Rightarrow> peer_info list list \<Rightarrow> peer_info list \<Rightarrow> peer_info list" where
  "find_peers C expected opt [] kept = kept"
| "find_peers C expected opt (ps # pss) kept =
     (if \<not> peers_accepted C ps then find_peers C expected opt pss kept
      else let kept = kept @ ps in
           if opt \<noteq> CONSERVATIVE \<and> length kept \<ge> unat (word_of_int expected :: u64) then kept else find_peers C expected opt pss kept)"

section \<open>Lemmas\<close>

lemma an_update_eq:
  "an_update t = (let n = MAX_CONCURRENT_TASK_REQUESTS - length (an_inFlight t) in
     t\<lparr>an_todo := drop n (an_todo t), an_inFlight := an_inFlight t @ take n (an_todo t), an_asked := an_asked t @ take n (an_todo t)\<rparr>)"
proof (induction t rule: an_update.induct)
  case (1 t)
  show ?case
  proof (cases "an_todo t \<noteq> [] \<and> an_canDoRequest t")
    case True
    then obtain x xs where x: "an_todo t = x # xs" by (cases "an_todo t") auto
    define m where "m = 9 - length (an_inFlight t)"
    let ?t = "t\<lparr>an_todo := xs, an_inFlight := an_inFlight t @ [x], an_asked := an_asked t @ [x]\<rparr>"
    have "length (an_inFlight t) < 10" using True by (simp add: an_canDoRequest_def)
    then have m: "10 - length (an_inFlight t) = Suc m" by (simp add: m_def)
    have "an_update t = an_update ?t" using True x by (subst an_update.simps) simp
    moreover have "an_update ?t = ?t\<lparr>an_todo := drop m xs, an_inFlight := (an_inFlight t @ [x]) @ take m xs, an_asked := (an_asked t @ [x]) @ take m xs\<rparr>"
      using 1 [OF True] x by (simp add: Let_def m_def)
    ultimately show ?thesis using x m by (simp add: Let_def)
  next
    case False
    then have e: "an_update t = t" by (subst an_update.simps) auto
    have "an_todo t = [] \<or> 10 - length (an_inFlight t) = 0" using False by (auto simp: an_canDoRequest_def)
    then show ?thesis unfolding e by (auto simp: Let_def)
  qed
qed

inductive an_step :: "announce_kind \<Rightarrow> 'a announce \<Rightarrow> 'a announce \<Rightarrow> bool" for k where
  call_ended: "i \<in> set (an_inFlight t) \<Longrightarrow> an_step k t (an_callEnded k now i t)"
| call_stalled: "an_step k t (an_serializedUpdate k now t)"
| canceled: "an_step k t (an_cancel now t)"

text \<open>Between events: the request slots are full while there is work, and a task without pending calls is not running.\<close>

definition an_ok :: "announce_kind \<Rightarrow> 'a list \<Rightarrow> 'a announce \<Rightarrow> bool" where
  "an_ok k xs t \<longleftrightarrow> an_asked t @ an_todo t = xs \<and> length (an_inFlight t) \<le> MAX_CONCURRENT_TASK_REQUESTS \<and>
     mset (an_inFlight t) \<subseteq># mset (an_asked t) \<and> an_notified t = of_bool (an_isFinished t) \<and> an_state t \<in> {RUNNING, FINISHED, CANCELED} \<and>
     (an_state t = FINISHED \<longrightarrow> an_todo t = [] \<and> (k = ValueAnnounce \<longrightarrow> an_inFlight t = []))"

definition an_busy :: "announce_kind \<Rightarrow> 'a announce \<Rightarrow> bool" where
  "an_busy k t \<longleftrightarrow> (an_state t = RUNNING \<longrightarrow> an_inFlight t \<noteq> [])"

lemma serialized_ok:
  assumes "an_ok k xs t"
  shows "an_ok k xs (an_serializedUpdate k now t) \<and> an_busy k (an_serializedUpdate k now t)"
proof (cases "an_isFinished t")
  case True
  then have "an_finish now t = t" by (auto simp: an_finish_def an_end_def an_isFinished_def)
  then have "an_serializedUpdate k now t = t" using True by (simp add: an_serializedUpdate_def Let_def)
  then show ?thesis using assms True by (auto simp: an_busy_def an_isFinished_def)
next
  case False
  then have r: "an_state t = RUNNING" using assms by (auto simp: an_ok_def an_isFinished_def)
  have fin: "an_ok k xs (an_finish now u) \<and> an_busy k (an_finish now u)" if "an_ok k xs u" "an_isDone k u" "an_state u = RUNNING" for u
    using that by (cases k) (auto simp: an_ok_def an_finish_def an_end_def an_isFinished_def an_busy_def)
  show ?thesis
  proof (cases "an_isDone k t")
    case True
    have "an_isFinished (an_finish now t)" using r by (simp add: an_finish_def an_end_def an_isFinished_def)
    then have "an_serializedUpdate k now t = an_finish now t" using True by (simp add: an_serializedUpdate_def Let_def)
    then show ?thesis using fin [OF assms True r] by simp
  next
    case nd: False
    show ?thesis
    proof (cases "an_canDoRequest t")
      case True
      define n where "n = 10 - length (an_inFlight t)"
      have n: "0 < n" using True by (simp add: n_def an_canDoRequest_def)
      have u: "an_update t = t\<lparr>an_todo := drop n (an_todo t), an_inFlight := an_inFlight t @ take n (an_todo t), an_asked := an_asked t @ take n (an_todo t)\<rparr>"
        by (simp add: an_update_eq n_def Let_def)
      have ok: "an_ok k xs (an_update t)" using assms r unfolding u
        by (auto simp: an_ok_def an_isFinished_def n_def intro: subset_mset.add_mono)
      have s: "an_state (an_update t) = RUNNING" using r by (simp add: u)
      have "an_inFlight (an_update t) \<noteq> []" using nd n r by (cases k) (auto simp: u an_isFinished_def)
      then show ?thesis using fin [OF ok _ s] ok nd True False by (auto simp: an_serializedUpdate_def Let_def an_busy_def)
    next
      case False
      then show ?thesis using assms nd by (auto simp: an_serializedUpdate_def Let_def an_busy_def an_canDoRequest_def)
    qed
  qed
qed

lemma an_step_ok:
  assumes "an_step k t t'" and ok: "an_ok k xs t"  and b: "an_busy k t"
  shows "an_ok k xs t' \<and> an_busy k t'"
  using assms(1)
proof cases
  case (call_ended i now)
  have "an_ok k xs (t\<lparr>an_inFlight := remove1 i (an_inFlight t)\<rparr>)"
  proof -
    have "mset (an_inFlight t) - {#i#} \<subseteq># mset (an_asked t)"
      using ok subset_mset.order_trans [OF diff_subset_eq_self [of "mset (an_inFlight t)" "{#i#}"]] by (auto simp: an_ok_def)
    then show ?thesis using ok length_remove1 [of i "an_inFlight t"] by (auto simp: an_ok_def an_isFinished_def)
  qed
  then show ?thesis using call_ended(1) serialized_ok by (auto simp: an_callEnded_def)
next
  case (call_stalled now)
  then show ?thesis using serialized_ok [OF ok] by simp
next
  case (canceled now)
  then show ?thesis using ok b by (auto simp: an_ok_def an_busy_def an_cancel_def an_end_def an_isFinished_def)
qed

lemma an_started_ok: "an_ok k xs (an_start k now (mk_announce xs)) \<and> an_busy k (an_start k now (mk_announce xs))"
proof -
  have "an_ok k xs ((mk_announce xs)\<lparr>an_state := RUNNING, an_startTime := now\<rparr>)" by (simp add: an_ok_def mk_announce_def an_isFinished_def)
  then show ?thesis using serialized_ok by (auto simp: an_start_def mk_announce_def)
qed

lemma an_reachable_ok: "(an_step k)\<^sup>*\<^sup>* t t' \<Longrightarrow> an_ok k xs t \<Longrightarrow> an_busy k t \<Longrightarrow> an_ok k xs t' \<and> an_busy k t'"
  by (induction rule: rtranclp_induct) (auto dest: an_step_ok)

lemma serialized_total:
  "length (an_todo (an_serializedUpdate k now t)) + length (an_inFlight (an_serializedUpdate k now t)) = length (an_todo t) + length (an_inFlight t)"
proof -
  have "length (an_todo (an_update t)) + length (an_inFlight (an_update t)) = length (an_todo t) + length (an_inFlight t)" for t :: "'a announce"
    by (simp add: an_update_eq Let_def)
  moreover have "an_todo (an_finish now t) = an_todo t" "an_inFlight (an_finish now t) = an_inFlight t" for t :: "'a announce"
    by (simp_all add: an_finish_def an_end_def)
  ultimately show ?thesis by (simp add: an_serializedUpdate_def Let_def)
qed

subsection \<open>The queue\<close>

definition tm_ok :: "manager \<Rightarrow> bool" where
  "tm_ok m \<longleftrightarrow> distinct (tm_queued m @ tm_running m) \<and> (\<forall>t \<in> set (tm_queued m). tm_state m t \<noteq> INITIAL \<and> tm_state m t \<noteq> RUNNING) \<and>
     (\<forall>t \<in> set (tm_running m). tm_state m t \<noteq> INITIAL \<and> tm_state m t \<noteq> QUEUED) \<and> length (tm_running m) \<le> Suc MAX_ACTIVE_TASKS"

lemma filter_other: "t \<notin> set xs \<Longrightarrow> filter (\<lambda>u. u \<noteq> t) xs = xs"
  by (induction xs) auto

lemma start_effect:
  assumes "t \<notin> set (tm_running m)" "t \<notin> set (tm_queued m)" "tm_state m t = QUEUED"
  shows "start_task stays t (m\<lparr>tm_running := tm_running m @ [t]\<rparr>) =
    m\<lparr>tm_running := tm_running m @ (if stays t then [t] else []), tm_state := (tm_state m)(t := (if stays t then RUNNING else FINISHED))\<rparr>"
  using assms by (simp add: start_task_def removeTask_def filter_other)

lemma not_terminal: "\<not> tm_terminal s \<longleftrightarrow> s = INITIAL \<or> s = QUEUED \<or> s = RUNNING"
  by (cases s) (simp_all add: tm_terminal_def)

lemma dequeue_effect:
  assumes "tm_ok m"
  shows "tm_ok (tm_dequeue stays m) \<and>
    (\<exists>n. tm_queued (tm_dequeue stays m) = drop n (tm_queued m) \<and>
      tm_running (tm_dequeue stays m) = tm_running m @ filter (\<lambda>t. stays t \<and> \<not> tm_terminal (tm_state m t)) (take n (tm_queued m))) \<and>
    (tm_queued (tm_dequeue stays m) = [] \<or> \<not> canStartTask (tm_dequeue stays m))"
  using assms
proof (induction stays m rule: tm_dequeue.induct)
  case (1 stays m)
  show ?case
  proof (cases "\<not> canStartTask m \<or> tm_queued m = []")
    case True
    then have "tm_dequeue stays m = m" by (subst tm_dequeue.simps) auto
    then show ?thesis using 1(3) True by (auto intro: exI [of _ 0])
  next
    case False
    then obtain t q where q: "tm_queued m = t # q" by (cases "tm_queued m") auto
    let ?m1 = "m\<lparr>tm_queued := q\<rparr>"
    define m2 where "m2 = (if tm_terminal (tm_state m t) then ?m1
      else ?m1\<lparr>tm_running := tm_running m @ (if stays t then [t] else []), tm_state := (tm_state m)(t := (if stays t then RUNNING else FINISHED))\<rparr>)"
    have t: "t \<notin> set q" "t \<notin> set (tm_running m)" "tm_terminal (tm_state m t) \<or> tm_state m t = QUEUED"
      using 1(3) q by (auto simp: tm_ok_def not_terminal)
    have step: "tm_dequeue stays m = tm_dequeue stays m2" and start: "\<not> tm_terminal (tm_state m t) \<Longrightarrow> start_task stays t (?m1\<lparr>tm_running := tm_running ?m1 @ [t]\<rparr>) = m2"
      using False q t start_effect [of t ?m1 stays] by (subst tm_dequeue.simps, auto simp: m2_def)
    have len: "length (tm_running m) \<le> MAX_ACTIVE_TASKS" using False by (simp add: canStartTask_def)
    then have ok: "tm_ok m2" using 1(3) q t by (auto simp: tm_ok_def m2_def tm_terminal_def)
    have IH: "tm_ok (tm_dequeue stays m2) \<and>
      (\<exists>n. tm_queued (tm_dequeue stays m2) = drop n (tm_queued m2) \<and>
        tm_running (tm_dequeue stays m2) = tm_running m2 @ filter (\<lambda>t. stays t \<and> \<not> tm_terminal (tm_state m2 t)) (take n (tm_queued m2))) \<and>
      (tm_queued (tm_dequeue stays m2) = [] \<or> \<not> canStartTask (tm_dequeue stays m2))"
    proof (cases "tm_terminal (tm_state m t)")
      case True
      then show ?thesis using 1(1) [OF False refl refl] q ok by (simp add: m2_def)
    next
      case nt: False
      then show ?thesis using 1(2) [OF False refl refl] q ok start [OF nt] by simp
    qed
    have q2: "tm_queued m2 = q" and same: "\<forall>u \<in> set q. tm_state m2 u = tm_state m u" using t by (auto simp: m2_def)
    have r2: "tm_running m2 = tm_running m @ filter (\<lambda>t. stays t \<and> \<not> tm_terminal (tm_state m t)) [t]" by (simp add: m2_def)
    obtain n where n: "tm_queued (tm_dequeue stays m2) = drop n q"
      "tm_running (tm_dequeue stays m2) = tm_running m2 @ filter (\<lambda>t. stays t \<and> \<not> tm_terminal (tm_state m2 t)) (take n q)" using IH q2 by auto
    have "filter (\<lambda>t. stays t \<and> \<not> tm_terminal (tm_state m2 t)) (take n q) = filter (\<lambda>t. stays t \<and> \<not> tm_terminal (tm_state m t)) (take n q)"
      using same by (intro filter_cong) (auto dest: in_set_takeD)
    then have "tm_queued (tm_dequeue stays m) = drop (Suc n) (tm_queued m) \<and>
      tm_running (tm_dequeue stays m) = tm_running m @ filter (\<lambda>t. stays t \<and> \<not> tm_terminal (tm_state m t)) (take (Suc n) (tm_queued m))"
      using n r2 step q by simp
    then show ?thesis using IH step by auto
  qed
qed

inductive tm_step :: "manager \<Rightarrow> manager \<Rightarrow> bool" where
  added: "tm_state m t \<noteq> RUNNING \<Longrightarrow> tm_step m (tm_add t prior m)"
| dequeued: "tm_step m (tm_dequeue stays m)"
| all_canceled: "tm_step m (cancelAll m)"
| one_canceled: "tm_step m (cancel_task t m)"
| task_ended: "tm_state m t = RUNNING \<Longrightarrow> tm_step m (removeTask t (m\<lparr>tm_state := (tm_state m)(t := FINISHED)\<rparr>))"
| task_removed: "tm_terminal (tm_state m t) \<Longrightarrow> tm_step m (removeTask t m)"

lemma cancel_one_ok: "tm_ok m \<Longrightarrow> tm_ok (cancel_one t m)"
  by (auto simp: tm_ok_def cancel_one_def)

lemma cancel_task_ok: "tm_ok m \<Longrightarrow> tm_ok (cancel_task t m)"
  by (simp add: cancel_task_def cancel_one_ok split: option.splits)

lemma cancel_all_ok: "tm_ok m \<Longrightarrow> tm_ok (fold cancel_task ts m)"
  by (induction ts arbitrary: m) (simp_all add: cancel_task_ok)

lemma remove_ok: "tm_ok m \<Longrightarrow> tm_ok (removeTask t m)"
proof -
  assume ok: "tm_ok m"
  have "length (filter (\<lambda>u. u \<noteq> t) (tm_running m)) \<le> Suc MAX_ACTIVE_TASKS"
    using ok order_trans [OF length_filter_le] unfolding tm_ok_def by blast
  then show ?thesis using ok by (auto simp: tm_ok_def removeTask_def)
qed

lemma tm_step_ok:
  assumes "tm_step m m'" and ok: "tm_ok m"
  shows "tm_ok m'"
  using assms(1)
proof cases
  case (added t prior)
  show ?thesis
  proof (cases "tm_canceling m \<or> tm_state m t \<noteq> INITIAL")
    case True
    then show ?thesis using added ok by (simp add: tm_add_def split: if_splits)
  next
    case False
    then have e: "m' = m\<lparr>tm_state := (tm_state m)(t := QUEUED), tm_queued := (if prior then t # tm_queued m else tm_queued m @ [t])\<rparr>"
      using added by (simp add: tm_add_def)
    have t: "t \<notin> set (tm_queued m)" "t \<notin> set (tm_running m)" using ok False by (auto simp: tm_ok_def)
    have "\<forall>u \<in> set (tm_running m). u \<noteq> t" "\<forall>u \<in> set (tm_queued m). u \<noteq> t" using t by blast+
    then show ?thesis using ok t unfolding e tm_ok_def by simp
  qed
next
  case all_canceled
  have b: "tm_ok (u\<lparr>tm_canceling := b\<rparr>) = tm_ok u" for u b by (simp add: tm_ok_def)
  have "tm_ok (cancelAll m)" unfolding cancelAll_def Let_def b by (intro cancel_all_ok) (simp add: b ok)
  then show ?thesis using all_canceled by simp
next
  case (task_ended t)
  have "tm_ok (m\<lparr>tm_state := (tm_state m)(t := FINISHED)\<rparr>)" using ok by (auto simp: tm_ok_def)
  then show ?thesis using task_ended remove_ok by simp
next
  case (dequeued stays)
  then show ?thesis using dequeue_effect [OF ok, of stays] by simp
next
  case (one_canceled t)
  then show ?thesis using cancel_task_ok [OF ok] by simp
next
  case (task_removed t)
  then show ?thesis using remove_ok [OF ok] by simp
qed

lemma tm_reachable_ok: "tm_step\<^sup>*\<^sup>* m m' \<Longrightarrow> tm_ok m \<Longrightarrow> tm_ok m'"
  by (induction rule: rtranclp_induct) (auto dest: tm_step_ok)

section \<open>Properties\<close>

text \<open>A peer announcement with at most ten nodes has sent all its requests and is finished as soon as it is started.\<close>

lemma peer_announce_at_once:
  assumes "length xs \<le> MAX_CONCURRENT_TASK_REQUESTS"
  shows "an_state (an_start PeerAnnounce now (mk_announce xs)) = FINISHED \<and> an_inFlight (an_start PeerAnnounce now (mk_announce xs)) = xs"
proof (cases xs)
  case Nil
  then show ?thesis by (simp add: an_start_def mk_announce_def an_serializedUpdate_def an_finish_def an_end_def an_isFinished_def)
next
  case Cons
  then show ?thesis using assms
    by (auto simp: an_start_def mk_announce_def an_serializedUpdate_def an_finish_def an_end_def an_isFinished_def an_canDoRequest_def an_update_eq Let_def)
qed

lemma call_ended_total:
  assumes "i \<in> set (an_inFlight t)"
  shows "length (an_todo (an_callEnded k now i t)) + length (an_inFlight (an_callEnded k now i t)) < length (an_todo t) + length (an_inFlight t)"
  using assms length_pos_if_in_set [OF assms] by (simp add: an_callEnded_def serialized_total length_remove1)

text \<open>
  C9: In every state an announcement reaches, the nodes asked and the nodes left are the closest set it was made for, in its order; at most ten
  calls are pending, all of them to nodes asked; the listeners have been told once if it is over and not at all otherwise; while it runs a call
  is pending, and every call that ends lowers the work left. When it has finished every node was asked; the announcement of a value then has no
  pending call, while that of a peer to at most ten nodes is finished before any node can have answered.
\<close>

theorem announce_asks_all:
  assumes "(an_step k)\<^sup>*\<^sup>* (an_start k now (mk_announce xs)) t"
  shows "an_asked t @ an_todo t = xs \<and> length (an_inFlight t) \<le> MAX_CONCURRENT_TASK_REQUESTS \<and>
    mset (an_inFlight t) \<subseteq># mset (an_asked t) \<and> an_notified t = of_bool (an_isFinished t) \<and>
    (an_state t = RUNNING \<longrightarrow> an_inFlight t \<noteq> []) \<and>
    (\<forall>i \<in> set (an_inFlight t). length (an_todo (an_callEnded k now' i t)) + length (an_inFlight (an_callEnded k now' i t))
       < length (an_todo t) + length (an_inFlight t)) \<and>
    (an_state t = FINISHED \<longrightarrow> an_asked t = xs \<and> (k = ValueAnnounce \<longrightarrow> an_inFlight t = [])) \<and>
    (length xs \<le> MAX_CONCURRENT_TASK_REQUESTS \<longrightarrow> an_state (an_start PeerAnnounce now (mk_announce xs)) = FINISHED \<and>
       an_inFlight (an_start PeerAnnounce now (mk_announce xs)) = xs)"
proof -
  have "an_ok k xs t \<and> an_busy k t" using an_reachable_ok [OF assms] an_started_ok [of k xs now] by blast
  then show ?thesis using call_ended_total [of _ t k now'] peer_announce_at_once [of xs now] by (auto simp: an_ok_def an_busy_def)
qed

definition announced :: "nat announce" where
  "announced = an_callEnded ValueAnnounce 7 1 (an_callEnded ValueAnnounce 6 2 (an_start ValueAnnounce 5 (mk_announce [1, 2])))"

theorem announce_asks_all_witness:
  "an_asked announced @ an_todo announced = [1, 2] \<and> an_state announced = FINISHED \<and> an_inFlight announced = [] \<and>
   an_notified announced = of_bool (an_isFinished announced)"
proof -
  let ?s = "an_start ValueAnnounce 5 (mk_announce [1, 2 :: nat])"
  have s: "?s = \<lparr>an_state = RUNNING, an_startTime = 5, an_finishTime = 0, an_todo = [], an_inFlight = [1, 2], an_asked = [1, 2], an_notified = 0\<rparr>"
    by (simp add: an_start_def mk_announce_def an_serializedUpdate_def an_isFinished_def an_canDoRequest_def an_update_eq Let_def)
  have u: "an_callEnded ValueAnnounce 6 2 ?s = \<lparr>an_state = RUNNING, an_startTime = 5, an_finishTime = 0, an_todo = [], an_inFlight = [1], an_asked = [1, 2], an_notified = 0\<rparr>"
    unfolding s by (simp add: an_callEnded_def an_serializedUpdate_def an_isFinished_def an_canDoRequest_def an_update_eq Let_def)
  have v: "an_state announced = FINISHED"
    unfolding announced_def u by (simp add: an_callEnded_def an_serializedUpdate_def an_isFinished_def an_finish_def an_end_def)
  have "an_step ValueAnnounce ?s (an_callEnded ValueAnnounce 6 2 ?s)" by (rule call_ended, unfold s) simp
  moreover have "an_step ValueAnnounce (an_callEnded ValueAnnounce 6 2 ?s) announced" unfolding announced_def by (rule call_ended, unfold u) simp
  ultimately have "(an_step ValueAnnounce)\<^sup>*\<^sup>* ?s announced" by (meson converse_rtranclp_into_rtranclp rtranclp.rtrancl_refl)
  then show ?thesis using announce_asks_all [of ValueAnnounce 5 "[1, 2]" announced 8] v by auto
qed

text \<open>
  In every state the task manager reaches from an empty one, no task is listed twice and at most seventeen tasks run, one more than the constant;
  \<^verbatim>\<open>dequeue\<close> starts tasks from the front of the queue, in their order, skipping those that are over, and stops only when the queue is empty or no
  task may be started.
\<close>

theorem task_queue_fifo:
  assumes "tm_step\<^sup>*\<^sup>* \<lparr>tm_queued = [], tm_running = [], tm_canceling = False, tm_state = (\<lambda>_. INITIAL), tm_nested = nested\<rparr> m"
  shows "distinct (tm_queued m @ tm_running m) \<and> length (tm_running m) \<le> MAX_ACTIVE_TASKS + 1 \<and>
    (\<exists>n. tm_queued (tm_dequeue stays m) = drop n (tm_queued m) \<and>
      tm_running (tm_dequeue stays m) = tm_running m @ filter (\<lambda>t. stays t \<and> \<not> tm_terminal (tm_state m t)) (take n (tm_queued m))) \<and>
    (tm_queued (tm_dequeue stays m) = [] \<or> \<not> canStartTask (tm_dequeue stays m))"
proof -
  have ok: "tm_ok m" using tm_reachable_ok [OF assms] by (simp add: tm_ok_def)
  then show ?thesis using dequeue_effect [OF ok, of stays] unfolding tm_ok_def by simp
qed

theorem task_queue_fifo_witness:
  "tm_queued (tm_dequeue (\<lambda>t. t \<noteq> 7) (tm_add 3 False (tm_add 7 False \<lparr>tm_queued = [], tm_running = [], tm_canceling = False, tm_state = (\<lambda>_. INITIAL), tm_nested = Map.empty\<rparr>))) = [] \<and>
   tm_running (tm_dequeue (\<lambda>t. t \<noteq> 7) (tm_add 3 False (tm_add 7 False \<lparr>tm_queued = [], tm_running = [], tm_canceling = False, tm_state = (\<lambda>_. INITIAL), tm_nested = Map.empty\<rparr>))) = [3]"
proof -
  let ?e = "\<lparr>tm_queued = [], tm_running = [], tm_canceling = False, tm_state = (\<lambda>_. INITIAL), tm_nested = Map.empty\<rparr>"
  let ?m = "tm_add 3 False (tm_add 7 False ?e)"
  have "tm_step ?e (tm_add 7 False ?e)" "tm_step (tm_add 7 False ?e) ?m" by (rule added, simp add: tm_add_def)+
  then have r: "tm_step\<^sup>*\<^sup>* ?e ?m" by (meson converse_rtranclp_into_rtranclp rtranclp.rtrancl_refl)
  have m: "tm_queued ?m = [7, 3]" "tm_running ?m = []" "\<not> tm_canceling ?m" "tm_state ?m 7 = QUEUED" "tm_state ?m 3 = QUEUED" by (simp_all add: tm_add_def)
  note p = task_queue_fifo [OF r, of "\<lambda>t. t \<noteq> 7"]
  have c: "tm_canceling (tm_dequeue (\<lambda>t. t \<noteq> 7) ?m) = tm_canceling ?m"
    by (simp add: tm_dequeue.simps tm_add_def canStartTask_def start_task_def removeTask_def tm_terminal_def Let_def)
  obtain n where n: "tm_queued (tm_dequeue (\<lambda>t. t \<noteq> 7) ?m) = drop n [7, 3]"
    "tm_running (tm_dequeue (\<lambda>t. t \<noteq> 7) ?m) = filter (\<lambda>t. t \<noteq> 7 \<and> \<not> tm_terminal (tm_state ?m t)) (take n [7, 3])" using p m by auto
  have "length (tm_running (tm_dequeue (\<lambda>t. t \<noteq> 7) ?m)) \<le> 2" unfolding n(2) by (rule order_trans [OF length_filter_le]) simp
  then have "tm_queued (tm_dequeue (\<lambda>t. t \<noteq> 7) ?m) = []" using p c m(3) by (auto simp: canStartTask_def)
  then have "n \<ge> 2" using n(1) by simp
  then show ?thesis using n m by (simp add: tm_terminal_def)
qed

lemma find_value_first:
  assumes "opt \<noteq> CONSERVATIVE"
  shows "find_value C target expected opt vs None = List.find (value_accepted C target expected) vs"
  using assms by (induction vs) (simp_all add: value_cancels_def keep_value_def)

lemma find_value_kept:
  assumes "find_value C target expected opt vs kept = r"
  shows "(r = None \<longleftrightarrow> kept = None \<and> filter (value_accepted C target expected) vs = []) \<and>
    (\<forall>v. r = Some v \<longrightarrow> kept = Some v \<or> v \<in> set (filter (value_accepted C target expected) vs))"
  using assms
proof (induction vs arbitrary: kept)
  case (Cons w vs)
  have k: "keep_value w kept \<noteq> None" "keep_value w kept = Some w \<or> keep_value w kept = kept"
    by (auto simp: keep_value_def split: option.splits)
  then show ?case using Cons.IH [of kept] Cons.IH [of "keep_value w kept"] Cons.prems by (auto split: if_splits)
qed simp

lemma find_value_max:
  assumes "list_all isMutable (filter (value_accepted C target expected) vs)"
    and "find_value C target expected CONSERVATIVE vs kept = Some v"
  shows "list_all (\<lambda>w. v_sequenceNumber w \<le> v_sequenceNumber v) (filter (value_accepted C target expected) vs) \<and>
    (\<forall>w. kept = Some w \<longrightarrow> v_sequenceNumber w \<le> v_sequenceNumber v)"
  using assms
proof (induction vs arbitrary: kept)
  case (Cons w vs)
  show ?case
  proof (cases "value_accepted C target expected w")
    case True
    then have "isMutable w" using Cons.prems(1) by simp
    define u where "u = the (keep_value w kept)"
    have u: "keep_value w kept = Some u" "v_sequenceNumber w \<le> v_sequenceNumber u" "kept = Some x \<Longrightarrow> v_sequenceNumber x \<le> v_sequenceNumber u" for x
      using \<open>isMutable w\<close> by (auto simp: u_def keep_value_def split: option.splits)
    have "find_value C target expected CONSERVATIVE vs (Some u) = Some v" using Cons.prems True \<open>isMutable w\<close> u(1) by (simp add: value_cancels_def)
    then show ?thesis using Cons.IH [of "Some u"] Cons.prems(1) True u(2,3) by (fastforce intro: order_trans)
  next
    case False
    then show ?thesis using Cons by simp
  qed
qed simp

text \<open>
  C11: A lookup of a value reports nothing only if no answer held a value with the identifier asked for, a good signature and a recent enough sequence
  number; otherwise it reports such a value. Asked to be conservative it reports one with the largest sequence number of all the answers, otherwise
  the first. A peer lookup reports valid peers only.
\<close>

theorem find_value_newest:
  "(find_value C target expected opt vs None = None \<longleftrightarrow> filter (value_accepted C target expected) vs = []) \<and>
   (find_value C target expected opt vs None = Some v \<longrightarrow> v \<in> set vs \<and> v_getId C v = Some target \<and> v_isValid C v \<and>
     (0 \<le> expected \<longrightarrow> expected \<le> v_sequenceNumber v)) \<and>
   (opt \<noteq> CONSERVATIVE \<longrightarrow> find_value C target expected opt vs None = List.find (value_accepted C target expected) vs) \<and>
   (find_value C target expected CONSERVATIVE vs None = Some v \<and> list_all isMutable (filter (value_accepted C target expected) vs) \<longrightarrow>
     list_all (\<lambda>w. v_sequenceNumber w \<le> v_sequenceNumber v) (filter (value_accepted C target expected) vs)) \<and>
   list_all (p_isValid C) (find_peers C n opt pss [])"
proof -
  have "list_all (p_isValid C) kept \<Longrightarrow> list_all (p_isValid C) (find_peers C n opt pss kept)" for kept
    by (induction pss arbitrary: kept) (auto simp: peers_accepted_def Let_def)
  then have "list_all (p_isValid C) (find_peers C n opt pss [])" by simp
  moreover have "find_value C target expected opt vs None = None \<longleftrightarrow> filter (value_accepted C target expected) vs = []"
    using find_value_kept [of C target expected opt vs None] by simp
  moreover have "v \<in> set (filter (value_accepted C target expected) vs)" if "find_value C target expected opt vs None = Some v"
    using find_value_kept [OF that] by simp
  moreover note find_value_first [of opt C target expected vs] find_value_max [of C target expected vs None v]
  ultimately show ?thesis by (auto simp: value_accepted_def)
qed

theorem find_value_newest_witness:
  "find_value plain_crypto note_id 1 CONSERVATIVE [note_value 0, note_value 1, note_value 5, note_value 3] None = Some (note_value 5) \<and>
   list_all (\<lambda>w. v_sequenceNumber w \<le> 5) (filter (value_accepted plain_crypto note_id 1) [note_value 0, note_value 1, note_value 5, note_value 3]) \<and>
   list_all (p_isValid plain_crypto) (find_peers plain_crypto 1 CONSERVATIVE [] [])"
proof -
  have seq: "v_sequenceNumber (note_value n) = n" for n by (simp add: note_value_def)
  have acc: "value_accepted plain_crypto note_id 1 (note_value n) \<longleftrightarrow> 1 \<le> n" for n
    using note_ok(2) by (auto simp: value_accepted_def seq v_isValid_def note_value_def plain_crypto_def)
  have f: "find_value plain_crypto note_id 1 CONSERVATIVE [note_value 0, note_value 1, note_value 5, note_value 3] None = Some (note_value 5)"
    by (simp add: acc value_cancels_def keep_value_def note_ok(3) seq)
  have "list_all isMutable (filter (value_accepted plain_crypto note_id 1) [note_value 0, note_value 1, note_value 5, note_value 3])"
    by (simp add: acc note_ok(3))
  then show ?thesis using find_value_newest [of plain_crypto note_id 1 CONSERVATIVE "[note_value 0, note_value 1, note_value 5, note_value 3]" "note_value 5" 1 "[]"] f
    by (simp add: seq)
qed

end
