(* ===== verification/Announcing.thy ===== *)
theory Announcing
  imports Tasks
begin

text \<open>
  Storing a value and announcing a peer, \<^verbatim>\<open>DHT::storeValue\<close> and \<^verbatim>\<open>DHT::announcePeer\<close> of \<^verbatim>\<open>dht.cc\<close>: a node lookup that collects tokens, followed by
  an announcement to the nodes it found. Both functions have the same listeners. The closest set is captured by value when the lookup ends;
  \<open>sx_reported\<close> are the calls of the completion handler.
\<close>

record store_task =
  sx_lookup :: lookup_task
  sx_closest :: "candidate_node list"
  sx_nested :: "candidate_node announce option"
  sx_reported :: "candidate_node list list"

definition mk_store :: "id \<Rightarrow> store_task" where
  "mk_store target = \<lparr>sx_lookup = mk_lookup target, sx_closest = [], sx_nested = None, sx_reported = []\<rparr>"

text \<open>The listener of the lookup.\<close>

definition lookup_ended :: "store_task \<Rightarrow> store_task" where
  "lookup_ended s =
     (if lt_state (sx_lookup s) \<noteq> FINISHED then s
      else let entries = cs_map (closestSet (sx_lookup s)) in
           if entries = [] then s\<lparr>sx_reported := sx_reported s @ [[]]\<rparr>
           else s\<lparr>sx_closest := entries, sx_nested := Some (mk_announce entries)\<rparr>)"

text \<open>The listener of the announcement.\<close>

definition announce_ended :: "store_task \<Rightarrow> store_task" where
  "announce_ended s = s\<lparr>sx_reported := sx_reported s @ [sx_closest s]\<rparr>"

text \<open>A listener runs when its task becomes terminal.\<close>

definition look :: "lookup_task \<Rightarrow> store_task \<Rightarrow> store_task" where
  "look t s = (let s' = s\<lparr>sx_lookup := t\<rparr> in if isFinished t \<and> \<not> isFinished (sx_lookup s) then lookup_ended s' else s')"

definition advance :: "candidate_node announce \<Rightarrow> candidate_node announce \<Rightarrow> store_task \<Rightarrow> store_task" where
  "advance a a' s = (let s' = s\<lparr>sx_nested := Some a'\<rparr> in if an_isFinished a' \<and> \<not> an_isFinished a then announce_ended s' else s')"

definition sx_cancel :: "u64 \<Rightarrow> store_task \<Rightarrow> store_task" where
  "sx_cancel now s =
     (let s1 = look (t_cancel now (sx_lookup s)) s in
      case sx_nested s1 of None \<Rightarrow> s1 | Some a \<Rightarrow> advance a (an_cancel now a) s1)"

inductive store_step :: "announce_kind \<Rightarrow> id \<Rightarrow> (sockaddr \<Rightarrow> bool) \<Rightarrow> store_task \<Rightarrow> store_task \<Rightarrow> bool" for k selfId isSelf where
  sx_look: "lookup_step selfId isSelf (sx_lookup s) t \<Longrightarrow> store_step k selfId isSelf s (look t s)"
| sx_begin: "sx_nested s = Some a \<Longrightarrow> an_state a = INITIAL \<Longrightarrow> store_step k selfId isSelf s (advance a (an_start k now a) s)"
| sx_go: "sx_nested s = Some a \<Longrightarrow> an_state a \<noteq> INITIAL \<Longrightarrow> an_step k a a' \<Longrightarrow> store_step k selfId isSelf s (advance a a' s)"
| sx_stop: "store_step k selfId isSelf s (sx_cancel now s)"

section \<open>The invariant\<close>

definition nested_ok :: "announce_kind \<Rightarrow> candidate_node list \<Rightarrow> candidate_node announce \<Rightarrow> bool" where
  "nested_ok k xs a \<longleftrightarrow> (if an_state a = INITIAL then a = mk_announce xs else an_ok k xs a \<and> an_busy k a)"

definition store_inv :: "announce_kind \<Rightarrow> store_task \<Rightarrow> bool" where
  "store_inv k s \<longleftrightarrow>
     (case sx_nested s of
        None \<Rightarrow> if lt_state (sx_lookup s) = FINISHED then sx_reported s = [[]] \<and> cs_map (closestSet (sx_lookup s)) = [] else sx_reported s = []
      | Some a \<Rightarrow> lt_state (sx_lookup s) = FINISHED \<and> sx_closest s \<noteq> [] \<and> sx_closest s = cs_map (closestSet (sx_lookup s)) \<and>
          nested_ok k (sx_closest s) a \<and> sx_reported s = (if an_isFinished a then [sx_closest s] else []))"

lemma finished_stays:
  assumes "lookup_step selfId isSelf t t'" and "isFinished t"
  shows "lt_state t' = lt_state t \<and> closestSet t' = closestSet t"
proof -
  have s: "lt_state (serializedUpdate now u) = lt_state u \<and> closestSet (serializedUpdate now u) = closestSet u" if "isFinished u" for now u
    using that by (auto simp: serializedUpdate_def t_finish_def setState_def isFinished_def Let_def)
  have r: "isFinished (removeCall i t)" "lt_state (removeCall i t) = lt_state t" "closestSet (removeCall i t) = closestSet t" for i using assms(2) by (simp_all add: removeCall_def isFinished_def)
  show ?thesis using assms(1)
  proof cases
    case (ls_inject nodes)
    then show ?thesis using assms(2) by (simp add: isFinished_def)
  qed (use assms(2) s r in \<open>auto simp: setState_def t_start_def t_cancel_def on_responded_def on_error_def on_timeout_def on_stalled_def isFinished_def Let_def\<close>)
qed

lemma look_inv:
  assumes inv: "store_inv k s" and stays: "isFinished (sx_lookup s) \<Longrightarrow> lt_state t = lt_state (sx_lookup s) \<and> closestSet t = closestSet (sx_lookup s)"
  shows "store_inv k (look t s)"
proof (cases "isFinished (sx_lookup s)")
  case True
  then show ?thesis using inv stays [OF True] by (auto simp: look_def store_inv_def isFinished_def Let_def split: option.splits if_splits)
next
  case False
  then have n: "sx_nested s = None" "sx_reported s = []" using inv by (auto simp: store_inv_def isFinished_def split: option.splits if_splits)
  have "nested_ok k xs (mk_announce xs)" "\<not> an_isFinished (mk_announce xs)" for xs by (simp_all add: nested_ok_def mk_announce_def an_isFinished_def)
  then show ?thesis using n False by (auto simp: look_def lookup_ended_def store_inv_def isFinished_def Let_def)
qed

lemma advance_inv:
  assumes inv: "store_inv k s" and a: "sx_nested s = Some a" and ok: "nested_ok k (sx_closest s) a'" and fin: "an_isFinished a \<Longrightarrow> an_isFinished a'"
  shows "store_inv k (advance a a' s)"
  using assms by (auto simp: store_inv_def advance_def announce_ended_def isFinished_def Let_def)

lemma an_step_finished: "an_step k a a' \<Longrightarrow> an_isFinished a \<Longrightarrow> an_isFinished a'"
proof -
  have s: "an_isFinished (an_serializedUpdate k now u)" if "an_isFinished u" for u :: "'a announce" and now
    using that by (auto simp: an_serializedUpdate_def an_finish_def an_end_def an_isFinished_def Let_def)
  show "an_step k a a' \<Longrightarrow> an_isFinished a \<Longrightarrow> an_isFinished a'"
    by (erule an_step.cases) (auto simp: an_callEnded_def s an_isFinished_def an_cancel_def an_end_def intro!: s [unfolded an_isFinished_def])
qed

lemma store_step_inv:
  assumes "store_step k selfId isSelf s s'" and inv: "store_inv k s"
  shows "store_inv k s'"
  using assms(1)
proof cases
  case (sx_look t)
  then show ?thesis using look_inv [OF inv] finished_stays by blast
next
  case (sx_begin a now)
  have "nested_ok k (sx_closest s) a" using inv sx_begin by (auto simp: store_inv_def)
  then have "a = mk_announce (sx_closest s)" using sx_begin by (simp add: nested_ok_def)
  moreover have "an_state (an_start k now (mk_announce (sx_closest s))) \<noteq> INITIAL"
    using an_started_ok [of k "sx_closest s" now] by (auto simp: an_ok_def)
  ultimately show ?thesis using advance_inv [OF inv sx_begin(2)] an_started_ok [of k "sx_closest s" now] sx_begin
    by (simp add: nested_ok_def an_isFinished_def mk_announce_def)
next
  case (sx_go a a')
  have "nested_ok k (sx_closest s) a" using inv sx_go by (auto simp: store_inv_def)
  then have "an_ok k (sx_closest s) a' \<and> an_busy k a'" using sx_go an_step_ok by (auto simp: nested_ok_def)
  moreover then have "an_state a' \<noteq> INITIAL" by (auto simp: an_ok_def)
  ultimately show ?thesis using advance_inv [OF inv sx_go(2), of a'] an_step_finished [OF sx_go(4)] sx_go(1) by (simp add: nested_ok_def)
next
  case (sx_stop now)
  have i1: "store_inv k (look (t_cancel now (sx_lookup s)) s)"
    by (rule look_inv [OF inv]) (auto simp: t_cancel_def setState_def isFinished_def)
  show ?thesis
  proof (cases "sx_nested (look (t_cancel now (sx_lookup s)) s)")
    case None
    then show ?thesis using i1 sx_stop by (simp add: sx_cancel_def Let_def)
  next
    case (Some a)
    let ?s = "look (t_cancel now (sx_lookup s)) s"
    have "nested_ok k (sx_closest ?s) a" using i1 Some by (auto simp: store_inv_def)
    then have "nested_ok k (sx_closest ?s) (an_cancel now a)"
      by (auto simp: nested_ok_def an_ok_def an_busy_def an_cancel_def an_end_def an_isFinished_def mk_announce_def split: if_splits)
    then show ?thesis using advance_inv [OF i1 Some] Some sx_stop
      by (simp add: sx_cancel_def Let_def an_cancel_def an_end_def an_isFinished_def)
  qed
qed

section \<open>Correctness\<close>

text \<open>
  C10: Storing a value or announcing a peer calls the completion handler at most once, with the closest set of the lookup, once the lookup has finished. With an empty set it is called
  at once; otherwise when the announcement to its nodes is over. An announcement that finished has then sent the request to every one of them, and for a value every
  request has been answered or has failed; one that was cancelled has sent it to the first of them only, and all are reported nevertheless. A lookup that was
  cancelled never calls the handler.
\<close>

theorem store_reports_once:
  assumes "(store_step k selfId isSelf)\<^sup>*\<^sup>* (mk_store target) s"
  shows "length (sx_reported s) \<le> 1 \<and>
    (xs \<in> set (sx_reported s) \<longrightarrow> lt_state (sx_lookup s) = FINISHED \<and> xs = cs_map (closestSet (sx_lookup s)) \<and>
      (xs = [] \<and> sx_nested s = None \<or> (\<exists>a. sx_nested s = Some a \<and>
        (an_state a = FINISHED \<and> an_asked a = xs \<and> (k = ValueAnnounce \<longrightarrow> an_inFlight a = []) \<or> an_state a = CANCELED \<and> an_asked a @ an_todo a = xs)))) \<and>
    (sx_nested s = Some a \<and> an_isFinished a \<longrightarrow> sx_reported s \<noteq> []) \<and>
    (lt_state (sx_lookup s) = FINISHED \<and> sx_nested s = None \<longrightarrow> sx_reported s = [[]]) \<and>
    (sx_nested s \<noteq> None \<longrightarrow> lt_state (sx_lookup s) = FINISHED) \<and> (lt_state (sx_lookup s) = CANCELED \<longrightarrow> sx_reported s = [])"
proof -
  have "store_inv k s" using assms
  proof (induction rule: rtranclp_induct)
    case base
    show ?case by (simp add: store_inv_def mk_store_def mk_lookup_def)
  next
    case (step s s')
    then show ?case using store_step_inv by blast
  qed
  then show ?thesis by (auto simp: store_inv_def nested_ok_def an_ok_def an_isFinished_def mk_announce_def split: option.splits if_splits)
qed

text \<open>A value is stored with one node: the lookup finds it, the announcement asks it.\<close>

definition no_nodes :: response where
  "no_nodes = \<lparr>r_matches = True, r_token = 7, r_nodes = [], r_result = False, r_accepted = False\<rparr>"

definition one_found :: lookup_task where
  "one_found = on_responded 2 (node_callResponsed zero_id (\<lambda>_. False) False 2 MAX_ID no_nodes) MAX_ID one_call"

definition found_task :: store_task where
  "found_task = look one_found (look one_call (mk_store MAX_ID))"

lemma one_found_state: "lt_state one_found = FINISHED" "map c_id (cs_map (closestSet one_found)) = [MAX_ID]"
  by (simp_all add: one_found_def on_responded_def node_callResponsed_def lt_callResponsed_def removeCall_def no_nodes_def one_call_def one_node_def
      node_results_def lookup_eval cc_remove_def cc_get_def cs_add_def t_finish_def setToken_def setReplied_def Let_def)

lemma found_task_state:
  obtains c where "sx_lookup found_task = one_found" "sx_closest found_task = [c]" "sx_nested found_task = Some (mk_announce [c])" "sx_reported found_task = []" "c_id c = MAX_ID"
    "cs_map (closestSet one_found) = [c]"
proof -
  obtain c where c: "cs_map (closestSet one_found) = [c]" "c_id c = MAX_ID" using one_found_state(2) by auto
  have "look one_call (mk_store MAX_ID) = (mk_store MAX_ID)\<lparr>sx_lookup := one_call\<rparr>" by (simp add: look_def one_call_state isFinished_def)
  then show thesis using that [of c] c one_found_state(1) by (simp add: found_task_def look_def lookup_ended_def mk_store_def isFinished_def one_call_state Let_def)
qed

lemma found_task_reachable: "(store_step k zero_id (\<lambda>_. False))\<^sup>*\<^sup>* (mk_store MAX_ID) found_task"
proof -
  have "store_step k zero_id (\<lambda>_. False) (mk_store MAX_ID) (look one_call (mk_store MAX_ID))"
    by (rule sx_look) (simp add: mk_store_def one_call_def, rule ls_start, simp)
  moreover have "sx_lookup (look one_call (mk_store MAX_ID)) = one_call" by (simp add: look_def one_call_state isFinished_def)
  then have "store_step k zero_id (\<lambda>_. False) (look one_call (mk_store MAX_ID)) found_task"
    unfolding found_task_def one_found_def by (intro sx_look) (simp add: one_call_state ls_responded)
  ultimately show ?thesis by auto
qed

lemma announce_one:
  "an_start ValueAnnounce 5 (mk_announce [c]) = \<lparr>an_state = RUNNING, an_startTime = 5, an_finishTime = 0, an_todo = [], an_inFlight = [c], an_asked = [c], an_notified = 0\<rparr>"
  by (simp add: an_start_def mk_announce_def an_serializedUpdate_def an_isFinished_def an_canDoRequest_def an_update_eq Let_def)

definition stored_task :: "candidate_node \<Rightarrow> store_task" where
  "stored_task c = (let a = an_start ValueAnnounce 5 (mk_announce [c]) in
     advance a (an_callEnded ValueAnnounce 6 c a) (advance (mk_announce [c]) a found_task))"

theorem store_reports_once_witness:
  "\<exists>s c. (store_step ValueAnnounce zero_id (\<lambda>_. False))\<^sup>*\<^sup>* (mk_store MAX_ID) s \<and> sx_reported s = [[c]] \<and> c_id c = MAX_ID \<and>
     (\<exists>a. sx_nested s = Some a \<and> an_state a = FINISHED \<and> an_asked a = [c] \<and> an_inFlight a = [])"
proof -
  obtain c where c: "sx_lookup found_task = one_found" "sx_nested found_task = Some (mk_announce [c])" "sx_reported found_task = []" "c_id c = MAX_ID" "sx_closest found_task = [c]"
    using found_task_state by metis
  let ?a = "an_start ValueAnnounce 5 (mk_announce [c])" and ?s = "advance (mk_announce [c]) (an_start ValueAnnounce 5 (mk_announce [c])) found_task"
  have a: "\<not> an_isFinished ?a" "c \<in> set (an_inFlight ?a)" "an_state ?a \<noteq> INITIAL" "an_state (an_callEnded ValueAnnounce 6 c ?a) = FINISHED"
    unfolding announce_one by (simp_all add: an_isFinished_def an_callEnded_def an_serializedUpdate_def an_finish_def an_end_def Let_def)
  have n: "sx_nested ?s = Some ?a" "sx_reported ?s = []" "sx_closest ?s = [c]" using c a(1) by (simp_all add: advance_def)
  have "store_step ValueAnnounce zero_id (\<lambda>_. False) found_task ?s" by (rule sx_begin [OF c(2)]) (simp add: mk_announce_def)
  moreover have "store_step ValueAnnounce zero_id (\<lambda>_. False) ?s (stored_task c)"
    unfolding stored_task_def Let_def by (rule sx_go [OF n(1) a(3) call_ended [OF a(2)]])
  ultimately have r: "(store_step ValueAnnounce zero_id (\<lambda>_. False))\<^sup>*\<^sup>* (mk_store MAX_ID) (stored_task c)"
    using found_task_reachable [of ValueAnnounce] by auto
  have f: "sx_nested (stored_task c) = Some (an_callEnded ValueAnnounce 6 c ?a)" "sx_reported (stored_task c) = [[c]]"
    using a n by (simp_all add: stored_task_def Let_def advance_def announce_ended_def an_isFinished_def)
  have "[c] \<in> set (sx_reported (stored_task c))" using f(2) by simp
  then obtain a' where "sx_nested (stored_task c) = Some a'" "an_state a' = FINISHED \<and> an_asked a' = [c] \<and> an_inFlight a' = [] \<or> an_state a' = CANCELED"
    using store_reports_once [OF r, of "[c]"] by blast
  then show ?thesis using r f a(4) c(4) by auto
qed

text \<open>
  The announcement is cancelled before it starts, as \<^verbatim>\<open>DHT::stop\<close> does: the handler is told of a node that was not asked.
\<close>

lemma cancelled_reports_unasked:
  "\<exists>s c a. (store_step ValueAnnounce zero_id (\<lambda>_. False))\<^sup>*\<^sup>* (mk_store MAX_ID) s \<and> sx_reported s = [[c]] \<and> sx_nested s = Some a \<and> an_asked a = []"
proof -
  obtain c where c: "sx_lookup found_task = one_found" "sx_nested found_task = Some (mk_announce [c])" "sx_reported found_task = []" "sx_closest found_task = [c]"
    using found_task_state by metis
  have "store_step ValueAnnounce zero_id (\<lambda>_. False) found_task (sx_cancel 5 found_task)" by (rule sx_stop)
  then have "(store_step ValueAnnounce zero_id (\<lambda>_. False))\<^sup>*\<^sup>* (mk_store MAX_ID) (sx_cancel 5 found_task)" using found_task_reachable by (rule rtranclp.rtrancl_into_rtrancl [rotated])
  moreover have "t_cancel 5 one_found = one_found" using one_found_state(1) by (simp add: t_cancel_def setState_def)
  then have "sx_reported (sx_cancel 5 found_task) = [[c]]" "sx_nested (sx_cancel 5 found_task) = Some (an_cancel 5 (mk_announce [c]))"
    using c by (simp_all add: sx_cancel_def look_def advance_def announce_ended_def an_cancel_def an_end_def mk_announce_def an_isFinished_def isFinished_def one_found_state)
  moreover have "an_asked (an_cancel 5 (mk_announce [c])) = []" by (simp add: an_cancel_def an_end_def mk_announce_def)
  ultimately show ?thesis by blast
qed

end
