(* ===== verification/Crypto_Wrappers.thy ===== *)
theory Crypto_Wrappers
  imports Values Constants
begin

text \<open>
  The classes around libsodium: signature keys (\<^verbatim>\<open>include/boson/signature.h\<close>, \<^verbatim>\<open>src/core/crypto/signature.cc\<close>), boxes
  (\<^verbatim>\<open>crypto_box.h\<close>, \<^verbatim>\<open>crypto_box.cc\<close>), the context two nodes share (\<^verbatim>\<open>crypto_context.cc\<close>), the cache of contexts
  (\<^verbatim>\<open>utils/loading_cache.h\<close>, \<^verbatim>\<open>crypto_cache.h\<close>) and hexadecimal text (\<^verbatim>\<open>crypto/hex.h\<close>, \<^verbatim>\<open>hex.cc\<close>). The functions of libsodium are the
  fields of the record \<open>sodium\<close>; what its documentation says of them is \<open>sodium_ok\<close> and \<open>hex_ok\<close>. A key or nonce is
  the list of its bytes. \<open>Inl\<close> is a call that does not return: it throws, or aborts where the code asserts what it tests next and the build keeps assertions,
  as the default build does (\<open>so_ndebug\<close> is false).
\<close>

record sodium =
  so_keypair :: "nat \<Rightarrow> u8 list \<times> u8 list" \<comment> \<open>crypto_sign_keypair with its randomness: public and private key\<close>
  so_seed_keypair :: "u8 list \<Rightarrow> u8 list \<times> u8 list"
  so_sk_to_pk :: "u8 list \<Rightarrow> u8 list"
  so_sign :: "u8 list \<Rightarrow> u8 list \<Rightarrow> u8 list" \<comment> \<open>data, private key\<close>
  so_verify :: "u8 list \<Rightarrow> u8 list \<Rightarrow> u8 list \<Rightarrow> bool" \<comment> \<open>signature, data, public key\<close>
  so_sk_to_curve :: "u8 list \<Rightarrow> u8 list"
  so_pk_to_curve :: "u8 list \<Rightarrow> u8 list option"
  so_base :: "u8 list \<Rightarrow> u8 list" \<comment> \<open>crypto_scalarmult_base\<close>
  so_box_seed_keypair :: "u8 list \<Rightarrow> u8 list \<times> u8 list"
  so_beforenm :: "u8 list \<Rightarrow> u8 list \<Rightarrow> u8 list option" \<comment> \<open>public key, private key\<close>
  so_easy :: "u8 list \<Rightarrow> u8 list \<Rightarrow> u8 list \<Rightarrow> u8 list option" \<comment> \<open>data, nonce, symmetric key\<close>
  so_open :: "u8 list \<Rightarrow> u8 list \<Rightarrow> u8 list \<Rightarrow> u8 list option"
  so_bin2hex :: "u8 list \<Rightarrow> string"
  so_hex2bin :: "nat \<Rightarrow> string \<Rightarrow> u8 list option" \<comment> \<open>size of the buffer, text\<close>
  so_ndebug :: bool \<comment> \<open>the build: assertions are compiled out\<close>

section \<open>Signature keys\<close>

text \<open>A condition that is asserted, and tested again for builds without assertions.\<close>

definition failed :: "sodium \<Rightarrow> string \<Rightarrow> string" where
  "failed S err = (if so_ndebug S then err else ''Assertion failed'')"

definition sized :: "sodium \<Rightarrow> nat \<Rightarrow> string \<Rightarrow> u8 list \<Rightarrow> string + u8 list" where
  "sized S n err b = (if length b \<noteq> n then Inl (failed S err) else Inr b)"

definition sig_PrivateKey :: "sodium \<Rightarrow> u8 list \<Rightarrow> string + u8 list" where
  "sig_PrivateKey S sk = sized S 64 ''Invaild raw private key size.'' sk"

definition sig_PublicKey :: "sodium \<Rightarrow> u8 list \<Rightarrow> string + u8 list" where
  "sig_PublicKey S pk = sized S 32 ''Invaild raw public key size.'' pk"

definition sk_sign_into :: "sodium \<Rightarrow> u8 list \<Rightarrow> u8 list \<Rightarrow> u8 list \<Rightarrow> string + u8 list" where
  "sk_sign_into S sk data buf = (if length buf \<noteq> SIGNATURE_BYTES then Inl (failed S ''Invalid signature length.'') else Inr (so_sign S data sk))"

definition sk_sign :: "sodium \<Rightarrow> u8 list \<Rightarrow> u8 list \<Rightarrow> string + u8 list" where
  "sk_sign S sk data = sk_sign_into S sk data (replicate SIGNATURE_BYTES 0)"

definition pk_verify :: "sodium \<Rightarrow> u8 list \<Rightarrow> u8 list \<Rightarrow> u8 list \<Rightarrow> string + bool" where
  "pk_verify S pk data signature =
     (if length signature \<noteq> SIGNATURE_BYTES then Inl (failed S ''Invalid signature length.'') else Inr (so_verify S signature data pk))"

record keypair =
  kp_sk :: "u8 list"
  kp_pk :: "u8 list"

definition kp_random :: "sodium \<Rightarrow> nat \<Rightarrow> keypair" where
  "kp_random S r = \<lparr>kp_sk = snd (so_keypair S r), kp_pk = fst (so_keypair S r)\<rparr>"

definition kp_of_private :: "sodium \<Rightarrow> u8 list \<Rightarrow> keypair" where
  "kp_of_private S sk = \<lparr>kp_sk = sk, kp_pk = so_sk_to_pk S sk\<rparr>"

text \<open>The constructor from an rvalue: in its body \<^verbatim>\<open>sk\<close> is the parameter, which the move has cleared.\<close>

definition kp_of_moved :: "sodium \<Rightarrow> u8 list \<Rightarrow> keypair" where
  "kp_of_moved S sk = \<lparr>kp_sk = sk, kp_pk = so_sk_to_pk S (replicate PRIVATE_KEY_BYTES 0)\<rparr>"

definition kp_of_blob :: "sodium \<Rightarrow> u8 list \<Rightarrow> string + keypair" where
  "kp_of_blob S sk = (if length sk \<noteq> PRIVATE_KEY_BYTES then Inl (failed S ''Invaild raw private key size.'') else Inr \<lparr>kp_sk = sk, kp_pk = so_sk_to_pk S sk\<rparr>)"

definition kp_fromSeed :: "sodium \<Rightarrow> u8 list \<Rightarrow> string + keypair" where
  "kp_fromSeed S seed =
     (if length seed \<noteq> 32 then Inl (failed S ''Invaild seed size.'') else let (pk, sk) = so_seed_keypair S seed in Inr \<lparr>kp_sk = sk, kp_pk = pk\<rparr>)"

section \<open>Boxes\<close>

definition MAC_BYTES :: nat where [simp]: "MAC_BYTES = 16"

definition box_PrivateKey :: "u8 list \<Rightarrow> string + u8 list" where
  "box_PrivateKey sk = (if length sk \<noteq> 32 then Inl ''Invaild raw private key size.'' else Inr sk)"

definition box_PublicKey :: "sodium \<Rightarrow> u8 list \<Rightarrow> string + u8 list" where
  "box_PublicKey S pk = sized S 32 ''Invaild raw public key size.'' pk"

definition mk_Nonce :: "sodium \<Rightarrow> u8 list \<Rightarrow> string + u8 list" where
  "mk_Nonce S n = sized S NONCE_BYTES ''Invaild raw nonce size.'' n"

definition box_sk_fromSignatureKey :: "sodium \<Rightarrow> u8 list \<Rightarrow> u8 list" where
  "box_sk_fromSignatureKey S signSk = so_sk_to_curve S signSk"

definition box_pk_fromSignatureKey :: "sodium \<Rightarrow> u8 list \<Rightarrow> string + u8 list" where
  "box_pk_fromSignatureKey S signPk =
     (case so_pk_to_curve S signPk of None \<Rightarrow> Inl ''converts Ed25519 key to x25519 key failed.'' | Some pk \<Rightarrow> Inr pk)"

definition box_kp_of_private :: "sodium \<Rightarrow> u8 list \<Rightarrow> keypair" where
  "box_kp_of_private S sk = \<lparr>kp_sk = sk, kp_pk = so_base S sk\<rparr>"

definition box_kp_of_blob :: "sodium \<Rightarrow> u8 list \<Rightarrow> string + keypair" where
  "box_kp_of_blob S sk = (if length sk \<noteq> 32 then Inl (failed S ''Invaild raw private key size.'') else Inr \<lparr>kp_sk = sk, kp_pk = so_base S sk\<rparr>)"

definition box_kp_fromSeed :: "sodium \<Rightarrow> u8 list \<Rightarrow> string + keypair" where
  "box_kp_fromSeed S seed =
     (if length seed \<noteq> 32 then Inl (failed S ''Invaild seed size.'') else let (pk, sk) = so_box_seed_keypair S seed in Inr \<lparr>kp_sk = sk, kp_pk = pk\<rparr>)"

definition box_kp_fromSignatureKeyPair :: "sodium \<Rightarrow> keypair \<Rightarrow> string + keypair" where
  "box_kp_fromSignatureKeyPair S kp = box_kp_of_blob S (so_sk_to_curve S (kp_sk kp))"

text \<open>\<^verbatim>\<open>CryptoBox(pk, sk)\<close>: the symmetric key.\<close>

definition mk_box :: "sodium \<Rightarrow> u8 list \<Rightarrow> u8 list \<Rightarrow> string + u8 list" where
  "mk_box S pk sk = (case so_beforenm S pk sk of None \<Rightarrow> Inl ''Compute symmetric key failed.'' | Some key \<Rightarrow> Inr key)"

text \<open>Encryption into a buffer that may be larger than the result; sizes are \<^verbatim>\<open>size_t\<close>.\<close>

definition box_encrypt_into :: "sodium \<Rightarrow> u8 list \<Rightarrow> u8 list \<Rightarrow> u8 list \<Rightarrow> u8 list \<Rightarrow> string + u8 list" where
  "box_encrypt_into S key plain nonce buf =
     (if length buf < length plain + MAC_BYTES then Inl (failed S ''The cipher buffer is too small.'')
      else case so_easy S plain nonce key of None \<Rightarrow> Inl ''Encrypt data failed.'' | Some c \<Rightarrow> Inr (c @ drop (length c) buf))"

definition box_encrypt :: "sodium \<Rightarrow> u8 list \<Rightarrow> u8 list \<Rightarrow> u8 list \<Rightarrow> string + u8 list" where
  "box_encrypt S key plain nonce = box_encrypt_into S key plain nonce (replicate (length plain + MAC_BYTES) 0)"

definition box_decrypt_into :: "sodium \<Rightarrow> u8 list \<Rightarrow> u8 list \<Rightarrow> u8 list \<Rightarrow> u8 list \<Rightarrow> string + u8 list" where
  "box_decrypt_into S key cipher nonce buf =
     (if word_of_nat (length buf) < (word_of_nat (length cipher) - word_of_nat MAC_BYTES :: u64) then Inl (failed S ''The plain buffer is too small.'')
      else case so_open S cipher nonce key of None \<Rightarrow> Inl ''Decrypt data failed.'' | Some d \<Rightarrow> Inr (d @ drop (length d) buf))"

text \<open>A vector of a size that wrapped around is refused by the library.\<close>

definition box_decrypt :: "sodium \<Rightarrow> u8 list \<Rightarrow> u8 list \<Rightarrow> u8 list \<Rightarrow> string + u8 list" where
  "box_decrypt S key cipher nonce =
     (let n = unat (word_of_nat (length cipher) - word_of_nat MAC_BYTES :: u64) in
      if n \<ge> 2 ^ 63 then Inl ''cannot create std::vector larger than max_size()'' else box_decrypt_into S key cipher nonce (replicate n 0))"

section \<open>Contexts\<close>

record crypto_context =
  cx_box :: "u8 list"
  cx_nonce :: "u8 list"

definition mk_context :: "sodium \<Rightarrow> u8 list \<Rightarrow> keypair \<Rightarrow> string + crypto_context" where
  "mk_context S pk kp =
     (case mk_box S pk (kp_sk kp) of
        Inl e \<Rightarrow> Inl e
      | Inr key \<Rightarrow>
          (case (id_or_throw pk, id_or_throw (kp_pk kp)) of
             (Inr receiver, Inr sender) \<Rightarrow>
               map_sum (\<lambda>e. e) (\<lambda>n. \<lparr>cx_box = key, cx_nonce = n\<rparr>) (mk_Nonce S (take NONCE_BYTES (bytes (distance sender receiver))))
           | (Inl e, _) \<Rightarrow> Inl e
           | (_, Inl e) \<Rightarrow> Inl e))"

definition cx_encrypt :: "sodium \<Rightarrow> crypto_context \<Rightarrow> u8 list \<Rightarrow> string + u8 list" where
  "cx_encrypt S cx plain = box_encrypt S (cx_box cx) plain (cx_nonce cx)"

definition cx_decrypt :: "sodium \<Rightarrow> crypto_context \<Rightarrow> u8 list \<Rightarrow> string + u8 list" where
  "cx_decrypt S cx cipher = box_decrypt S (cx_box cx) cipher (cx_nonce cx)"

section \<open>The cache\<close>

record 'v cache_entry =
  ce_value :: 'v
  expiration_time :: u64

type_synonym ('k, 'v) cache = "'k \<rightharpoonup> 'v cache_entry"

definition ce_expired :: "u64 \<Rightarrow> 'v cache_entry \<Rightarrow> bool" where
  "ce_expired now e \<longleftrightarrow> now \<ge> expiration_time e"

text \<open>When \<^verbatim>\<open>load\<close> throws, nothing has been inserted yet.\<close>

definition lc_get :: "('k \<Rightarrow> 'e + 'v) \<Rightarrow> int \<Rightarrow> u64 \<Rightarrow> 'k \<Rightarrow> ('k, 'v) cache \<Rightarrow> ('e + 'v) \<times> ('k, 'v) cache" where
  "lc_get load ttl now k c =
     (case c k of
        None \<Rightarrow> (case load k of Inl e \<Rightarrow> (Inl e, c) | Inr v \<Rightarrow> (Inr v, c(k \<mapsto> \<lparr>ce_value = v, expiration_time = now + word_of_int ttl\<rparr>)))
      | Some e \<Rightarrow> (Inr (ce_value e), c(k \<mapsto> e\<lparr>expiration_time := now + word_of_int ttl\<rparr>)))"

definition handleExpiration :: "u64 \<Rightarrow> ('k, 'v) cache \<Rightarrow> ('k, 'v) cache" where
  "handleExpiration now c = (\<lambda>k. case c k of Some e \<Rightarrow> if ce_expired now e then None else Some e | None \<Rightarrow> None)"

text \<open>\<^verbatim>\<open>CryptoCache::load\<close> with \<^verbatim>\<open>Id::toEncryptionKey\<close>.\<close>

definition toEncryptionKey :: "sodium \<Rightarrow> id \<Rightarrow> string + u8 list" where
  "toEncryptionKey S i = (case sig_PublicKey S (bytes i) of Inl e \<Rightarrow> Inl e | Inr pk \<Rightarrow> box_pk_fromSignatureKey S pk)"

definition ctx_load :: "sodium \<Rightarrow> keypair \<Rightarrow> id \<Rightarrow> string + crypto_context" where
  "ctx_load S kp i = (case toEncryptionKey S i of Inl e \<Rightarrow> Inl e | Inr pk \<Rightarrow> mk_context S pk kp)"

definition ctx_get :: "sodium \<Rightarrow> keypair \<Rightarrow> u64 \<Rightarrow> id \<Rightarrow> (id, crypto_context) cache \<Rightarrow> (string + crypto_context) \<times> (id, crypto_context) cache" where
  "ctx_get S kp = lc_get (ctx_load S kp) KBUCKET_OLD_AND_STALE_TIME"

text \<open>\<^verbatim>\<open>Node::encrypt\<close>, \<^verbatim>\<open>decrypt\<close>, \<^verbatim>\<open>sign\<close> and \<^verbatim>\<open>verify\<close>.\<close>

definition node_encrypt :: "sodium \<Rightarrow> keypair \<Rightarrow> u64 \<Rightarrow> id \<Rightarrow> u8 list \<Rightarrow> (id, crypto_context) cache \<Rightarrow> (string + u8 list) \<times> (id, crypto_context) cache" where
  "node_encrypt S kp now recipient plain c =
     (let (r, c) = ctx_get S kp now recipient c in (case r of Inl e \<Rightarrow> Inl e | Inr cx \<Rightarrow> cx_encrypt S cx plain, c))"

definition node_decrypt :: "sodium \<Rightarrow> keypair \<Rightarrow> u64 \<Rightarrow> id \<Rightarrow> u8 list \<Rightarrow> (id, crypto_context) cache \<Rightarrow> (string + u8 list) \<times> (id, crypto_context) cache" where
  "node_decrypt S kp now sender cipher c =
     (let (r, c) = ctx_get S kp now sender c in (case r of Inl e \<Rightarrow> Inl e | Inr cx \<Rightarrow> cx_decrypt S cx cipher, c))"

definition node_sign :: "sodium \<Rightarrow> keypair \<Rightarrow> u8 list \<Rightarrow> string + u8 list" where
  "node_sign S kp data = sk_sign S (kp_sk kp) data"

definition node_verify :: "sodium \<Rightarrow> keypair \<Rightarrow> u8 list \<Rightarrow> u8 list \<Rightarrow> string + bool" where
  "node_verify S kp data signature = pk_verify S (kp_pk kp) signature data"

section \<open>Hexadecimal text\<close>

text \<open>The result of the buffer version is the text written and the length returned; \<open>None\<close> of the other one is an assertion that fails.\<close>

definition hex_encode_into :: "sodium \<Rightarrow> u8 list \<Rightarrow> nat \<Rightarrow> (string \<times> int) option" where
  "hex_encode_into S data bufLen = (if bufLen < length data * 2 + 1 then None else Some (so_bin2hex S data, int (length data * 2)))"

definition hex_encode :: "sodium \<Rightarrow> bool \<Rightarrow> u8 list \<Rightarrow> string option" where
  "hex_encode S needPrefix data =
     (let pos = (if needPrefix then 2 else 0) in
      if data = [] \<and> \<not> so_ndebug S then None
      else map_option (\<lambda>(s, n). (if needPrefix then ''0x'' else []) @ s) (hex_encode_into S data (length data * 2 + 4 - pos)))"

text \<open>\<open>Inr None\<close> when the call returns \<open>-1\<close> and leaves the buffer as it is.\<close>

definition hex_decode_into :: "sodium \<Rightarrow> string \<Rightarrow> nat \<Rightarrow> string + u8 list option" where
  "hex_decode_into S s bufLen =
     (if bufLen mod 2 \<noteq> 0 \<or> bufLen < length s div 2 then Inr None
      else case so_hex2bin S bufLen s of None \<Rightarrow> Inl ''not an hex character'' | Some d \<Rightarrow> Inr (Some d))"

definition hex_decode :: "sodium \<Rightarrow> string \<Rightarrow> string + u8 list" where
  "hex_decode S s =
     (if s = [] \<and> \<not> so_ndebug S then Inl ''Assertion failed''
      else case hex_decode_into S s (length s div 2) of
        Inl e \<Rightarrow> Inl e
      | Inr None \<Rightarrow> Inr (replicate (length s div 2) 0)
      | Inr (Some d) \<Rightarrow> Inr (d @ replicate (length s div 2 - length d) 0))"

section \<open>What libsodium promises\<close>

definition kp_ok :: "nat \<Rightarrow> keypair \<Rightarrow> bool" where
  "kp_ok n kp \<longleftrightarrow> length (kp_sk kp) = n \<and> length (kp_pk kp) = 32"

text \<open>The sizes of the results, and the relation between the two halves of a generated pair, documented for the functions used.\<close>

definition sizes_ok :: "sodium \<Rightarrow> bool" where
  "sizes_ok S \<longleftrightarrow>
     (\<forall>r. length (fst (so_keypair S r)) = 32 \<and> length (snd (so_keypair S r)) = 64) \<and>
     (\<forall>s. length (fst (so_seed_keypair S s)) = 32 \<and> length (snd (so_seed_keypair S s)) = 64) \<and>
     (\<forall>s. length (fst (so_box_seed_keypair S s)) = 32 \<and> length (snd (so_box_seed_keypair S s)) = 32) \<and>
     (\<forall>sk. length (so_sk_to_pk S sk) = 32 \<and> length (so_sk_to_curve S sk) = 32 \<and> length (so_base S sk) = 32) \<and>
     (\<forall>pk k. so_pk_to_curve S pk = Some k \<longrightarrow> length k = 32) \<and> (\<forall>pk sk k. so_beforenm S pk sk = Some k \<longrightarrow> length k = 32) \<and>
     (\<forall>d sk. length (so_sign S d sk) = 64)"

definition pairs_ok :: "sodium \<Rightarrow> bool" where
  "pairs_ok S \<longleftrightarrow>
     (\<forall>r. so_sk_to_pk S (snd (so_keypair S r)) = fst (so_keypair S r)) \<and>
     (\<forall>r d. so_verify S (so_sign S d (snd (so_keypair S r))) d (fst (so_keypair S r))) \<and>
     (\<forall>r. so_pk_to_curve S (fst (so_keypair S r)) = Some (so_base S (so_sk_to_curve S (snd (so_keypair S r)))))"

definition boxes_ok :: "sodium \<Rightarrow> bool" where
  "boxes_ok S \<longleftrightarrow>
     (\<forall>a b. so_beforenm S (so_base S a) b = so_beforenm S (so_base S b) a) \<and>
     (\<forall>d n k. \<exists>c. so_easy S d n k = Some c \<and> length c = length d + 16 \<and> so_open S c n k = Some d)"

definition sodium_ok :: "sodium \<Rightarrow> bool" where
  "sodium_ok S \<longleftrightarrow> sizes_ok S \<and> pairs_ok S \<and> boxes_ok S"

definition hex_ok :: "sodium \<Rightarrow> bool" where
  "hex_ok S \<longleftrightarrow> (\<forall>d. length (so_bin2hex S d) = 2 * length d \<and> (\<forall>n \<ge> length d. so_hex2bin S n (so_bin2hex S d) = Some d))"

text \<open>An instance that keeps the promises.\<close>

fun plain_hex :: "u8 list \<Rightarrow> string" where
  "plain_hex [] = []"
| "plain_hex (b # bs) = CHR ''0'' # char_of (unat b) # plain_hex bs"

fun plain_unhex :: "string \<Rightarrow> u8 list" where
  "plain_unhex (_ # c # cs) = word_of_nat (of_char c) # plain_unhex cs"
| "plain_unhex _ = []"

definition plain_sodium :: sodium where
  "plain_sodium =
     \<lparr>so_keypair = (\<lambda>r. (replicate 32 (of_nat r), replicate 64 (of_nat r))), so_seed_keypair = (\<lambda>s. (replicate 32 0, replicate 64 0)),
      so_sk_to_pk = (\<lambda>sk. replicate 32 (hd (sk @ [0]))), so_sign = (\<lambda>d sk. replicate 64 1), so_verify = (\<lambda>s d pk. True),
      so_sk_to_curve = (\<lambda>sk. replicate 32 (hd (sk @ [0]))), so_pk_to_curve = (\<lambda>pk. Some (replicate 32 (hd (pk @ [0])))),
      so_base = (\<lambda>sk. replicate 32 (hd (sk @ [0]))), so_box_seed_keypair = (\<lambda>s. (replicate 32 0, replicate 32 0)),
      so_beforenm = (\<lambda>pk sk. Some (replicate 32 (hd (pk @ [0]) + hd (sk @ [0])))), so_easy = (\<lambda>d n k. Some (d @ replicate 16 0)),
      so_open = (\<lambda>c n k. if length c < 16 then None else Some (take (length c - 16) c)), so_bin2hex = plain_hex,
      so_hex2bin = (\<lambda>n s. Some (plain_unhex s)), so_ndebug = False\<rparr>"

lemma hd_replicate_32 [simp]: "hd (replicate 32 x @ [y]) = x" "hd (replicate 64 x @ [y]) = x"
  by (simp_all add: numeral_eq_Suc)

lemma plain_sodium_ok: "sodium_ok plain_sodium" "hex_ok plain_sodium"
proof -
  have "length (plain_hex d) = 2 * length d" "plain_unhex (plain_hex d) = d" for d
    by (induction d) (simp_all add: of_char_of take_bit_nat_eq_self unsigned_less [where 'b = 8, simplified] flip: take_bit_eq_mod)
  then show "hex_ok plain_sodium" by (simp add: hex_ok_def plain_sodium_def)
  show "sodium_ok plain_sodium"
    by (auto simp: sodium_ok_def sizes_ok_def pairs_ok_def boxes_ok_def plain_sodium_def add.commute)
qed

section \<open>The cache as an interface\<close>

text \<open>
  What a client of a loading cache relies on: a look-up gives what \<open>load\<close> gives, whatever look-ups and expirations came before.
\<close>

datatype 'k cache_op = Get u64 'k | Expire u64

locale loader =
  fixes load :: "'k \<Rightarrow> 'e + 'v" and get :: "u64 \<Rightarrow> 'k \<Rightarrow> 'c \<Rightarrow> ('e + 'v) \<times> 'c" and expire :: "u64 \<Rightarrow> 'c \<Rightarrow> 'c"
    and invar :: "'c \<Rightarrow> bool"
  assumes get_load: "invar c \<Longrightarrow> fst (get now k c) = load k"
    and get_invar: "invar c \<Longrightarrow> invar (snd (get now k c))"
    and expire_invar: "invar c \<Longrightarrow> invar (expire now c)"
begin

lemma run_invar: "invar c \<Longrightarrow> invar (fold (case_cache_op (\<lambda>now k c. snd (get now k c)) expire) ops c)"
proof (induction ops arbitrary: c)
  case (Cons o' ops)
  then show ?case by (cases o') (simp_all add: get_invar expire_invar)
qed simp

lemma get_after_run:
  assumes "invar c"
  shows "fst (get now k (fold (case_cache_op (\<lambda>now k c. snd (get now k c)) expire) ops c)) = load k"
  using get_load run_invar assms by blast

end

definition lc_inv :: "('k \<Rightarrow> 'e + 'v) \<Rightarrow> ('k, 'v) cache \<Rightarrow> bool" where
  "lc_inv load c \<longleftrightarrow> (\<forall>k e. c k = Some e \<longrightarrow> load k = Inr (ce_value e))"

interpretation lc: loader load "lc_get load ttl" handleExpiration "lc_inv load" for load ttl
  by unfold_locales (auto simp: lc_inv_def lc_get_def handleExpiration_def split: option.splits sum.splits if_splits)

lemma lc_get_kept:
  assumes "fst (lc_get load ttl t k c) = Inr v" and "0 \<le> ttl" and "unat t + nat ttl < 2 ^ 64" and "unat now < unat t + nat ttl"
  shows "handleExpiration now (snd (lc_get load ttl t k c)) k = snd (lc_get load ttl t k c) k" and "snd (lc_get load ttl t k c) k \<noteq> None"
proof -
  have n: "word_of_int ttl = (word_of_nat (nat ttl) :: u64)" using assms(2) by simp
  have "nat ttl < 2 ^ 64" using assms(3) by linarith
  then have "unat (word_of_nat (nat ttl) :: u64) = nat ttl" by (simp add: unat_of_nat take_bit_nat_eq_self)
  then have "unat (t + word_of_int ttl) = unat t + nat ttl" using assms(3) unfolding n by (simp add: unat_plus_if_size word_size)
  then have "\<not> t + word_of_int ttl \<le> now" using assms(4) by (simp add: word_le_nat_alt)
  then show "handleExpiration now (snd (lc_get load ttl t k c)) k = snd (lc_get load ttl t k c) k" "snd (lc_get load ttl t k c) k \<noteq> None"
    using assms(1) by (auto simp: lc_get_def handleExpiration_def ce_expired_def split: option.splits sum.splits)
qed

definition cache_run :: "sodium \<Rightarrow> keypair \<Rightarrow> id cache_op list \<Rightarrow> (id, crypto_context) cache" where
  "cache_run S kp ops = fold (case_cache_op (\<lambda>now i c. snd (ctx_get S kp now i c)) handleExpiration) ops Map.empty"

lemma cache_run_get: "fst (ctx_get S kp now i (cache_run S kp ops)) = ctx_load S kp i"
  using lc.get_after_run [where load = "ctx_load S kp" and c = Map.empty and now = now and ttl = KBUCKET_OLD_AND_STALE_TIME and k = i and ops = ops] by (simp add: cache_run_def ctx_get_def lc_inv_def)

text \<open>
  C22: the cache of contexts is transparent: after any sequence of look-ups and expirations a look-up gives the context that loading it
  afresh would give, or throws what loading would throw. An expiration within fifteen minutes of the last look-up keeps the context.
\<close>

theorem cache_transparent:
  "fst (ctx_get S kp now i (cache_run S kp ops)) = ctx_load S kp i \<and>
   (unat t + 900000 < 2 ^ 64 \<and> unat now' < unat t + 900000 \<and> ctx_load S kp i = Inr cx \<longrightarrow>
     handleExpiration now' (snd (ctx_get S kp t i (cache_run S kp ops))) i = snd (ctx_get S kp t i (cache_run S kp ops)) i \<and>
     snd (ctx_get S kp t i (cache_run S kp ops)) i \<noteq> None)"
  using cache_run_get [of S kp] lc_get_kept [of "ctx_load S kp" KBUCKET_OLD_AND_STALE_TIME t i "cache_run S kp ops" cx now']
  by (simp add: ctx_get_def)

section \<open>Nodes that talk to each other\<close>

lemma box_round_trip:
  assumes "boxes_ok S" and "length plain < 2 ^ 32"
  shows "\<exists>c. box_encrypt S key plain n = Inr c \<and> box_decrypt S key c n = Inr plain"
proof -
  obtain c where c: "so_easy S plain n key = Some c" "length c = length plain + 16" "so_open S c n key = Some plain"
    using assms(1) unfolding boxes_ok_def by metis
  have "(word_of_nat (length plain + 16) - 16 :: u64) = word_of_nat (length plain)" by simp
  moreover have u: "unat (word_of_nat (length plain) :: u64) = length plain" using assms(2) by (simp add: unat_of_nat take_bit_nat_eq_self)
  ultimately have "box_decrypt S key c n = Inr plain" using c assms(2) by (simp add: box_decrypt_def box_decrypt_into_def Let_def)
  then show ?thesis using c by (auto simp: box_encrypt_def box_encrypt_into_def)
qed

lemma pair_context:
  assumes "sodium_ok S" and "box_kp_fromSignatureKeyPair S (kp_random S r) = Inr a" and "id_of_blob (kp_pk (kp_random S r)) = Some i"
  shows "toEncryptionKey S i = Inr (kp_pk a)" and "length (kp_pk a) = 32" and "kp_pk a = so_base S (kp_sk a)"
proof -
  have "bytes i = fst (so_keypair S r)" using assms(1,3) by (auto simp: kp_random_def id_of_blob_def split: if_splits simp: bytes_inverse Abs_id_inverse)
  moreover have "a = \<lparr>kp_sk = so_sk_to_curve S (snd (so_keypair S r)), kp_pk = so_base S (so_sk_to_curve S (snd (so_keypair S r)))\<rparr>"
    using assms(2) by (auto simp: box_kp_fromSignatureKeyPair_def box_kp_of_blob_def kp_random_def split: if_splits)
  ultimately show "toEncryptionKey S i = Inr (kp_pk a)" "length (kp_pk a) = 32" "kp_pk a = so_base S (kp_sk a)"
    using assms(1) by (simp_all add: toEncryptionKey_def sig_PublicKey_def sized_def box_pk_fromSignatureKey_def sodium_ok_def pairs_ok_def sizes_ok_def)
qed

lemma contexts_shared:
  assumes "boxes_ok S" and "length (kp_pk a) = 32" and "length (kp_pk b) = 32" and "kp_pk a = so_base S (kp_sk a)" and "kp_pk b = so_base S (kp_sk b)"
    and "so_beforenm S (kp_pk b) (kp_sk a) = Some key"
  shows "\<exists>cx. mk_context S (kp_pk b) a = Inr cx \<and> mk_context S (kp_pk a) b = Inr cx"
proof -
  have "so_beforenm S (kp_pk a) (kp_sk b) = Some key" using assms(1,4-6) unfolding boxes_ok_def by metis
  moreover have "id_or_throw (kp_pk a) = Inr (Abs_id (kp_pk a))" "id_or_throw (kp_pk b) = Inr (Abs_id (kp_pk b))"
    using assms(2,3) by (auto simp: id_or_throw_def id_of_blob_def)
  ultimately show ?thesis using assms(6) distance_commute [of "Abs_id (kp_pk a)"] by (simp add: mk_context_def mk_box_def mk_Nonce_def sized_def)
qed

text \<open>
  C21: Two nodes with generated keys understand each other: what one encrypts for the identifier of the other, the other decrypts with the identifier
  of the first, whatever their caches have been used for, provided the exchange of keys succeeds.
\<close>

theorem boxes_between_nodes:
  assumes "sodium_ok S" and "box_kp_fromSignatureKeyPair S (kp_random S r) = Inr a" and "box_kp_fromSignatureKeyPair S (kp_random S r') = Inr b"
    and "id_of_blob (kp_pk (kp_random S r)) = Some i" and "id_of_blob (kp_pk (kp_random S r')) = Some j"
    and "so_beforenm S (kp_pk b) (kp_sk a) \<noteq> None" and "length plain < 2 ^ 32"
  shows "\<exists>c. fst (node_encrypt S a t j plain (cache_run S a ops)) = Inr c \<and> fst (node_decrypt S b t' i c (cache_run S b ops')) = Inr plain"
proof -
  note ka = pair_context [OF assms(1,2,4)] and kb = pair_context [OF assms(1,3,5)]
  have "boxes_ok S" using assms(1) by (simp add: sodium_ok_def)
  then obtain cx where cx: "mk_context S (kp_pk b) a = Inr cx" "mk_context S (kp_pk a) b = Inr cx"
    using contexts_shared [OF _ ka(2) kb(2) ka(3) kb(3)] assms(6) by auto
  obtain c where c: "cx_encrypt S cx plain = Inr c" "cx_decrypt S cx c = Inr plain"
    using box_round_trip [OF \<open>boxes_ok S\<close> assms(7)] by (auto simp: cx_encrypt_def cx_decrypt_def)
  have "fst (ctx_get S a t j (cache_run S a ops)) = Inr cx" "fst (ctx_get S b t' i (cache_run S b ops')) = Inr cx"
    using ka(1) kb(1) cx by (simp_all add: cache_run_get ctx_load_def)
  then show ?thesis using c by (auto simp: node_encrypt_def node_decrypt_def split: prod.splits)
qed

theorem boxes_between_nodes_witness:
  "\<exists>a b i j c. box_kp_fromSignatureKeyPair plain_sodium (kp_random plain_sodium 1) = Inr a \<and> box_kp_fromSignatureKeyPair plain_sodium (kp_random plain_sodium 2) = Inr b \<and>
     fst (node_encrypt plain_sodium a 5 j [1, 2] (cache_run plain_sodium a [])) = Inr c \<and> fst (node_decrypt plain_sodium b 6 i c (cache_run plain_sodium b [Expire 5])) = Inr [1, 2]"
proof -
  obtain a where a: "box_kp_fromSignatureKeyPair plain_sodium (kp_random plain_sodium 1) = Inr a"
    by (simp add: box_kp_fromSignatureKeyPair_def box_kp_of_blob_def plain_sodium_def)
  obtain b where b: "box_kp_fromSignatureKeyPair plain_sodium (kp_random plain_sodium 2) = Inr b"
    by (simp add: box_kp_fromSignatureKeyPair_def box_kp_of_blob_def plain_sodium_def)
  obtain i where i: "id_of_blob (kp_pk (kp_random plain_sodium 1)) = Some i" by (simp add: id_of_blob_def kp_random_def plain_sodium_def)
  obtain j where j: "id_of_blob (kp_pk (kp_random plain_sodium 2)) = Some j" by (simp add: id_of_blob_def kp_random_def plain_sodium_def)
  have "so_beforenm plain_sodium (kp_pk b) (kp_sk a) \<noteq> None" by (simp add: plain_sodium_def)
  then obtain c where "fst (node_encrypt plain_sodium a 5 j [1, 2] (cache_run plain_sodium a [])) = Inr c" "fst (node_decrypt plain_sodium b 6 i c (cache_run plain_sodium b [Expire 5])) = Inr [1, 2]"
    using boxes_between_nodes [OF plain_sodium_ok(1) a b i j, of "[1, 2]" 5 "[]" 6 "[Expire 5]"] by auto
  then show ?thesis using a b by blast
qed

text \<open>
  \<^verbatim>\<open>Node::verify\<close> passes its arguments in the wrong order: it does not return for any data that is not 64 bytes long, and for other data it asks whether the data is a signature
  of the signature.
\<close>

lemma node_verify_swapped:
  "node_verify S kp data sig = (if length data \<noteq> SIGNATURE_BYTES then Inl (failed S ''Invalid signature length.'') else Inr (so_verify S data sig (kp_pk kp)))"
  by (simp add: node_verify_def pk_verify_def)

text \<open>
  Decoding the hexadecimal text of a byte string of even length gives it back. For an odd number of bytes \<^verbatim>\<open>decode\<close> refuses its own buffer, whose size it
  tests instead of the size of the text, and the result is zero bytes. Encoding fails for no bytes only, by an assertion.
\<close>

theorem hex_round_trip:
  assumes "hex_ok S" and "data \<noteq> [] \<or> so_ndebug S"
  shows "\<exists>s. hex_encode S False data = Some s \<and> hex_encode S True data = Some (''0x'' @ s) \<and> length s = 2 * length data \<and>
    hex_decode S s = Inr (if even (length data) then data else replicate (length data) 0)"
proof -
  have "length (so_bin2hex S data) = 2 * length data" "so_hex2bin S (length data) (so_bin2hex S data) = Some data" using assms(1) by (auto simp: hex_ok_def)
  moreover then have "so_bin2hex S data \<noteq> [] \<or> so_ndebug S" using assms(2) by auto
  ultimately show ?thesis using assms(2) by (simp add: hex_encode_def hex_encode_into_def hex_decode_def hex_decode_into_def even_iff_mod_2_eq_zero)
qed

theorem hex_round_trip_witness: "hex_decode plain_sodium (the (hex_encode plain_sodium False [1, 2])) = Inr [1, 2]"
  using hex_round_trip [OF plain_sodium_ok(2), of "[1, 2]"] by auto

theorem cache_transparent_witness:
  "fst (ctx_get plain_sodium \<lparr>kp_sk = [], kp_pk = replicate 32 1\<rparr> 5 zero_id (cache_run plain_sodium \<lparr>kp_sk = [], kp_pk = replicate 32 1\<rparr> [Get 3 zero_id, Expire 4])) =
     ctx_load plain_sodium \<lparr>kp_sk = [], kp_pk = replicate 32 1\<rparr> zero_id \<and>
   snd (ctx_get plain_sodium \<lparr>kp_sk = [], kp_pk = replicate 32 1\<rparr> 5 zero_id (cache_run plain_sodium \<lparr>kp_sk = [], kp_pk = replicate 32 1\<rparr> [Get 3 zero_id, Expire 4])) zero_id \<noteq> None"
proof -
  let ?kp = "\<lparr>kp_sk = [], kp_pk = replicate 32 1\<rparr>"
  have "\<exists>cx. ctx_load plain_sodium ?kp zero_id = Inr cx"
    by (simp add: ctx_load_def toEncryptionKey_def sig_PublicKey_def sized_def box_pk_fromSignatureKey_def plain_sodium_def mk_context_def mk_box_def
        id_or_throw_def id_of_blob_def mk_Nonce_def)
  then obtain cx where "ctx_load plain_sodium ?kp zero_id = Inr cx" by blast
  then show ?thesis using cache_transparent [of plain_sodium ?kp 5 zero_id "[Get 3 zero_id, Expire 4]" 5 6 cx] by simp
qed

end
