(* ===== verification/Base58.thy ===== *)
theory Base58
  imports Prelude
begin

text \<open>
  The Base58 codec of \<^verbatim>\<open>src/core/crypto/base58.cc\<close>. Both directions work in place on a digit buffer of a size
  computed from the input; a failing \<^verbatim>\<open>assert(carry == 0)\<close> is \<open>None\<close>. The buffer is kept least significant
  digit first, the order in which the loops visit it.
\<close>

definition pszBase58 :: string where
  "pszBase58 = ''123456789ABCDEFGHJKLMNPQRSTUVWXYZabcdefghijkmnopqrstuvwxyz''"

definition mapBase58 :: "int list" where
  "mapBase58 =
    replicate 48 (-1) @
    [-1, 0, 1, 2, 3, 4, 5, 6,  7, 8,-1,-1,-1,-1,-1,-1,
     -1, 9,10,11,12,13,14,15, 16,-1,17,18,19,20,21,-1,
     22,23,24,25,26,27,28,29, 30,31,32,-1,-1,-1,-1,-1,
     -1,33,34,35,36,37,38,39, 40,41,42,43,-1,44,45,46,
     47,48,49,50,51,52,53,54, 55,56,57,-1,-1,-1,-1,-1] @
    replicate 128 (-1)"

definition is_space :: "char \<Rightarrow> bool" where
  "is_space c \<longleftrightarrow> c \<in> {CHR '' '', CHR 0x0C, CHR 0x0A, CHR 0x0D, CHR 0x09, CHR 0x0B}"

text \<open>
  The inner loop: \<^verbatim>\<open>carry += mul * (*it); *it = carry % base; carry /= base\<close> while there is a carry or
  fewer than \<open>len\<close> digits were visited.
\<close>

fun carry_loop :: "nat \<Rightarrow> nat \<Rightarrow> nat \<Rightarrow> nat \<Rightarrow> nat \<Rightarrow> nat list \<Rightarrow> nat list \<times> nat \<times> nat" where
  "carry_loop base mul len i carry [] = ([], carry, i)"
| "carry_loop base mul len i carry (x # xs) =
     (if carry \<noteq> 0 \<or> i < len
      then let c = carry + mul * x;
               (ys, carry', i') = carry_loop base mul len (i + 1) (c div base) xs
           in (c mod base # ys, carry', i')
      else (x # xs, carry, i))"

definition conv_step :: "nat \<Rightarrow> nat \<Rightarrow> nat \<Rightarrow> nat list \<times> nat \<Rightarrow> (nat list \<times> nat) option" where
  "conv_step base mul digit s =
     (let (buf, len) = s;
          (buf', carry, i) = carry_loop base mul len 0 digit buf
      in if carry = 0 then Some (buf', i) else None)"

definition base58_encode :: "u8 list \<Rightarrow> string option" where
  "base58_encode input =
     (let zeroes = length (takeWhile (\<lambda>b. b = 0) input);
          rest = dropWhile (\<lambda>b. b = 0) input;
          size = length rest * 138 div 100 + 1
      in case ofold (conv_step 58 256) (map unat rest) (replicate size 0, 0) of
           None \<Rightarrow> None
         | Some (b58, len) \<Rightarrow>
             let out = dropWhile (\<lambda>d. d = 0) (drop (size - len) (rev b58))
             in Some (replicate zeroes (CHR ''1'') @ map (\<lambda>d. pszBase58 ! d) out))"

text \<open>
  \<^verbatim>\<open>base58_decode(const char*)\<close> on the characters before the terminating NUL. The characters up to the next
  space are converted; an invalid character or text after trailing spaces gives the empty vector.
\<close>

definition base58_decode_cstr :: "string \<Rightarrow> u8 list option" where
  "base58_decode_cstr psz =
     (let psz = dropWhile is_space psz;
          zeroes = length (takeWhile (\<lambda>c. c = CHR ''1'') psz);
          psz = dropWhile (\<lambda>c. c = CHR ''1'') psz;
          size = length psz * 733 div 1000 + 1;
          word = takeWhile (\<lambda>c. \<not> is_space c) psz;
          tail = dropWhile is_space (dropWhile (\<lambda>c. \<not> is_space c) psz);
          digits = map (\<lambda>c. mapBase58 ! (of_char c :: nat)) word
      in case ofold (conv_step 256 58) (map nat (takeWhile (\<lambda>d. d \<noteq> -1) digits)) (replicate size 0, 0) of
           None \<Rightarrow> None
         | Some (b256, len) \<Rightarrow>
             if -1 \<in> set digits then Some []
             else if tail \<noteq> [] then Some []
             else Some (replicate zeroes 0 @ map word_of_nat (drop (size - len) (rev b256))))"

definition base58_decode :: "string \<Rightarrow> u8 list option" where
  "base58_decode str = (if CHR 0x00 \<in> set str then Some [] else base58_decode_cstr str)"

section \<open>Digit buffers\<close>

fun le_val :: "nat \<Rightarrow> nat list \<Rightarrow> nat" where
  "le_val b [] = 0"
| "le_val b (d # ds) = d + b * le_val b ds"

lemma le_val_less: "\<forall>d \<in> set ds. d < b \<Longrightarrow> le_val b ds < b ^ length ds"
proof (induction ds)
  case (Cons d ds)
  then have "d < b" "le_val b ds + 1 \<le> b ^ length ds" by auto
  then have "d + b * le_val b ds < b * (le_val b ds + 1)" "b * (le_val b ds + 1) \<le> b * b ^ length ds"
    by (simp, intro mult_le_mono2)
  then show ?case by simp
qed simp

lemma le_val_append: "le_val b (xs @ ys) = le_val b xs + b ^ length xs * le_val b ys"
  by (induction xs) (auto simp: algebra_simps)

lemma le_val_zeros [simp]: "le_val b (replicate n 0) = 0"
  by (induction n) auto

lemma le_val_drop_zeros:
  assumes "\<forall>j < length ds. len \<le> j \<longrightarrow> ds ! j = 0" and "len \<le> length ds"
  shows "le_val b ds = le_val b (take len ds)"
proof -
  have "drop len ds = replicate (length ds - len) 0" using assms by (intro nth_equalityI) auto
  then show ?thesis by (metis add.right_neutral append_take_drop_id le_val_append le_val_zeros mult_0_right)
qed

text \<open>The inner loop multiplies the number in the buffer and adds the new digit.\<close>

lemma carry_loop_val:
  assumes "carry_loop b m len i c xs = (ys, cf, k)" and "\<forall>j < length xs. len \<le> i + j \<longrightarrow> xs ! j = 0"
    and "0 < b" and "\<forall>x \<in> set xs. x < b"
  shows "length ys = length xs \<and> le_val b ys + b ^ length xs * cf = m * le_val b xs + c \<and> i \<le> k \<and> k \<le> i + length xs \<and>
    (\<forall>y \<in> set ys. y < b) \<and> (\<forall>j < length xs. k \<le> i + j \<longrightarrow> ys ! j = 0) \<and>
    (min len (i + length xs) \<le> k) \<and> (i < k \<longrightarrow> len < k \<longrightarrow> cf = 0 \<longrightarrow> ys ! (k - 1 - i) \<noteq> 0)"
  using assms
proof (induction b m len i c xs arbitrary: ys cf k rule: carry_loop.induct)
  case (2 base mul len i carry x xs)
  show ?case
  proof (cases "carry \<noteq> 0 \<or> i < len")
    case False
    then have "ys = x # xs" "cf = 0" "k = i" "carry = 0" using "2.prems"(1) by auto
    moreover have zeros: "x # xs = replicate (Suc (length xs)) 0"
    proof (rule nth_equalityI)
      fix j
      assume "j < length (x # xs)"
      moreover from this have "len \<le> i + j" using False by simp
      ultimately show "(x # xs) ! j = replicate (Suc (length xs)) 0 ! j" using "2.prems"(2) by (metis length_Cons nth_replicate)
    qed simp
    moreover from zeros have "le_val base (x # xs) = 0" using le_val_zeros by metis
    ultimately show ?thesis using False "2.prems" by auto
  next
    case True
    define c where "c = carry + mul * x"
    obtain zs cf' k' where r: "carry_loop base mul len (i + 1) (c div base) xs = (zs, cf', k')" by (metis prod_cases3)
    have eq: "ys = c mod base # zs" "cf = cf'" "k = k'" using "2.prems"(1) True r by (auto simp: c_def Let_def)
    have z: "\<forall>j < length xs. len \<le> i + 1 + j \<longrightarrow> xs ! j = 0" using "2.prems"(2) by auto
    have ih: "length zs = length xs \<and> le_val base zs + base ^ length xs * cf = mul * le_val base xs + c div base \<and> i + 1 \<le> k \<and>
      k \<le> i + 1 + length xs \<and> (\<forall>y \<in> set zs. y < base) \<and> (\<forall>j < length xs. k \<le> i + 1 + j \<longrightarrow> zs ! j = 0) \<and>
      (min len (i + 1 + length xs) \<le> k) \<and> (i + 1 < k \<longrightarrow> len < k \<longrightarrow> cf = 0 \<longrightarrow> zs ! (k - 1 - (i + 1)) \<noteq> 0)"
      using "2.IH" [OF True c_def r z] "2.prems"(3,4) eq by simp
    have "le_val base ys + base ^ length (x # xs) * cf = c mod base + base * (le_val base zs + base ^ length xs * cf)"
      by (simp add: eq(1) algebra_simps)
    also have "\<dots> = c mod base + base * (c div base) + base * mul * le_val base xs" using ih by (simp add: algebra_simps)
    also have "\<dots> = mul * le_val base (x # xs) + carry" by (simp add: c_def algebra_simps)
    finally have val: "le_val base ys + base ^ length (x # xs) * cf = mul * le_val base (x # xs) + carry" .
    have top: "ys ! (k - 1 - i) \<noteq> 0" if "len < k" "cf = 0"
    proof (cases "i + 1 < k")
      case True
      then show ?thesis using ih that eq(1) by (simp add: nth_Cons' Suc_diff_Suc)
    next
      case False
      then have k: "k = i + 1" using ih by linarith
      then have "len \<le> i" using that by simp
      then have "x = 0" "carry \<noteq> 0" using "2.prems"(2) \<open>carry \<noteq> 0 \<or> i < len\<close> by (auto dest: spec [of _ 0])
      moreover have "zs = replicate (length xs) 0" using ih k by (intro nth_equalityI) auto
      moreover have "xs = replicate (length xs) 0" using z \<open>len \<le> i\<close> by (intro nth_equalityI) auto
      ultimately have "c div base = 0" "c \<noteq> 0" using ih that(2) le_val_zeros [of base "length xs"] by (auto simp: c_def)
      then have "c mod base \<noteq> 0" by (metis div_mod_decomp mult_zero_left add.right_neutral)
      then show ?thesis by (simp add: eq(1) k)
    qed
    show ?thesis using ih val top eq(1) "2.prems"(3) by (auto simp: nth_Cons' less_Suc_eq_0_disj)
  qed
qed auto

text \<open>The state of a conversion: \<open>len\<close> is the exact number of digits of the number converted so far.\<close>

definition conv_inv :: "nat \<Rightarrow> nat \<Rightarrow> nat \<Rightarrow> nat list \<times> nat \<Rightarrow> bool" where
  "conv_inv b sz v s \<longleftrightarrow>
     (let (buf, len) = s in
      length buf = sz \<and> len \<le> sz \<and> (\<forall>d \<in> set buf. d < b) \<and> le_val b buf = v \<and>
      (\<forall>j < sz. len \<le> j \<longrightarrow> buf ! j = 0) \<and> (len = 0 \<or> b ^ (len - 1) \<le> v))"

lemma le_val_ge_nth: "j < length ds \<Longrightarrow> ds ! j \<noteq> 0 \<Longrightarrow> b ^ j \<le> le_val b ds"
proof (induction ds arbitrary: j)
  case (Cons d ds)
  then show ?case
  proof (cases j)
    case (Suc i)
    then have "b * b ^ i \<le> b * le_val b ds" using Cons by (intro mult_le_mono2) auto
    then show ?thesis using Suc by (simp add: trans_le_add2)
  qed auto
qed simp

lemma conv_step_ok:
  assumes inv: "conv_inv b sz v s" and small: "m * v + d < b ^ sz" and m: "0 < m" and b: "0 < b"
  obtains s' where "conv_step b m d s = Some s'" "conv_inv b sz (m * v + d) s'"
proof -
  obtain buf len where s: "s = (buf, len)" by fastforce
  obtain ys cf k where r: "carry_loop b m len 0 d buf = (ys, cf, k)" by (metis prod_cases3)
  have i: "length buf = sz" "len \<le> sz" "\<forall>d \<in> set buf. d < b" "le_val b buf = v" "\<forall>j < sz. len \<le> j \<longrightarrow> buf ! j = 0"
    "len = 0 \<or> b ^ (len - 1) \<le> v" using inv by (auto simp: conv_inv_def s)
  have c: "length ys = sz \<and> le_val b ys + b ^ sz * cf = m * v + d \<and> 0 \<le> k \<and> k \<le> 0 + sz \<and>
    (\<forall>y \<in> set ys. y < b) \<and> (\<forall>j < sz. k \<le> 0 + j \<longrightarrow> ys ! j = 0) \<and>
    (min len (0 + sz) \<le> k) \<and> (0 < k \<longrightarrow> len < k \<longrightarrow> cf = 0 \<longrightarrow> ys ! (k - 1 - 0) \<noteq> 0)"
    using carry_loop_val [OF r _ b] i by simp
  have cf: "cf = 0"
  proof (rule ccontr)
    assume "cf \<noteq> 0"
    then have "b ^ sz * 1 \<le> b ^ sz * cf" by (intro mult_le_mono2) simp
    then show False using c small by linarith
  qed
  have "b ^ (k - 1) \<le> m * v + d" if "0 < k"
  proof (cases "len < k")
    case True
    then have "ys ! (k - 1) \<noteq> 0" "k - 1 < length ys" using c cf that by auto
    then show ?thesis using le_val_ge_nth [of "k - 1" ys b] c cf by simp
  next
    case False
    then have "k = len" using c i(2) by auto
    then have "b ^ (k - 1) \<le> v" using i(6) that by auto
    also have "v \<le> m * v" using m by simp
    finally show ?thesis by linarith
  qed
  then have "conv_inv b sz (m * v + d) (ys, k)" using c cf by (auto simp: conv_inv_def)
  then show thesis using that [of "(ys, k)"] by (simp add: conv_step_def s r cf)
qed

lemma foldl_digits: "foldl (\<lambda>v d. m * v + d) v ds = m ^ length ds * v + le_val m (rev ds)" for m v :: nat
  by (induction ds arbitrary: v) (auto simp: le_val_append algebra_simps)

lemma conv_all:
  assumes "conv_inv b sz v s" and "foldl (\<lambda>v d. m * v + d) v ds < b ^ sz" and "0 < m" and "0 < b"
  shows "\<exists>s'. ofold (conv_step b m) ds s = Some s' \<and> conv_inv b sz (foldl (\<lambda>v d. m * v + d) v ds) s'"
  using assms
proof (induction ds arbitrary: v s)
  case (Cons d ds)
  have "m * v + d \<le> foldl (\<lambda>v d. m * v + d) (m * v + d) ds" using Cons.prems(3) by (simp add: foldl_digits trans_le_add1)
  then have "m * v + d < b ^ sz" using Cons.prems(2) by simp
  then obtain s1 where "conv_step b m d s = Some s1" "conv_inv b sz (m * v + d) s1"
    using conv_step_ok [OF Cons.prems(1)] Cons.prems(3,4) by metis
  then show ?case using Cons.IH [of "m * v + d" s1] Cons.prems by simp
qed simp

text \<open>The conversion of a digit string of base \<open>m\<close> yields the digits of base \<open>b\<close> without leading zeros.\<close>

definition canonical :: "nat \<Rightarrow> nat list \<Rightarrow> bool" where
  "canonical b ds \<longleftrightarrow> (\<forall>d \<in> set ds. d < b) \<and> (ds = [] \<or> last ds \<noteq> 0)"

lemma le_val_zero: "canonical b ds \<Longrightarrow> 0 < b \<Longrightarrow> le_val b ds = 0 \<Longrightarrow> ds = []"
  by (induction ds) (auto simp: canonical_def split: if_splits)

lemma le_val_unique: "canonical b xs \<Longrightarrow> canonical b ys \<Longrightarrow> 0 < b \<Longrightarrow> le_val b xs = le_val b ys \<Longrightarrow> xs = ys"
proof (induction xs arbitrary: ys)
  case Nil
  then show ?case using le_val_zero [of b ys] by simp
next
  case (Cons x xs)
  then have "ys \<noteq> []" using le_val_zero [of b "x # xs"] by auto
  then obtain y zs where ys: "ys = y # zs" by (cases ys) auto
  have c: "canonical b xs" "canonical b zs" "x < b" "y < b" using Cons.prems by (auto simp: canonical_def ys split: if_splits)
  have "x = (x + b * le_val b xs) mod b" "y = (y + b * le_val b zs) mod b" using c by simp_all
  then have "x = y" using Cons.prems(4) by (metis le_val.simps(2) ys)
  moreover have "le_val b xs = le_val b zs" using Cons.prems(3,4) \<open>x = y\<close> by (simp add: ys)
  ultimately show ?case using Cons.IH [OF c(1,2) Cons.prems(3)] ys by simp
qed

lemma conv_digits:
  assumes "le_val m (rev ds) < b ^ sz" and "0 < m" and "1 < b"
  obtains buf len where "ofold (conv_step b m) ds (replicate sz 0, 0) = Some (buf, len)" "length buf = sz"
    "canonical b (take len buf)" "le_val b (take len buf) = le_val m (rev ds)" "len \<le> sz"
proof -
  have "conv_inv b sz 0 (replicate sz 0, 0)" using assms(3) by (simp add: conv_inv_def)
  then obtain s where s: "ofold (conv_step b m) ds (replicate sz 0, 0) = Some s" "conv_inv b sz (le_val m (rev ds)) s"
    using conv_all [of b sz 0 "(replicate sz 0, 0)" m ds] assms by (auto simp: foldl_digits)
  obtain buf len where bl: "s = (buf, len)" by fastforce
  have i: "length buf = sz" "len \<le> sz" "\<forall>d \<in> set buf. d < b" "le_val b buf = le_val m (rev ds)"
    "\<forall>j < sz. len \<le> j \<longrightarrow> buf ! j = 0" "len = 0 \<or> b ^ (len - 1) \<le> le_val m (rev ds)"
    using s(2) by (auto simp: conv_inv_def bl)
  have v: "le_val b (take len buf) = le_val m (rev ds)" using le_val_drop_zeros [of buf len b] i by simp
  have "last (take len buf) \<noteq> 0" if "take len buf \<noteq> []"
  proof
    assume z: "last (take len buf) = 0"
    have len: "0 < len" "length (take len buf) = len" using that i(1,2) by auto
    have "le_val b (take len buf) = le_val b (butlast (take len buf) @ [last (take len buf)])" using that by simp
    also have "\<dots> = le_val b (butlast (take len buf))" using z by (simp only: le_val_append) simp
    also have "\<dots> < b ^ (len - 1)"
      using le_val_less [of "butlast (take len buf)" b] i(3) len(2) by (auto dest!: in_set_butlastD in_set_takeD)
    finally show False using v i(6) len(1) by linarith
  qed
  moreover have "\<forall>d \<in> set (take len buf). d < b" using i(3) by (auto dest: in_set_takeD)
  ultimately have "canonical b (take len buf)" unfolding canonical_def by blast
  then show thesis using that [of buf len] s(1) bl i v by simp
qed

section \<open>The buffers are large enough\<close>

lemma power_ratio:
  fixes a c :: nat
  assumes "a ^ p \<le> c ^ q" and "0 < p" and "q * n \<le> p * k" and "0 < c"
  shows "a ^ n \<le> c ^ k"
proof -
  have "(a ^ n) ^ p = (a ^ p) ^ n" by (simp add: power_mult [symmetric] mult.commute)
  also have "\<dots> \<le> (c ^ q) ^ n" using assms(1) by (rule power_mono) simp
  also have "\<dots> = c ^ (q * n)" by (simp add: power_mult)
  also have "\<dots> \<le> c ^ (p * k)" using assms(3,4) by (intro power_increasing) auto
  also have "\<dots> = (c ^ k) ^ p" by (simp add: power_mult [symmetric] mult.commute)
  finally show ?thesis using assms(2) power_mono_iff [of "a ^ n" "c ^ k" p] by simp
qed

lemma encode_size: "(256 :: nat) ^ n \<le> 58 ^ (n * 138 div 100 + 1)"
proof (rule power_ratio [of _ 50 _ 69])
  define q where "q = n * 138 div 100"
  define r where "r = n * 138 mod 100"
  have "n * 138 = q * 100 + r" unfolding q_def r_def by (rule div_mod_decomp)
  moreover have "r < 100" by (simp add: r_def)
  ultimately have "69 * n \<le> 50 * (q + 1)" by presburger
  then show "69 * n \<le> 50 * (n * 138 div 100 + 1)" by (simp only: q_def)
qed simp_all

lemma decode_size: "(58 :: nat) ^ n \<le> 256 ^ (n * 733 div 1000 + 1)"
proof (rule power_ratio [of _ 71 _ 52])
  define q where "q = n * 733 div 1000"
  define r where "r = n * 733 mod 1000"
  have "n * 733 = q * 1000 + r" unfolding q_def r_def by (rule div_mod_decomp)
  moreover have "r < 1000" by (simp add: r_def)
  ultimately have "52 * n \<le> 71 * (q + 1)" by (simp add: algebra_simps)
  then show "52 * n \<le> 71 * (n * 733 div 1000 + 1)" by (simp only: q_def)
qed simp_all

section \<open>Round trip\<close>

lemma alphabet_table: "\<forall>d \<in> {0..<58}. mapBase58 ! of_char (pszBase58 ! d) = int d \<and> \<not> is_space (pszBase58 ! d) \<and>
    (pszBase58 ! d = CHR ''1'' \<longleftrightarrow> d = 0) \<and> pszBase58 ! d \<noteq> CHR 0x00"
  by code_simp

lemma alphabet:
  assumes "d < 58"
  shows "mapBase58 ! of_char (pszBase58 ! d) = int d" and "\<not> is_space (pszBase58 ! d)"
    and "pszBase58 ! d = CHR ''1'' \<longleftrightarrow> d = 0" and "pszBase58 ! d \<noteq> CHR 0x00"
  using alphabet_table assms by auto

lemma canonical_dropWhile:
  "canonical b ds \<Longrightarrow> dropWhile (\<lambda>d. d = 0) (rev ds) = rev ds"
  by (cases ds rule: rev_cases) (auto simp: canonical_def)

text \<open>The text of a number: no leading one, no space.\<close>

lemma digits_text:
  assumes "canonical 58 ds" and "t = map (\<lambda>d. pszBase58 ! d) (rev ds)"
  shows "dropWhile (\<lambda>c. c = CHR ''1'') (replicate z (CHR ''1'') @ t) = t"
    and "takeWhile (\<lambda>c. c = CHR ''1'') (replicate z (CHR ''1'') @ t) = replicate z (CHR ''1'')"
    and "dropWhile is_space (replicate z (CHR ''1'') @ t) = replicate z (CHR ''1'') @ t"
    and "takeWhile (\<lambda>c. \<not> is_space c) t = t"
    and "map (\<lambda>c. mapBase58 ! (of_char c :: nat)) t = map int (rev ds)"
    and "CHR 0x00 \<notin> set t"
proof -
  have d: "d < 58" if "d \<in> set ds" for d using that assms(1) by (auto simp: canonical_def)
  have ns: "\<not> is_space c" if "c \<in> set t" for c using that d alphabet(2) by (auto simp: assms(2))
  have hd: "hd t \<noteq> CHR ''1''" if "t \<noteq> []"
    using that assms alphabet(3) [of "last ds"] d [of "last ds"] by (auto simp: canonical_def hd_map hd_rev)
  then have "dropWhile (\<lambda>c. c = CHR ''1'') t = t" "takeWhile (\<lambda>c. c = CHR ''1'') t = []" by (cases t; auto)+
  then show "dropWhile (\<lambda>c. c = CHR ''1'') (replicate z (CHR ''1'') @ t) = t"
    and "takeWhile (\<lambda>c. c = CHR ''1'') (replicate z (CHR ''1'') @ t) = replicate z (CHR ''1'')"
    by (induction z) simp_all
  have "\<not> is_space (CHR ''1'')" by (simp add: is_space_def)
  then show "dropWhile is_space (replicate z (CHR ''1'') @ t) = replicate z (CHR ''1'') @ t"
    using ns by (cases z; cases t) auto
  show "takeWhile (\<lambda>c. \<not> is_space c) t = t" using ns by (simp add: takeWhile_eq_all_conv)
  show "map (\<lambda>c. mapBase58 ! (of_char c :: nat)) t = map int (rev ds)" using d alphabet(1) by (simp add: assms(2))
  show "CHR 0x00 \<notin> set t" using d alphabet(4) by (auto simp: assms(2)) metis
qed

lemma byte_less: "unat (x :: u8) < 256"
  using unsigned_less [of x] by simp

lemma encode_digits:
  obtains ds where "base58_encode input =
      Some (replicate (length (takeWhile (\<lambda>b. b = 0) input)) (CHR ''1'') @ map (\<lambda>d. pszBase58 ! d) (rev ds))"
    "canonical 58 ds" "le_val 58 ds = le_val 256 (rev (map unat (dropWhile (\<lambda>b. b = 0) input)))"
proof -
  define rest where "rest = dropWhile (\<lambda>b. b = 0) input"
  define sz where "sz = length rest * 138 div 100 + 1"
  have "le_val 256 (rev (map unat rest)) < 256 ^ length rest"
    using le_val_less [of "rev (map unat rest)" 256] byte_less by auto
  also have "\<dots> \<le> 58 ^ sz" unfolding sz_def by (rule encode_size)
  finally obtain buf len where c: "ofold (conv_step 58 256) (map unat rest) (replicate sz 0, 0) = Some (buf, len)" "length buf = sz"
    "canonical 58 (take len buf)" "le_val 58 (take len buf) = le_val 256 (rev (map unat rest))" "len \<le> sz"
    using conv_digits [of 256 "map unat rest" 58 sz] by auto
  have "drop (sz - len) (rev buf) = rev (take len buf)" using c(2,5) by (simp add: rev_take)
  then have "base58_encode input = Some (replicate (length (takeWhile (\<lambda>b. b = 0) input)) (CHR ''1'') @
      map (\<lambda>d. pszBase58 ! d) (rev (take len buf)))"
    unfolding base58_encode_def Let_def rest_def [symmetric] sz_def [symmetric] c(1)
    using canonical_dropWhile [OF c(3)] by simp
  then show thesis using that c(3,4) by (simp add: rest_def)
qed

text \<open>
  C39: every byte string is encoded (no buffer of the encoder is too small), and \<^verbatim>\<open>base58_decode\<close> of the text gives the
  byte string back, leading zero bytes included.
\<close>

theorem base58_round_trip: "\<exists>t. base58_encode input = Some t \<and> base58_decode t = Some input"
proof -
  define z where "z = length (takeWhile (\<lambda>b. b = 0) input)"
  define rest where "rest = dropWhile (\<lambda>b. b = 0) input"
  obtain ds where e: "base58_encode input = Some (replicate z (CHR ''1'') @ map (\<lambda>d. pszBase58 ! d) (rev ds))"
    "canonical 58 ds" "le_val 58 ds = le_val 256 (rev (map unat rest))"
    using encode_digits unfolding z_def rest_def by metis
  define t where "t = map (\<lambda>d. pszBase58 ! d) (rev ds)"
  note x = digits_text(1-3) [OF e(2) t_def, of z] digits_text(4-6) [OF e(2) t_def]
  define sz where "sz = length t * 733 div 1000 + 1"
  have "le_val 58 (rev (rev ds)) < 58 ^ length ds" using le_val_less [of ds 58] e(2) by (simp add: canonical_def)
  also have "\<dots> \<le> 256 ^ sz" unfolding sz_def using decode_size [of "length ds"] by (simp add: t_def)
  finally obtain buf len where c: "ofold (conv_step 256 58) (rev ds) (replicate sz 0, 0) = Some (buf, len)" "length buf = sz"
    "canonical 256 (take len buf)" "le_val 256 (take len buf) = le_val 58 (rev (rev ds))" "len \<le> sz"
    using conv_digits [of 58 "rev ds" 256 sz] by auto
  have "canonical 256 (rev (map unat rest))"
  proof -
    have "unat (hd rest) \<noteq> 0" if "rest \<noteq> []" using that hd_dropWhile [of "\<lambda>b. b = 0" input] by (simp add: rest_def unat_eq_0)
    then show ?thesis using byte_less by (cases rest) (auto simp: canonical_def last_rev)
  qed
  then have "take len buf = rev (map unat rest)" using le_val_unique [OF c(3)] c(4) e(3) by simp
  moreover have "drop (sz - len) (rev buf) = rev (take len buf)" using c(2,5) by (simp add: rev_take)
  ultimately have out: "map word_of_nat (drop (sz - len) (rev buf)) = rest" by (simp add: comp_def rev_map)
  have tw: "takeWhile (\<lambda>d. d \<noteq> -1) (map int (rev ds)) = map int (rev ds)" "map nat (map int (rev ds)) = rev ds"
    "(-1 \<in> set (map int (rev ds))) = False"
    by (auto simp: takeWhile_eq_all_conv comp_def)
  have dw: "dropWhile (\<lambda>c. \<not> is_space c) t = []" using x(4) by (metis append_Nil2 same_append_eq takeWhile_dropWhile_id)
  have "base58_decode_cstr (replicate z (CHR ''1'') @ t) = Some (replicate z 0 @ rest)"
    unfolding base58_decode_cstr_def Let_def x tw dw sz_def [symmetric] c(1) using out by simp
  moreover have "replicate z 0 @ rest = input"
  proof -
    have "takeWhile (\<lambda>b. b = 0) input = replicate z 0" unfolding z_def by (rule replicate_eqI) (auto dest: set_takeWhileD)
    then show ?thesis by (metis rest_def takeWhile_dropWhile_id)
  qed
  ultimately have "base58_decode (replicate z (CHR ''1'') @ t) = Some input"
    using x(6) by (simp add: base58_decode_def)
  then show ?thesis using e(1) by (simp add: t_def)
qed

end
