(* ===== verification/Node_Api.thy ===== *)
theory Node_Api
  imports Tasks Crypto_Wrappers Base58
begin

text \<open>
  The public interface of a node, \<^verbatim>\<open>src/core/node.cc\<close>: the identity it keeps in files, starting and stopping, the futures that its
  lookups and stores return, and the re-announcement of persistent values and peers. The file system is a record of what is there and of
  which operations succeed. A DHT takes part by calling the completion handler of an operation; a completion is one step, and a
  handler that throws says so beside the state it reached. Creating the DHT objects, the server and its thread is not modelled here.
\<close>

definition NODE_RE_ANNOUNCE_INTERVAL :: int where [simp]: "NODE_RE_ANNOUNCE_INTERVAL = 300000"

section \<open>Identity\<close>

datatype disk_file = Directory | Regular "u8 list"

record files =
  fl_stat :: "string \<rightharpoonup> disk_file"
  fl_denied :: "string \<Rightarrow> bool" \<comment> \<open>stat fails with an error other than ENOENT\<close>
  fl_mkdir :: "string \<Rightarrow> bool"
  fl_opens :: "string \<Rightarrow> bool" \<comment> \<open>opening the file succeeds\<close>

record configuration =
  cf_addr4 :: "sockaddr option"
  cf_addr6 :: "sockaddr option"
  cf_storagePath :: string
  cf_port :: int

definition checkPersistence :: "string \<Rightarrow> files \<Rightarrow> bool \<times> files" where
  "checkPersistence path fs =
     (if path = [] then (False, fs)
      else if path = ''.'' then (True, fs)
      else if fl_denied fs path then (False, fs)
      else case fl_stat fs path of
             None \<Rightarrow> if \<not> fl_mkdir fs path then (False, fs) else (True, fs\<lparr>fl_stat := (fl_stat fs)(path \<mapsto> Directory)\<rparr>)
           | Some Directory \<Rightarrow> (True, fs)
           | Some (Regular _) \<Rightarrow> (False, fs))"

definition loadKey :: "sodium \<Rightarrow> string \<Rightarrow> files \<Rightarrow> string + keypair" where
  "loadKey S path fs =
     (case (fl_opens fs path, fl_stat fs path) of
        (True, Some (Regular content)) \<Rightarrow> if content = [] then Inl ''Key file is empty.'' else kp_of_blob S content
      | _ \<Rightarrow> Inl ''Can not read the key file.'')"

definition writeFile :: "string \<Rightarrow> u8 list \<Rightarrow> files \<Rightarrow> files" where
  "writeFile path content fs = fs\<lparr>fl_stat := (fl_stat fs)(path \<mapsto> Regular content)\<rparr>"

definition initKey :: "sodium \<Rightarrow> nat \<Rightarrow> string \<Rightarrow> files \<Rightarrow> string + keypair \<times> files" where
  "initKey S r path fs =
     (let kp = kp_random S r in
      if \<not> fl_opens fs path then Inl ''Failed to open file for writing.'' else Inr (kp, writeFile path (kp_sk kp) fs))"

definition writeIdFile :: "string \<Rightarrow> id \<Rightarrow> files \<Rightarrow> string + files" where
  "writeIdFile path i fs =
     (if path = [] then Inl ''File path is empty''
      else if \<not> fl_opens fs path then Inl (''Failed to open file '' @ path)
      else Inr (writeFile path (string_bytes (the (base58_encode (bytes i)))) fs))"

datatype node_status = Stopped | Initializing | Running

record node_api =
  na_keyPair :: keypair
  na_encryptionKeyPair :: keypair
  na_id :: id
  na_persistent :: bool
  na_storagePath :: string
  na_status :: node_status
  na_events :: "(node_status \<times> node_status) list" \<comment> \<open>new and old status, as reported to the listeners\<close>
  na_dht4 :: bool
  na_dht6 :: bool
  na_numDHTs :: int
  na_server :: bool \<comment> \<open>there is a server\<close>
  na_actions :: nat \<comment> \<open>the scheduled actions\<close>
  na_open :: bool \<comment> \<open>the storage is open\<close>
  na_storage :: storage

text \<open>The constructor: \<open>r\<close> and \<open>r'\<close> are the randomness of the member \<^verbatim>\<open>keyPair\<close> and of \<^verbatim>\<open>initKey\<close>.\<close>

definition node_keys :: "sodium \<Rightarrow> nat \<Rightarrow> nat \<Rightarrow> bool \<Rightarrow> string \<Rightarrow> files \<Rightarrow> string + keypair \<times> files" where
  "node_keys S r r' persistent storagePath fs =
     (if \<not> persistent then Inr (kp_random S r, fs)
      else let keyPath = storagePath @ ''/key'' in
           if fl_denied fs keyPath \<or> fl_stat fs keyPath = None then initKey S r' keyPath fs
           else if fl_stat fs keyPath = Some Directory then Inr (kp_random S r, fs)
           else map_sum (\<lambda>e. e) (\<lambda>kp. (kp, fs)) (loadKey S keyPath fs))"

definition mk_node :: "sodium \<Rightarrow> nat \<Rightarrow> nat \<Rightarrow> configuration \<Rightarrow> storage \<Rightarrow> files \<Rightarrow> string + node_api \<times> files" where
  "mk_node S r r' cfg db fs =
     (if cf_addr4 cfg = None \<and> cf_addr6 cfg = None then Inl ''No listening address''
      else
        let path = (if cf_storagePath cfg = [] then ''.'' else cf_storagePath cfg);
            (persistent, fs) = checkPersistence path fs
        in case node_keys S r r' persistent path fs of
             Inl e \<Rightarrow> Inl e
           | Inr (kp, fs) \<Rightarrow>
               (case id_or_throw (kp_pk kp) of
                  Inl e \<Rightarrow> Inl e
                | Inr i \<Rightarrow>
                    (case (if persistent then writeIdFile (path @ ''/id'') i fs else Inr fs) of
                       Inl e \<Rightarrow> Inl e
                     | Inr fs \<Rightarrow>
                         (case box_kp_fromSignatureKeyPair S kp of
                            Inl e \<Rightarrow> Inl e
                          | Inr bkp \<Rightarrow>
                              Inr (\<lparr>na_keyPair = kp, na_encryptionKeyPair = bkp, na_id = i, na_persistent = persistent, na_storagePath = path,
                                    na_status = Stopped, na_events = [], na_dht4 = False, na_dht6 = False, na_numDHTs = 0, na_server = False, na_actions = 0, na_open = False,
                                    na_storage = db\<rparr>, fs)))))"

section \<open>Starting and stopping\<close>

definition na_setStatus :: "node_status \<Rightarrow> node_status \<Rightarrow> node_api \<Rightarrow> node_api" where
  "na_setStatus expected newStatus nd =
     (if na_status nd \<noteq> expected then nd else nd\<lparr>na_status := newStatus, na_events := na_events nd @ [(newStatus, na_status nd)]\<rparr>)"

definition isRunning :: "node_api \<Rightarrow> bool" where
  "isRunning nd \<longleftrightarrow> na_status nd = Running"

definition na_start :: "configuration \<Rightarrow> node_api \<Rightarrow> node_api" where
  "na_start cfg nd =
     (if na_status nd \<noteq> Stopped then nd
      else
        let nd = na_setStatus Stopped Initializing nd;
            nd = (if cf_addr4 cfg \<noteq> None then nd\<lparr>na_dht4 := True\<rparr> else nd);
            nd = (if cf_addr6 cfg \<noteq> None then nd\<lparr>na_dht6 := True\<rparr> else nd);
            nd = na_setStatus Initializing Running nd;
            nd = nd\<lparr>na_server := True, na_open := True\<rparr>;
            nd = (if na_dht4 nd then nd\<lparr>na_numDHTs := na_numDHTs nd + 1\<rparr> else nd);
            nd = (if na_dht6 nd then nd\<lparr>na_numDHTs := na_numDHTs nd + 1\<rparr> else nd)
        in nd\<lparr>na_actions := na_actions nd + 1\<rparr>)"

definition na_stop :: "node_api \<Rightarrow> node_api" where
  "na_stop nd =
     (if na_status nd = Stopped then nd
      else na_setStatus Running Stopped (nd\<lparr>na_actions := 0, na_server := False, na_dht4 := False, na_dht6 := False, na_open := False\<rparr>))"

definition getPort :: "configuration \<Rightarrow> int" where
  "getPort cfg = (if cf_port cfg \<le> 0 \<or> cf_port cfg > 65535 then 39001 else cf_port cfg)"

definition callers :: "node_api \<Rightarrow> nat" where
  "callers nd = of_bool (na_dht4 nd) + of_bool (na_dht6 nd)"

section \<open>Futures\<close>

datatype 'a promise = Unset | Value 'a | Exception string

text \<open>\<^verbatim>\<open>set_value\<close> throws \<^verbatim>\<open>future_error\<close> when the promise is already satisfied.\<close>

definition set_value :: "'a \<Rightarrow> 'a promise \<Rightarrow> 'a promise \<times> bool" where
  "set_value x p = (case p of Unset \<Rightarrow> (Value x, False) | _ \<Rightarrow> (p, True))"

record ('a, 'r) future =
  ft_completion :: int
  ft_value :: 'a
  ft_promise :: "'r promise"

definition mk_future :: "'a \<Rightarrow> ('a, 'r) future" where
  "mk_future x = \<lparr>ft_completion = 0, ft_value = x, ft_promise = Unset\<rparr>"

subsection \<open>Nodes\<close>

record 'a result =
  res_v4 :: "'a option"
  res_v6 :: "'a option"

definition res_hasValue :: "'a result \<Rightarrow> bool" where
  "res_hasValue r \<longleftrightarrow> res_v4 r \<noteq> None \<or> res_v6 r \<noteq> None"

definition res_setValue :: "network \<Rightarrow> 'a \<Rightarrow> 'a result \<Rightarrow> 'a result" where
  "res_setValue net x r = (case net of IPv4 \<Rightarrow> r\<lparr>res_v4 := Some x\<rparr> | IPv6 \<Rightarrow> r\<lparr>res_v6 := Some x\<rparr>)"

text \<open>\<open>known4\<close> and \<open>known6\<close> are what the routing tables hold for the identifier.\<close>

definition na_findNode ::
  "id \<Rightarrow> lookup_option \<Rightarrow> node_info option \<Rightarrow> node_info option \<Rightarrow> node_api \<Rightarrow> string + (node_info result, node_info result) future" where
  "na_findNode i opt known4 known6 nd =
     (if \<not> isRunning nd then Inl ''Node not running''
      else if i = zero_id then Inl ''Invalid peer id''
      else let r = \<lparr>res_v4 = (if na_dht4 nd then known4 else None), res_v6 = (if na_dht6 nd then known6 else None)\<rparr> in
           if opt = ARBITRARY \<and> res_hasValue r then Inr ((mk_future r)\<lparr>ft_promise := Value r\<rparr>) else Inr (mk_future r))"

text \<open>After the move the shared result is empty.\<close>

definition node_completed ::
  "lookup_option \<Rightarrow> int \<Rightarrow> node_info option \<Rightarrow> (node_info result, node_info result) future \<Rightarrow> (node_info result, node_info result) future \<times> bool" where
  "node_completed opt numDHTs ni f =
     (let f = f\<lparr>ft_completion := ft_completion f + 1,
                ft_value := (case ni of None \<Rightarrow> ft_value f | Some n \<Rightarrow> res_setValue (network_of (n_addr n)) n (ft_value f))\<rparr>
      in if (opt = OPTIMISTIC \<and> ni \<noteq> None) \<or> ft_completion f \<ge> numDHTs
         then let (p, thrown) = set_value (ft_value f) (ft_promise f)
              in (f\<lparr>ft_promise := p, ft_value := (if thrown then ft_value f else \<lparr>res_v4 = None, res_v6 = None\<rparr>)\<rparr>, thrown)
         else (f, False))"

subsection \<open>Values\<close>

definition na_findValue :: "u64 \<Rightarrow> id \<Rightarrow> lookup_option \<Rightarrow> node_api \<Rightarrow> string + (value_record option, value_record option) future" where
  "na_findValue now i opt nd =
     (if \<not> isRunning nd then Inl ''Node not running''
      else if i = zero_id then Inl ''Invalid peer id''
      else case st_getValue now i (na_storage nd) of
             Inl e \<Rightarrow> Inl e
           | Inr localVal \<Rightarrow>
               if (case localVal of Some v \<Rightarrow> opt = ARBITRARY \<or> \<not> isMutable v | None \<Rightarrow> False)
               then Inr ((mk_future localVal)\<lparr>ft_promise := Value localVal\<rparr>)
               else Inr (mk_future localVal))"

definition newer_value :: "value_record option \<Rightarrow> value_record option \<Rightarrow> value_record option" where
  "newer_value found old =
     (case (found, old) of
        (None, _) \<Rightarrow> old
      | (Some v, None) \<Rightarrow> Some v
      | (Some v, Some w) \<Rightarrow> if \<not> isMutable v \<or> v_sequenceNumber w < v_sequenceNumber v then Some v else Some w)"

text \<open>A failure to store the value locally is only logged.\<close>

definition keep_locally :: "crypto \<Rightarrow> u64 \<Rightarrow> value_record option \<Rightarrow> storage \<Rightarrow> storage" where
  "keep_locally C now v st =
     (case v of None \<Rightarrow> st | Some v \<Rightarrow> (case st_putValue C now v (-1) False False st of Inl _ \<Rightarrow> st | Inr (_, st') \<Rightarrow> st'))"

type_synonym value_future = "(value_record option, value_record option) future \<times> storage"

definition value_completed :: "crypto \<Rightarrow> lookup_option \<Rightarrow> int \<Rightarrow> u64 \<times> value_record option \<Rightarrow> value_future \<Rightarrow> value_future \<times> bool" where
  "value_completed C opt numDHTs e s =
     (let (now, found) = e; (f, st) = s;
          f = f\<lparr>ft_completion := ft_completion f + 1, ft_value := newer_value found (ft_value f)\<rparr>
      in if (opt = OPTIMISTIC \<and> found \<noteq> None) \<or> ft_completion f \<ge> numDHTs
         then let st = keep_locally C now (ft_value f) st; (p, thrown) = set_value (ft_value f) (ft_promise f)
              in ((f\<lparr>ft_promise := p\<rparr>, st), thrown)
         else ((f, st), False))"

subsection \<open>Stores and announcements\<close>

definition stored_completed :: "int \<Rightarrow> 'a \<Rightarrow> (unit, unit) future \<Rightarrow> (unit, unit) future \<times> bool" where
  "stored_completed numDHTs nodes f =
     (let f = f\<lparr>ft_completion := ft_completion f + 1\<rparr>
      in if ft_completion f \<ge> numDHTs then let (p, thrown) = set_value () (ft_promise f) in (f\<lparr>ft_promise := p\<rparr>, thrown) else (f, False))"

definition na_storeValue :: "crypto \<Rightarrow> u64 \<Rightarrow> value_record \<Rightarrow> bool \<Rightarrow> node_api \<Rightarrow> string + (unit, unit) future \<times> node_api" where
  "na_storeValue C now v persistent nd =
     (if \<not> isRunning nd then Inl ''Node not running''
      else if \<not> v_isValid C v then Inl ''Invalid value''
      else case st_putValue C now v (-1) persistent True (na_storage nd) of
             Inl e \<Rightarrow> Inr ((mk_future ())\<lparr>ft_promise := Exception e\<rparr>, nd)
           | Inr (_, st) \<Rightarrow> Inr (mk_future (), nd\<lparr>na_storage := st\<rparr>))"

definition na_announcePeer :: "crypto \<Rightarrow> u64 \<Rightarrow> peer_info \<Rightarrow> bool \<Rightarrow> node_api \<Rightarrow> string + (unit, unit) future \<times> node_api" where
  "na_announcePeer C now p persistent nd =
     (if \<not> isRunning nd then Inl ''Node not running''
      else if p_origin p \<noteq> na_id nd then Inl ''Invaid peer: not belongs to current node''
      else if \<not> p_isValid C p then Inl ''Invalid peer''
      else Inr (mk_future (), nd\<lparr>na_storage := st_putPeer now p persistent True (na_storage nd)\<rparr>))"

subsection \<open>Peers\<close>

text \<open>Insertion into the \<^verbatim>\<open>std::set\<close> that removes duplicates, ordered by \<^verbatim>\<open>operator<\<close>, with the list of results beside it.\<close>

definition add_peer :: "peer_info \<Rightarrow> peer_info list \<Rightarrow> peer_info list" where
  "add_peer p ps = (if \<exists>q \<in> set ps. \<not> p_less p q \<and> \<not> p_less q p then ps else ps @ [p])"

definition add_peers :: "peer_info list \<Rightarrow> peer_info list \<Rightarrow> peer_info list" where
  "add_peers new ps = fold add_peer new ps"

definition na_findPeer ::
  "crypto \<Rightarrow> u64 \<Rightarrow> (((id \<times> id \<times> id) \<times> peer_row) list \<Rightarrow> ((id \<times> id \<times> id) \<times> peer_row) list) \<Rightarrow> id \<Rightarrow> int \<Rightarrow> lookup_option \<Rightarrow> node_api \<Rightarrow>
   string + (peer_info list, peer_info list) future" where
  "na_findPeer C now shuffle i expected opt nd =
     (if \<not> isRunning nd then Inl ''Node not running''
      else if i = zero_id then Inl ''Invalid peer id''
      else case st_getPeers C now shuffle i expected (na_storage nd) of
             Inl e \<Rightarrow> Inl e
           | Inr peers \<Rightarrow>
               let results = add_peers peers [] in
               if expected > 0 \<and> int (length results) \<ge> expected \<and> opt = ARBITRARY
               then Inr ((mk_future results)\<lparr>ft_promise := Value results\<rparr>)
               else Inr (mk_future results))"

type_synonym peer_future = "(peer_info list, peer_info list) future \<times> storage"

definition peer_completed :: "int \<Rightarrow> u64 \<times> peer_info list \<Rightarrow> peer_future \<Rightarrow> peer_future \<times> bool" where
  "peer_completed numDHTs e s =
     (let (now, peers) = e; (f, st) = s;
          f = f\<lparr>ft_completion := ft_completion f + 1, ft_value := add_peers peers (ft_value f)\<rparr>;
          st = st_putPeers now (ft_value f) st
      in if ft_completion f \<ge> numDHTs
         then let (p, thrown) = set_value (ft_value f) (ft_promise f)
              in ((f\<lparr>ft_promise := p, ft_value := (if thrown then ft_value f else [])\<rparr>, st), thrown)
         else ((f, st), False))"

section \<open>The local store\<close>

definition na_getValue :: "u64 \<Rightarrow> id \<Rightarrow> node_api \<Rightarrow> string + value_record option" where
  "na_getValue now i nd = (if i = zero_id then Inl ''Invalid value id'' else st_getValue now i (na_storage nd))"

definition na_removeValue :: "id \<Rightarrow> node_api \<Rightarrow> string + bool \<times> node_api" where
  "na_removeValue i nd =
     (if i = zero_id then Inl ''Invalid value id'' else let (b, st) = st_removeValue i (na_storage nd) in Inr (b, nd\<lparr>na_storage := st\<rparr>))"

definition na_getPeer :: "crypto \<Rightarrow> u64 \<Rightarrow> id \<Rightarrow> node_api \<Rightarrow> string + peer_info option" where
  "na_getPeer C now i nd = (if i = zero_id then Inl ''Invalid peer id'' else st_getPeer C now i (na_id nd) (na_storage nd))"

definition na_removePeer :: "id \<Rightarrow> node_api \<Rightarrow> string + bool \<times> node_api" where
  "na_removePeer i nd =
     (if i = zero_id then Inl ''Invalid peer id'' else let (b, st) = st_removePeer i (na_id nd) (na_storage nd) in Inr (b, nd\<lparr>na_storage := st\<rparr>))"

section \<open>Re-announcement\<close>

text \<open>The loops of \<^verbatim>\<open>persistentAnnounce\<close>: the values and peers announced, and the exception that ended the loop, if any.\<close>

fun announce_values :: "crypto \<Rightarrow> u64 \<Rightarrow> value_record list \<Rightarrow> storage \<Rightarrow> string option \<times> value_record list \<times> storage" where
  "announce_values C now [] st = (None, [], st)"
| "announce_values C now (v # vs) st =
     (case v_getId C v of
        None \<Rightarrow> (Some ''The binary id should be 32 bytes long.'', [], st)
      | Some i \<Rightarrow> let (e, out, st') = announce_values C now vs (st_updateValueLastAnnounce now i st) in (e, v # out, st'))"

definition announce_before :: "u64 \<Rightarrow> int \<Rightarrow> u64" where
  "announce_before now maxAge = now - word_of_int maxAge + word_of_int (NODE_RE_ANNOUNCE_INTERVAL * 2)"

definition announce_peers :: "u64 \<Rightarrow> peer_info list \<Rightarrow> storage \<Rightarrow> storage" where
  "announce_peers now ps st = fold (\<lambda>p. st_updatePeerLastAnnounce now (p_publicKey p) (p_origin p)) ps st"

definition persistentAnnounce :: "crypto \<Rightarrow> u64 \<Rightarrow> storage \<Rightarrow> string option \<times> value_record list \<times> peer_info list \<times> storage" where
  "persistentAnnounce C now st =
     (case st_getPersistentValues (announce_before now MAX_VALUE_AGE) st of
        Inl e \<Rightarrow> (Some e, [], [], st)
      | Inr vs \<Rightarrow>
          let (e, announced, st) = announce_values C now vs st in
          if e \<noteq> None then (e, announced, [], st)
          else case st_getPersistentPeers C (announce_before now MAX_PEER_AGE) st of
                 Inl e \<Rightarrow> (Some e, announced, [], st)
               | Inr ps \<Rightarrow> (None, announced, ps, announce_peers now ps st))"

section \<open>The identity of a node\<close>

lemma key_saved:
  assumes "node_keys S r r' True path fs = Inr (kp, fs1)" and "sizes_ok S" and "pairs_ok S"
    and "fl_opens fs (path @ ''/key'')" and "\<not> fl_denied fs (path @ ''/key'')" and "fl_stat fs (path @ ''/key'') \<noteq> Some Directory"
  shows "\<exists>content. fs1 = fs\<lparr>fl_stat := (fl_stat fs)(path @ ''/key'' \<mapsto> Regular content)\<rparr> \<and> content \<noteq> [] \<and> kp_of_blob S content = Inr kp"
proof (cases "fl_stat fs (path @ ''/key'')")
  case None
  then have "kp = kp_random S r'" "fs1 = writeFile (path @ ''/key'') (kp_sk kp) fs"
    using assms(1,4,5) by (auto simp: node_keys_def initKey_def Let_def)
  moreover have "length (kp_sk (kp_random S r')) = 64" "kp_of_blob S (kp_sk (kp_random S r')) = Inr (kp_random S r')"
    using assms(2,3) by (simp_all add: kp_random_def kp_of_blob_def sizes_ok_def pairs_ok_def)
  ultimately show ?thesis by (auto simp: writeFile_def)
next
  case (Some f)
  then obtain content where f: "fl_stat fs (path @ ''/key'') = Some (Regular content)" using assms(6) by (cases f) auto
  then have "content \<noteq> []" "kp_of_blob S content = Inr kp" "fs1 = fs"
    using assms(1,4,5) by (cases "kp_of_blob S content"; auto simp: node_keys_def loadKey_def Let_def split: if_splits)+
  moreover have "fs = fs\<lparr>fl_stat := (fl_stat fs)(path @ ''/key'' \<mapsto> Regular content)\<rparr>" using f by (simp add: fun_upd_idem)
  ultimately show ?thesis by blast
qed

lemma key_loaded:
  assumes "fl_stat fs (path @ ''/key'') = Some (Regular content)" and "content \<noteq> []" and "kp_of_blob S content = Inr kp"
    and "fl_opens fs (path @ ''/key'')" and "\<not> fl_denied fs (path @ ''/key'')"
  shows "node_keys S r r' True path fs = Inr (kp, fs)"
  using assms by (simp add: node_keys_def loadKey_def Let_def)

lemma persistence_kept:
  assumes "checkPersistence path fs = (True, fs1)" and "fl_denied fs2 = fl_denied fs" and "path = ''.'' \<or> fl_stat fs2 path = fl_stat fs1 path"
  shows "checkPersistence path fs2 = (True, fs2)"
  using assms by (auto simp: checkPersistence_def split: if_splits option.splits disk_file.splits)

lemma persistence_frame:
  assumes "checkPersistence path fs = (p, fs1)"
  shows "fl_denied fs1 = fl_denied fs" and "fl_opens fs1 = fl_opens fs" and "q \<noteq> path \<Longrightarrow> fl_stat fs1 q = fl_stat fs q"
  using assms by (auto simp: checkPersistence_def split: if_splits option.splits disk_file.splits)

text \<open>
  C19: A node that keeps its files comes back as the same node: a node created later from the same configuration, with whatever randomness, has the
  key pair and the identifier of the first, if the key file can be opened and is not a directory. The file a new node writes is the one the next reads.
\<close>

theorem identity_persists:
  assumes "mk_node S r r' cfg db fs = Inr (nd, fs1)" and "na_persistent nd" and "sizes_ok S" and "pairs_ok S"
    and "fl_opens fs (na_storagePath nd @ ''/key'')" and "\<not> fl_denied fs (na_storagePath nd @ ''/key'')"
    and "fl_stat fs (na_storagePath nd @ ''/key'') \<noteq> Some Directory"
  shows "\<exists>nd' fs2. mk_node S q q' cfg db' fs1 = Inr (nd', fs2) \<and> na_id nd' = na_id nd \<and> na_keyPair nd' = na_keyPair nd"
proof -
  define path where "path = (if cf_storagePath cfg = [] then ''.'' else cf_storagePath cfg)"
  obtain pers fsa where pa: "checkPersistence path fs = (pers, fsa)" by (metis surj_pair)
  note frame = persistence_frame [OF pa]
  obtain kp fsb i fsc bkp where m: "\<not> (cf_addr4 cfg = None \<and> cf_addr6 cfg = None)" "node_keys S r r' pers path fsa = Inr (kp, fsb)" "id_or_throw (kp_pk kp) = Inr i"
    "(if pers then writeIdFile (path @ ''/id'') i fsb else Inr fsb) = Inr fsc" "box_kp_fromSignatureKeyPair S kp = Inr bkp"
    "fs1 = fsc" "na_persistent nd = pers" "na_storagePath nd = path" "na_id nd = i" "na_keyPair nd = kp"
    using assms(1) pa by (auto simp: mk_node_def Let_def path_def [symmetric] split: if_splits sum.splits prod.splits)
  have pers: "pers" using assms(2) m(7) by simp
  obtain content where c: "fsb = fsa\<lparr>fl_stat := (fl_stat fsa)(path @ ''/key'' \<mapsto> Regular content)\<rparr>" "content \<noteq> []" "kp_of_blob S content = Inr kp"
    using key_saved [of S r r' path fsa kp fsb] m(2,8) pers assms(3-7) frame by auto
  have w: "fsc = writeFile (path @ ''/id'') (string_bytes (the (base58_encode (bytes i)))) fsb" "fl_opens fsb (path @ ''/id'')"
    using m(4) pers by (auto simp: writeIdFile_def split: if_splits)
  have op: "fl_opens fsc = fl_opens fs" "fl_denied fsc = fl_denied fs" using w(1) c(1) frame by (simp_all add: writeFile_def)
  have "fl_stat fsc path = fl_stat fsa path" using w(1) c(1) by (simp add: writeFile_def)
  then have "checkPersistence path fsc = (True, fsc)" using persistence_kept [of path fs fsa fsc] pa pers op(2) by simp
  moreover have "node_keys S q q' True path fsc = Inr (kp, fsc)"
    by (rule key_loaded [of _ _ content]) (use w(1) c op assms(5,6) m(8) in \<open>simp_all add: writeFile_def\<close>)
  moreover have "writeIdFile (path @ ''/id'') i fsc = Inr (writeFile (path @ ''/id'') (string_bytes (the (base58_encode (bytes i)))) fsc)"
    using w op c(1) frame(2) by (simp add: writeIdFile_def)
  ultimately have "\<exists>nd' fs2. mk_node S q q' cfg db' fsc = Inr (nd', fs2) \<and> na_id nd' = i \<and> na_keyPair nd' = kp"
    using m(1,3,5) by (simp add: mk_node_def Let_def path_def [symmetric] split: if_splits)
  then show ?thesis using m by simp
qed

definition bare_disk :: files where
  "bare_disk = \<lparr>fl_stat = Map.empty, fl_denied = (\<lambda>_. False), fl_mkdir = (\<lambda>_. True), fl_opens = (\<lambda>_. True)\<rparr>"

definition home_config :: configuration where
  "home_config = \<lparr>cf_addr4 = Some (Inet 0x7F000001 39001), cf_addr6 = None, cf_storagePath = ''/var/boson'', cf_port = 39001\<rparr>"

lemma first_node:
  "\<exists>nd fs1. mk_node plain_sodium 1 2 home_config empty_storage bare_disk = Inr (nd, fs1) \<and> na_persistent nd \<and> na_storagePath nd = ''/var/boson''"
  by (simp add: mk_node_def home_config_def bare_disk_def checkPersistence_def node_keys_def initKey_def writeFile_def writeIdFile_def kp_random_def
      id_or_throw_def id_of_blob_def plain_sodium_def box_kp_fromSignatureKeyPair_def box_kp_of_blob_def Let_def)

theorem identity_persists_witness:
  "\<exists>nd fs1 nd' fs2. mk_node plain_sodium 1 2 home_config empty_storage bare_disk = Inr (nd, fs1) \<and>
     mk_node plain_sodium 3 4 home_config empty_storage fs1 = Inr (nd', fs2) \<and> na_id nd' = na_id nd \<and> na_keyPair nd' = na_keyPair nd"
proof -
  obtain nd fs1 where n: "mk_node plain_sodium 1 2 home_config empty_storage bare_disk = Inr (nd, fs1)" "na_persistent nd" "na_storagePath nd = ''/var/boson''"
    using first_node by blast
  have "sizes_ok plain_sodium" "pairs_ok plain_sodium" using plain_sodium_ok(1) by (simp_all add: sodium_ok_def)
  then show ?thesis using identity_persists [OF n(1,2), of 3 4 empty_storage] n(1) by (auto simp: bare_disk_def)
qed

section \<open>Futures that wait for all DHTs\<close>

text \<open>
  What the operations of a node have in common: a completion is counted, the promise is left alone until as many DHTs have completed as the node
  counts, and then it is set.
\<close>

fun completions :: "('r \<Rightarrow> 's \<Rightarrow> 's \<times> bool) \<Rightarrow> 'r list \<Rightarrow> 's \<Rightarrow> 's \<times> bool" where
  "completions step [] s = (s, False)"
| "completions step (r # rs) s = 
     (fst (completions step rs (fst (step r s))), snd (step r s) \<or> snd (completions step rs (fst (step r s))))"

locale early_future =
  fixes step :: "'r \<Rightarrow> 's \<Rightarrow> 's \<times> bool" and counted :: "'s \<Rightarrow> int" and waiting :: "'s \<Rightarrow> bool" and n :: int and early :: "'r \<Rightarrow> bool"
  assumes counts: "counted (fst (step r s)) = counted s + 1"
    and waits: "counted s + 1 < n \<Longrightarrow> \<not> early r \<Longrightarrow> waiting s \<Longrightarrow> waiting (fst (step r s)) \<and> \<not> snd (step r s)"
    and ends: "n \<le> counted s + 1 \<or> early r \<Longrightarrow> waiting s \<Longrightarrow> \<not> waiting (fst (step r s)) \<and> \<not> snd (step r s)"
    and stays: "\<not> waiting s \<Longrightarrow> \<not> waiting (fst (step r s))"
begin

lemma run_waiting:
  assumes "waiting s"
  shows "waiting (fst (completions step rs s)) \<longleftrightarrow> rs = [] \<or> counted s + int (length rs) < n \<and> list_all (\<lambda>r. \<not> early r) rs"
proof -
  have over: "\<not> waiting (fst (completions step rs s))" if "\<not> waiting s" for rs s
    using that by (induction rs arbitrary: s) (simp_all add: stays)
  show ?thesis using assms
  proof (induction rs arbitrary: s)
    case (Cons r rs)
    show ?case
    proof (cases "counted s + 1 < n \<and> \<not> early r")
      case True
      then show ?thesis using waits [of s r] Cons.IH [of "fst (step r s)"] Cons.prems by (auto simp: counts)
    next
      case False
      then have "\<not> waiting (fst (step r s))" using ends Cons.prems by force
      moreover have "\<not> (counted s + int (length (r # rs)) < n \<and> list_all (\<lambda>r. \<not> early r) (r # rs))" using False by auto
      ultimately show ?thesis using over by simp
    qed
  qed simp
qed

lemma run_quiet:
  assumes "waiting s" and "counted s + int (length rs) < n" and "list_all (\<lambda>r. \<not> early r) rs"
  shows "waiting (fst (completions step rs s)) \<and> \<not> snd (completions step rs s)"
  using assms
proof (induction rs arbitrary: s)
  case (Cons r rs)
  then show ?case using waits [of s r] Cons.IH [of "fst (step r s)"] by (simp add: counts)
qed simp

end

text \<open>Without a completion that sets the promise early.\<close>

locale counted_future =
  fixes step :: "'r \<Rightarrow> 's \<Rightarrow> 's \<times> bool" and counted :: "'s \<Rightarrow> int" and waiting :: "'s \<Rightarrow> bool" and n :: int
  assumes counts: "counted (fst (step r s)) = counted s + 1"
    and waits: "counted s + 1 < n \<Longrightarrow> waiting s \<Longrightarrow> waiting (fst (step r s)) \<and> \<not> snd (step r s)"
    and ends: "n \<le> counted s + 1 \<Longrightarrow> waiting s \<Longrightarrow> \<not> waiting (fst (step r s)) \<and> \<not> snd (step r s)"
    and stays: "\<not> waiting s \<Longrightarrow> \<not> waiting (fst (step r s))"

sublocale counted_future \<subseteq> early: early_future step counted waiting n "\<lambda>_. False"
  by unfold_locales (auto simp: counts waits ends stays)

context counted_future
begin

lemma run_waits:
  "counted s + int (length rs) < n \<Longrightarrow> waiting s \<Longrightarrow> waiting (fst (completions step rs s)) \<and> \<not> snd (completions step rs s)"
  using early.run_quiet [of s rs] by (simp add: list_all_iff)

lemma run_ends:
  "counted s + int (length rs) = n \<Longrightarrow> rs \<noteq> [] \<Longrightarrow> waiting s \<Longrightarrow> \<not> waiting (fst (completions step rs s)) \<and> \<not> snd (completions step rs s)"
proof (induction rs arbitrary: s)
  case (Cons r rs)
  then show ?case using waits [of s r] ends [of s r] Cons.IH [of "fst (step r s)"] by (cases rs) (simp_all add: counts)
qed simp

end

lemma unset_value [simp]: "set_value x Unset = (Value x, False)"
  by (simp add: set_value_def)

lemma set_stays: "p \<noteq> Unset \<Longrightarrow> set_value x p = (p, True)"
  by (cases p) (simp_all add: set_value_def)

lemma set_nonempty: "set_value x p = (q, b) \<Longrightarrow> q \<noteq> Unset"
  by (cases p) (auto simp: set_value_def)

interpretation stored: counted_future "stored_completed n" ft_completion "\<lambda>f. ft_promise f = Unset" n for n
  by unfold_locales (auto simp: stored_completed_def Let_def set_nonempty split: prod.splits)

interpretation peers: counted_future "peer_completed n" "\<lambda>s. ft_completion (fst s)" "\<lambda>s. ft_promise (fst s) = Unset" n for n
  by unfold_locales (auto simp: peer_completed_def Let_def set_nonempty split: prod.splits)

interpretation valued: early_future "value_completed C opt n" "\<lambda>s. ft_completion (fst s)" "\<lambda>s. ft_promise (fst s) = Unset" n "\<lambda>r. opt = OPTIMISTIC \<and> snd r \<noteq> None" for C opt n
  by unfold_locales (auto simp: value_completed_def Let_def set_nonempty split: prod.splits)

interpretation noded: early_future "node_completed opt n" ft_completion "\<lambda>f. ft_promise f = Unset" n "\<lambda>ni. opt = OPTIMISTIC \<and> ni \<noteq> None" for opt n
  by unfold_locales (auto simp: node_completed_def Let_def set_nonempty split: prod.splits)

text \<open>The lookups of values with a completion handler that is not optimistic.\<close>

definition patient_value :: "crypto \<Rightarrow> int \<Rightarrow> u64 \<times> value_record option \<Rightarrow> value_future \<Rightarrow> value_future \<times> bool" where
  "patient_value C = value_completed C CONSERVATIVE"

interpretation found: counted_future "patient_value C n" "\<lambda>s. ft_completion (fst s)" "\<lambda>s. ft_promise (fst s) = Unset" n for C n
  by unfold_locales (auto simp: patient_value_def value_completed_def Let_def set_nonempty split: prod.splits)

lemma patient_option: "opt \<noteq> OPTIMISTIC \<Longrightarrow> value_completed C opt n = patient_value C n"
  by (intro ext) (simp add: patient_value_def value_completed_def)

lemma patient_frame:
  "ft_value (fst (fst (patient_value C n r s))) = newer_value (snd r) (ft_value (fst s))"
  by (cases r; cases s) (simp add: patient_value_def value_completed_def Let_def split: prod.splits)

lemma value_kept: "ft_value (fst (fst (completions (patient_value C n) rs s))) = fold newer_value (map snd rs) (ft_value (fst s))"
  by (induction rs arbitrary: s) (simp_all add: patient_frame)

lemma promise_kept:
  assumes "ft_completion (fst s) + int (length rs) = n" and "rs \<noteq> []" and "ft_promise (fst s) = Unset"
  shows "ft_promise (fst (fst (completions (patient_value C n) rs s))) = Value (fold newer_value (map snd rs) (ft_value (fst s)))"
  using assms
proof (induction rs arbitrary: s)
  case (Cons r rs)
  have c: "ft_completion (fst (fst (patient_value C n r s))) = ft_completion (fst s) + 1" by (rule found.counts)
  show ?case
  proof (cases "rs = []")
    case True
    then show ?thesis using Cons.prems by (cases r; cases s) (simp add: patient_value_def value_completed_def Let_def)
  next
    case False
    then have "ft_promise (fst (fst (patient_value C n r s))) = Unset" using Cons.prems by (intro conjunct1 [OF found.waits]) (cases rs; simp)+
    then show ?thesis using Cons.IH [of "fst (patient_value C n r s)"] Cons.prems(1) False c by (simp add: patient_frame)
  qed
qed simp

lemma newest_fold:
  "(fold newer_value rs old = None \<longleftrightarrow> old = None \<and> list_all (\<lambda>r. r = None) rs) \<and> fold newer_value rs old \<in> set (old # rs) \<union> {None} \<and>
    (list_all (\<lambda>r. case r of Some v \<Rightarrow> isMutable v | None \<Rightarrow> True) rs \<longrightarrow> (\<forall>v. fold newer_value rs old = Some v \<longrightarrow>
      list_all (\<lambda>r. case r of Some w \<Rightarrow> v_sequenceNumber w \<le> v_sequenceNumber v | None \<Rightarrow> True) (old # rs)))"
proof (induction rs arbitrary: old)
  case (Cons r rs)
  have n: "newer_value r old = None \<longleftrightarrow> r = None \<and> old = None" "newer_value r old \<in> {r, old}"
    by (auto simp: newer_value_def split: option.splits)
  have IH: "(fold newer_value rs (newer_value r old) = None \<longleftrightarrow> newer_value r old = None \<and> list_all (\<lambda>r. r = None) rs)"
    "fold newer_value rs (newer_value r old) \<in> set (newer_value r old # rs) \<union> {None}"
    using Cons.IH [of "newer_value r old"] by auto
  have "list_all (\<lambda>r. case r of Some w \<Rightarrow> v_sequenceNumber w \<le> v_sequenceNumber v | None \<Rightarrow> True) (old # r # rs)"
    if v: "fold newer_value rs (newer_value r old) = Some v" and mut: "list_all (\<lambda>r. case r of Some v \<Rightarrow> isMutable v | None \<Rightarrow> True) (r # rs)" for v
  proof (cases "newer_value r old")
    case None
    then show ?thesis using Cons.IH [of "newer_value r old"] v mut n(1) by simp
  next
    case (Some u)
    then have u: "v_sequenceNumber u \<le> v_sequenceNumber v" and all: "list_all (\<lambda>r. case r of Some w \<Rightarrow> v_sequenceNumber w \<le> v_sequenceNumber v | None \<Rightarrow> True) rs"
      using Cons.IH [of "newer_value r old"] v mut by simp_all
    have "v_sequenceNumber w \<le> v_sequenceNumber u" if "r = Some w \<or> old = Some w" for w
      using that Some mut by (auto simp: newer_value_def split: option.splits if_splits)
    then show ?thesis using u all by (auto split: option.splits intro: order_trans)
  qed
  moreover have "fold newer_value (r # rs) old \<in> set (old # r # rs) \<union> {None}" using IH(2) n(2) by auto
  ultimately show ?case using IH(1) n(1) by auto
qed auto

text \<open>An optimistic lookup.\<close>

lemma nothing_found:
  assumes "list_all (\<lambda>r. snd r = None) rs"
  shows "completions (value_completed C opt n) rs s = completions (patient_value C n) rs s" and "fold newer_value (map snd rs) x = x"
proof -
  have "value_completed C opt n r t = patient_value C n r t" if "snd r = None" for r t
    using that by (cases r; cases t) (simp add: patient_value_def value_completed_def)
  then show "completions (value_completed C opt n) rs s = completions (patient_value C n) rs s" using assms by (induction rs arbitrary: s) auto
  show "fold newer_value (map snd rs) x = x" using assms by (induction rs arbitrary: x) (simp_all add: newer_value_def)
qed

lemma promise_fixed:
  "ft_promise (fst s) \<noteq> Unset \<Longrightarrow> ft_promise (fst (fst (completions (value_completed C opt n) rs s))) = ft_promise (fst s) \<and>
    (opt = OPTIMISTIC \<and> (\<exists>r \<in> set rs. snd r \<noteq> None) \<longrightarrow> snd (completions (value_completed C opt n) rs s))"
proof (induction rs arbitrary: s)
  case (Cons r rs)
  have "ft_promise (fst (fst (value_completed C opt n r s))) = ft_promise (fst s) \<and> (opt = OPTIMISTIC \<and> snd r \<noteq> None \<longrightarrow> snd (value_completed C opt n r s))"
    using Cons.prems by (cases r; cases s) (auto simp: value_completed_def set_stays Let_def)
  then show ?case using Cons.IH [of "fst (value_completed C opt n r s)"] Cons.prems by auto
qed simp

lemma optimistic_first:
  assumes "ft_promise (fst s) = Unset" and "list_all (\<lambda>r. snd r = None) rs" and "ft_completion (fst s) + int (length rs) < n"
  shows "ft_promise (fst (fst (completions (value_completed C OPTIMISTIC n) (rs @ (t, Some v) # rs') s))) = Value (newer_value (Some v) (ft_value (fst s))) \<and>
    ((\<exists>r \<in> set rs'. snd r \<noteq> None) \<longrightarrow> snd (completions (value_completed C OPTIMISTIC n) (rs @ (t, Some v) # rs') s))"
  using assms
proof (induction rs arbitrary: s)
  case Nil
  have "ft_promise (fst (fst (value_completed C OPTIMISTIC n (t, Some v) s))) = Value (newer_value (Some v) (ft_value (fst s)))"
    using Nil by (cases s) (simp add: value_completed_def Let_def)
  then show ?case using promise_fixed [of "fst (value_completed C OPTIMISTIC n (t, Some v) s)" C OPTIMISTIC n rs'] by auto
next
  case (Cons r rs)
  then have "ft_promise (fst (fst (value_completed C OPTIMISTIC n r s))) = Unset \<and> ft_value (fst (fst (value_completed C OPTIMISTIC n r s))) = ft_value (fst s) \<and>
    ft_completion (fst (fst (value_completed C OPTIMISTIC n r s))) = ft_completion (fst s) + 1"
    by (cases r; cases s) (simp add: value_completed_def newer_value_def Let_def)
  then show ?case using Cons.IH [of "fst (value_completed C OPTIMISTIC n r s)"] Cons.prems by simp
qed

text \<open>
  C17: \<^verbatim>\<open>Node::findValue\<close> answers at once from the local store when it has the value and the value is immutable or the caller wants an arbitrary one. Otherwise it asks the DHTs.
  A lookup that is not optimistic keeps its caller waiting while fewer DHTs have completed than the node counts, and no completion handler throws; the last one sets the future, to nothing only if
  neither the local store nor any DHT had a value, otherwise to one of these values, and if the DHTs found mutable values only, to one with the largest sequence number.
  An optimistic lookup is set by the first DHT that found a value, to the newer of it and the local value, and a second one that finds a value throws; it waits while none has found one
  and some have not completed, and gives the local value when all have completed without one.
\<close>

theorem find_value_future:
  assumes "na_findValue now i opt nd = Inr f" and "run = completions (value_completed C opt (na_numDHTs nd)) rs (f, na_storage nd)"
  shows "\<exists>local. st_getValue now i (na_storage nd) = Inr local \<and>
    (if \<exists>v. local = Some v \<and> (opt = ARBITRARY \<or> \<not> isMutable v) then ft_promise f = Value local
     else ft_promise f = Unset \<and>
      (opt \<noteq> OPTIMISTIC \<longrightarrow>
        (int (length rs) < na_numDHTs nd \<longrightarrow> ft_promise (fst (fst run)) = Unset \<and> \<not> snd run) \<and>
        (int (length rs) = na_numDHTs nd \<and> rs \<noteq> [] \<longrightarrow> \<not> snd run \<and>
          (\<exists>r. ft_promise (fst (fst run)) = Value r \<and> r \<in> set (local # map snd rs) \<union> {None} \<and> (r = None \<longleftrightarrow> local = None \<and> list_all (\<lambda>x. x = None) (map snd rs)) \<and>
            (list_all (\<lambda>x. case x of Some v \<Rightarrow> isMutable v | None \<Rightarrow> True) (map snd rs) \<longrightarrow>
              (\<forall>v. r = Some v \<longrightarrow> list_all (\<lambda>x. case x of Some w \<Rightarrow> v_sequenceNumber w \<le> v_sequenceNumber v | None \<Rightarrow> True) (local # map snd rs)))))) \<and>
      (opt = OPTIMISTIC \<longrightarrow>
        (list_all (\<lambda>r. snd r = None) rs \<longrightarrow>
          (int (length rs) < na_numDHTs nd \<longrightarrow> ft_promise (fst (fst run)) = Unset) \<and>
          (int (length rs) = na_numDHTs nd \<and> rs \<noteq> [] \<longrightarrow> ft_promise (fst (fst run)) = Value local)) \<and>
        (\<forall>rs1 t v rs2. rs = rs1 @ (t, Some v) # rs2 \<and> list_all (\<lambda>r. snd r = None) rs1 \<and> int (length rs1) < na_numDHTs nd \<longrightarrow>
          ft_promise (fst (fst run)) = Value (newer_value (Some v) local) \<and> ((\<exists>r \<in> set rs2. snd r \<noteq> None) \<longrightarrow> snd run))))"
proof (cases "ft_promise f = Unset")
  case False
  then show ?thesis using assms(1) by (auto simp: na_findValue_def mk_future_def split: if_splits sum.splits option.splits)
next
  case True
  let ?n = "na_numDHTs nd" and ?s = "(f, na_storage nd)"
  define local where "local = ft_value f"
  have f: "st_getValue now i (na_storage nd) = Inr local" "ft_completion f = 0" "\<not> (\<exists>v. local = Some v \<and> (opt = ARBITRARY \<or> \<not> isMutable v))"
    using assms(1) True by (auto simp: local_def na_findValue_def mk_future_def split: if_splits sum.splits option.splits)
  note newest = newest_fold [of "map snd rs" local]
  have ends: "\<not> snd (completions (patient_value C ?n) rs ?s)"
    "ft_promise (fst (fst (completions (patient_value C ?n) rs ?s))) = Value (fold newer_value (map snd rs) local)"
    if "int (length rs) = ?n \<and> rs \<noteq> []"
    using found.run_ends [of ?s rs] promise_kept [of ?s rs] that f(2) True by (simp_all add: local_def)
  have patient: "(int (length rs) < ?n \<longrightarrow> ft_promise (fst (fst run)) = Unset \<and> \<not> snd run) \<and>
      (int (length rs) = ?n \<and> rs \<noteq> [] \<longrightarrow> \<not> snd run \<and> ft_promise (fst (fst run)) = Value (fold newer_value (map snd rs) local))" if "opt \<noteq> OPTIMISTIC"
    using found.run_waits [of ?s rs ?n C] ends f(2) True that by (simp add: assms(2) patient_option)
  have none: "(int (length rs) < ?n \<longrightarrow> ft_promise (fst (fst run)) = Unset) \<and> (int (length rs) = ?n \<and> rs \<noteq> [] \<longrightarrow> ft_promise (fst (fst run)) = Value local)"
    if "list_all (\<lambda>r. snd r = None) rs"
    using found.run_waits [of ?s rs ?n C] ends f(2) True nothing_found [OF that] by (simp add: assms(2))
  have first: "ft_promise (fst (fst run)) = Value (newer_value (Some v) local) \<and> ((\<exists>r \<in> set rs2. snd r \<noteq> None) \<longrightarrow> snd run)"
    if "opt = OPTIMISTIC" "rs = rs1 @ (t, Some v) # rs2" "list_all (\<lambda>r. snd r = None) rs1" "int (length rs1) < ?n" for rs1 t v rs2
    using optimistic_first [of ?s rs1 ?n C t v rs2] that f(2) True by (simp add: assms(2) local_def)
  show ?thesis
  proof (rule exI [of _ local], rule conjI [OF f(1)], subst if_not_P [OF f(3)], intro conjI impI)
    assume "opt \<noteq> OPTIMISTIC" "int (length rs) = ?n \<and> rs \<noteq> []"
    then have p: "ft_promise (fst (fst run)) = Value (fold newer_value (map snd rs) local)" using patient by blast
    show "\<exists>r. ft_promise (fst (fst run)) = Value r \<and> r \<in> set (local # map snd rs) \<union> {None} \<and> (r = None \<longleftrightarrow> local = None \<and> list_all (\<lambda>x. x = None) (map snd rs)) \<and>
        (list_all (\<lambda>x. case x of Some v \<Rightarrow> isMutable v | None \<Rightarrow> True) (map snd rs) \<longrightarrow>
          (\<forall>v. r = Some v \<longrightarrow> list_all (\<lambda>x. case x of Some w \<Rightarrow> v_sequenceNumber w \<le> v_sequenceNumber v | None \<Rightarrow> True) (local # map snd rs)))"
      by (rule exI, rule conjI, rule p) (intro conjI conjunct1 [OF newest] conjunct1 [OF conjunct2 [OF newest]] conjunct2 [OF conjunct2 [OF newest]])
  qed (use True patient none first in blast)+
qed

definition running_node :: node_api where
  "running_node = \<lparr>na_keyPair = \<lparr>kp_sk = [], kp_pk = []\<rparr>, na_encryptionKeyPair = \<lparr>kp_sk = [], kp_pk = []\<rparr>, na_id = zero_id, na_persistent = False,
     na_storagePath = [], na_status = Running, na_events = [], na_dht4 = True, na_dht6 = True, na_numDHTs = 2, na_server = True, na_actions = 1, na_open = True, na_storage = empty_storage\<rparr>"

lemma note_id_nonzero: "note_id \<noteq> zero_id"
proof
  assume "note_id = zero_id"
  then have "bytes note_id = bytes zero_id" by simp
  then show False by (simp add: note_id_def v_getId_def calculateId_def note_value_def plain_crypto_def id_of_blob_def Abs_id_inverse zero_id.rep_eq)
qed

theorem find_value_future_witness:
  "\<exists>f. na_findValue 5 note_id CONSERVATIVE running_node = Inr f \<and>
     ft_promise (fst (fst (completions (value_completed plain_crypto CONSERVATIVE 2) [(6, Some (note_value 4)), (7, Some (note_value 3))] (f, empty_storage)))) = Value (Some (note_value 4))"
proof -
  obtain f where f: "na_findValue 5 note_id CONSERVATIVE running_node = Inr f" "ft_promise f = Unset"
    using note_id_nonzero by (simp add: na_findValue_def isRunning_def running_node_def st_getValue_def empty_storage_def mk_future_def)
  define rs :: "(u64 \<times> value_record option) list" where "rs = [(6, Some (note_value 4)), (7, Some (note_value 3))]"
  have ok: "list_all (\<lambda>r. case r of Some v \<Rightarrow> isMutable v | None \<Rightarrow> True) (map snd rs)" "\<not> list_all (\<lambda>x. x = None) (map snd rs)" by (simp_all add: rs_def note_ok)
  have len: "int (length rs) = 2" "rs \<noteq> []" and nd: "na_numDHTs running_node = 2" "na_storage running_node = empty_storage"
    by (simp_all add: rs_def running_node_def)
  have l: "st_getValue 5 note_id empty_storage = Inr None" by (simp add: st_getValue_def empty_storage_def)
  obtain r where r: "ft_promise (fst (fst (completions (value_completed plain_crypto CONSERVATIVE 2) rs (f, empty_storage)))) = Value r"
    "r \<in> set (map snd rs)" "\<And>v. r = Some v \<Longrightarrow> list_all (\<lambda>x. case x of Some w \<Rightarrow> v_sequenceNumber w \<le> v_sequenceNumber v | None \<Rightarrow> True) (map snd rs)"
    using find_value_future [where C = plain_crypto and rs = rs, OF f(1) refl] len ok unfolding l nd by (auto simp del: set_map)
  then have "r = Some (note_value 4) \<or> r = Some (note_value 3)" by (auto simp: rs_def)
  then have "r = Some (note_value 4)" using r(3) [of "note_value 3"] by (auto simp: rs_def note_value_def)
  then show ?thesis using f(1) r(1) by (auto simp: rs_def)
qed

text \<open>An optimistic lookup that is answered by both DHTs sets its promise twice: the second completion handler throws.\<close>

lemma optimistic_twice:
  "snd (completions (value_completed C OPTIMISTIC n) [(t, Some v), (t', Some w)] (mk_future x, st))"
  by (simp add: value_completed_def mk_future_def set_value_def Let_def)

lemma start_stopped:
  assumes "na_status nd = Stopped"
  shows "na_start cfg nd = nd\<lparr>na_status := Running, na_events := na_events nd @ [(Initializing, Stopped), (Running, Initializing)],
    na_dht4 := (na_dht4 nd \<or> cf_addr4 cfg \<noteq> None), na_dht6 := (na_dht6 nd \<or> cf_addr6 cfg \<noteq> None), na_server := True, na_actions := na_actions nd + 1, na_open := True,
    na_numDHTs := na_numDHTs nd + of_bool (na_dht4 nd \<or> cf_addr4 cfg \<noteq> None) + of_bool (na_dht6 nd \<or> cf_addr6 cfg \<noteq> None)\<rparr>"
  using assms by (cases nd; cases "cf_addr4 cfg"; cases "cf_addr6 cfg") (simp_all add: na_start_def na_setStatus_def Let_def)

lemma stop_running:
  assumes "na_status nd = Running"
  shows "na_stop nd = nd\<lparr>na_actions := 0, na_server := False, na_dht4 := False, na_dht6 := False, na_open := False, na_status := Stopped, na_events := na_events nd @ [(Stopped, Running)]\<rparr>"
  using assms by (simp add: na_stop_def na_setStatus_def)

text \<open>
  C18: A node counts its DHTs when it starts. In its first run the futures of stores, announcements and lookups of any kind are set once every DHT has completed.
  Stopping does not reset the count: after a restart the completions of all its DHTs leave the futures of stores, announcements and lookups of peers unset, and those of lookups of
  nodes and values too, unless the lookup is optimistic and a DHT has found something.
\<close>

theorem restart_starves_futures:
  assumes "na_status nd = Stopped" and "na_numDHTs nd = 0" and "\<not> na_dht4 nd" and "\<not> na_dht6 nd" and "cf_addr4 cfg \<noteq> None \<or> cf_addr6 cfg \<noteq> None"
    and "first = na_start cfg nd" and "again = na_start cfg (na_stop first)"
    and "length rs = callers first" and "length ps = callers first" and "length vs = callers first" and "length ns = callers first"
  shows "isRunning first \<and> isRunning again \<and> callers again = callers first \<and> callers first \<in> {1, 2} \<and>
    ft_promise (fst (completions (stored_completed (na_numDHTs first)) rs (mk_future ()))) = Value () \<and>
    ft_promise (fst (fst (completions (peer_completed (na_numDHTs first)) ps (mk_future known, st)))) \<noteq> Unset \<and>
    ft_promise (fst (fst (completions (value_completed C opt (na_numDHTs first)) vs (mk_future local, st)))) \<noteq> Unset \<and>
    ft_promise (fst (completions (node_completed opt (na_numDHTs first)) ns (mk_future node))) \<noteq> Unset \<and>
    ft_promise (fst (completions (stored_completed (na_numDHTs again)) rs (mk_future ()))) = Unset \<and>
    ft_promise (fst (fst (completions (peer_completed (na_numDHTs again)) ps (mk_future known, st)))) = Unset \<and>
    (ft_promise (fst (fst (completions (value_completed C opt (na_numDHTs again)) vs (mk_future local, st)))) = Unset \<longleftrightarrow>
      \<not> (opt = OPTIMISTIC \<and> (\<exists>r \<in> set vs. snd r \<noteq> None))) \<and>
    (ft_promise (fst (completions (node_completed opt (na_numDHTs again)) ns (mk_future node))) = Unset \<longleftrightarrow>
      \<not> (opt = OPTIMISTIC \<and> (\<exists>r \<in> set ns. r \<noteq> None)))"
proof -
  have n: "isRunning first" "isRunning again" "callers again = callers first" "callers first \<in> {1, 2}"
    "na_numDHTs first = int (callers first)" "na_numDHTs again = 2 * int (callers first)"
    using assms(2-5) unfolding assms(6,7) start_stopped [OF assms(1)]
    by (simp_all add: stop_running start_stopped isRunning_def callers_def) auto
  have ne: "rs \<noteq> []" "ps \<noteq> []" "vs \<noteq> []" "ns \<noteq> []" using n(4) assms(8-11) by auto
  have less: "int (callers first) < na_numDHTs again" using n(4,6) by auto
  have "ft_promise (fst (completions (stored_completed (na_numDHTs first)) rs (mk_future ()))) \<noteq> Unset"
    using stored.run_ends [of "mk_future ()" rs "na_numDHTs first"] n(5) ne assms(8) by (simp add: mk_future_def)
  moreover have "ft_promise (fst (completions (stored_completed m) rs f)) \<in> {Unset, Value ()}" if "ft_promise f \<in> {Unset, Value ()}" for m f
    using that by (induction rs arbitrary: f) (auto simp: stored_completed_def set_value_def Let_def split: prod.splits promise.splits)
  ultimately have "ft_promise (fst (completions (stored_completed (na_numDHTs first)) rs (mk_future ()))) = Value ()"
    by (metis (no_types, lifting) insertCI insertE singletonD mk_future_def future.select_convs(3))
  moreover have "ft_promise (fst (completions (stored_completed (na_numDHTs again)) rs (mk_future ()))) = Unset"
    using stored.run_waits [of "mk_future ()" rs "na_numDHTs again"] less assms(8) by (simp add: mk_future_def)
  moreover have "ft_promise (fst (fst (completions (peer_completed (na_numDHTs first)) ps (mk_future known, st)))) \<noteq> Unset"
    using peers.run_ends [of "(mk_future known, st)" ps "na_numDHTs first"] n(5) ne assms(9) by (simp add: mk_future_def)
  moreover have "ft_promise (fst (fst (completions (peer_completed (na_numDHTs again)) ps (mk_future known, st)))) = Unset"
    using peers.run_waits [of "(mk_future known, st)" ps "na_numDHTs again"] less assms(9) by (simp add: mk_future_def)
  moreover have "ft_promise (fst (fst (completions (value_completed C opt (na_numDHTs first)) vs (mk_future local, st)))) \<noteq> Unset"
    "(ft_promise (fst (fst (completions (value_completed C opt (na_numDHTs again)) vs (mk_future local, st)))) = Unset \<longleftrightarrow>
      \<not> (opt = OPTIMISTIC \<and> (\<exists>r \<in> set vs. snd r \<noteq> None)))"
    using valued.run_waiting [of "(mk_future local, st)" C opt _ vs] n(5) ne less assms(10) by (auto simp: mk_future_def list_all_iff)
  moreover have "ft_promise (fst (completions (node_completed opt (na_numDHTs first)) ns (mk_future node))) \<noteq> Unset"
    "(ft_promise (fst (completions (node_completed opt (na_numDHTs again)) ns (mk_future node))) = Unset \<longleftrightarrow> \<not> (opt = OPTIMISTIC \<and> (\<exists>r \<in> set ns. r \<noteq> None)))"
    using noded.run_waiting [of "mk_future node" opt _ ns] n(5) ne less assms(11) by (auto simp: mk_future_def list_all_iff)
  ultimately show ?thesis using n by blast
qed

theorem restart_starves_futures_witness:
  "ft_promise (fst (completions (stored_completed (na_numDHTs (na_start home_config (na_stop (na_start home_config (running_node\<lparr>na_status := Stopped, na_dht4 := False, na_dht6 := False, na_numDHTs := 0\<rparr>)))))) [()] (mk_future ()))) = Unset"
proof -
  let ?nd = "running_node\<lparr>na_status := Stopped, na_dht4 := False, na_dht6 := False, na_numDHTs := 0\<rparr>"
  have "callers (na_start home_config ?nd) = 1" by (simp add: callers_def na_start_def na_setStatus_def home_config_def running_node_def Let_def)
  then show ?thesis
    using restart_starves_futures [where nd = ?nd and cfg = home_config and rs = "[()]" and ps = "[(0, [])]" and vs = "[(0, None)]" and ns = "[None]", OF _ _ _ _ _ refl refl]
    by (simp add: running_node_def home_config_def)
qed

section \<open>Peers that were found\<close>

definition peer_key :: "peer_info \<Rightarrow> id \<times> id \<times> id" where
  "peer_key p = (p_publicKey p, p_nodeId p, p_origin p)"

lemma equivalent_peers: "\<not> p_less p q \<and> \<not> p_less q p \<longleftrightarrow> peer_key p = peer_key q"
  by (auto simp: p_less_def peer_key_def Let_def compareTo_eq compareTo_less)

lemma add_peer_eq: "add_peer p ps = (if peer_key p \<in> peer_key ` set ps then ps else ps @ [p])"
  unfolding add_peer_def equivalent_peers by auto

lemma add_peers_keys:
  assumes "distinct (map peer_key ps)"
  shows "distinct (map peer_key (add_peers new ps)) \<and> set (add_peers new ps) \<subseteq> set new \<union> set ps \<and>
    peer_key ` set (add_peers new ps) = peer_key ` (set new \<union> set ps)"
  using assms
proof (induction new arbitrary: ps)
  case (Cons p new)
  have "distinct (map peer_key (add_peer p ps))" using Cons.prems by (auto simp: add_peer_eq)
  note IH = Cons.IH [OF this]
  have "set (add_peer p ps) \<subseteq> insert p (set ps)" "peer_key ` set (add_peer p ps) = insert (peer_key p) (peer_key ` set ps)"
    by (auto simp: add_peer_eq)
  then show ?case using IH by (auto simp: add_peers_def image_Un)
qed (simp add: add_peers_def)

lemma peers_set:
  assumes "ft_completion (fst s) + int (length rs) = n" and "rs \<noteq> []" and "ft_promise (fst s) = Unset"
  shows "ft_promise (fst (fst (completions (peer_completed n) rs s))) = Value (fold add_peers (map snd rs) (ft_value (fst s)))"
  using assms
proof (induction rs arbitrary: s)
  case (Cons r rs)
  show ?case
  proof (cases "rs = []")
    case True
    then show ?thesis using Cons.prems by (cases r; cases s) (simp add: peer_completed_def Let_def)
  next
    case False
    then have "1 \<le> int (length rs)" by (cases rs) simp_all
    then have "ft_value (fst (fst (peer_completed n r s))) = add_peers (snd r) (ft_value (fst s)) \<and> ft_promise (fst (fst (peer_completed n r s))) = Unset \<and>
      ft_completion (fst (fst (peer_completed n r s))) = ft_completion (fst s) + 1"
      using Cons.prems by (cases r; cases s) (simp add: peer_completed_def Let_def)
    then show ?thesis using Cons.IH [of "fst (peer_completed n r s)"] Cons.prems(1) False by simp
  qed
qed simp

lemma fold_peers_keys:
  assumes "distinct (map peer_key ps)"
  shows "distinct (map peer_key (fold add_peers pss ps)) \<and> set (fold add_peers pss ps) \<subseteq> \<Union> (set ` set pss) \<union> set ps \<and>
    peer_key ` set (fold add_peers pss ps) = peer_key ` (\<Union> (set ` set pss) \<union> set ps)"
  using assms
proof (induction pss arbitrary: ps)
  case (Cons new pss)
  note a = add_peers_keys [OF Cons.prems, of new]
  then show ?case using Cons.IH [of "add_peers new ps"] by (auto simp: image_Un image_UN)
qed simp

text \<open>
  C20: \<^verbatim>\<open>Node::findPeer\<close> that has to ask the network is set when as many DHTs as the node counts have completed, to the peers of the local store and of all answers, each
  peer, by its key, node and origin, once.
\<close>

theorem find_peer_future:
  assumes "na_findPeer C now shuffle i expected opt nd = Inr f" and "ft_promise f = Unset" and "int (length rs) = na_numDHTs nd" and "rs \<noteq> []"
    and "st_getPeers C now shuffle i expected (na_storage nd) = Inr local"
  shows "\<exists>ps. ft_promise (fst (fst (completions (peer_completed (na_numDHTs nd)) rs (f, na_storage nd)))) = Value ps \<and>
    \<not> snd (completions (peer_completed (na_numDHTs nd)) rs (f, na_storage nd)) \<and> distinct (map peer_key ps) \<and>
    set ps \<subseteq> set local \<union> \<Union> (set ` set (map snd rs)) \<and> peer_key ` set ps = peer_key ` (set local \<union> \<Union> (set ` set (map snd rs)))"
proof -
  have f: "ft_value f = add_peers local []" "ft_completion f = 0"
    using assms(1,2,5) by (auto simp: na_findPeer_def mk_future_def Let_def split: if_splits)
  have l: "distinct (map peer_key (add_peers local [])) \<and> set (add_peers local []) \<subseteq> set local \<and> peer_key ` set (add_peers local []) = peer_key ` set local"
    using add_peers_keys [of "[]" local] by simp
  note k = fold_peers_keys [OF conjunct1 [OF l], of "map snd rs"]
  have p: "ft_promise (fst (fst (completions (peer_completed (na_numDHTs nd)) rs (f, na_storage nd)))) = Value (fold add_peers (map snd rs) (add_peers local []))"
    using peers_set [of "(f, na_storage nd)" rs "na_numDHTs nd"] f assms(2-4) by simp
  have t: "\<not> snd (completions (peer_completed (na_numDHTs nd)) rs (f, na_storage nd))"
    using peers.run_ends [of "(f, na_storage nd)" rs "na_numDHTs nd"] f assms(2-4) by simp
  have "set (fold add_peers (map snd rs) (add_peers local [])) \<subseteq> set local \<union> \<Union> (set ` set (map snd rs))" using k l by blast
  moreover have "peer_key ` set (fold add_peers (map snd rs) (add_peers local [])) = peer_key ` (set local \<union> \<Union> (set ` set (map snd rs)))"
    using k l by (simp only: image_Un) blast
  ultimately show ?thesis using p t k by blast
qed

theorem find_peer_future_witness:
  "\<exists>f ps. na_findPeer plain_crypto 5 (\<lambda>x. x) note_id 2 CONSERVATIVE running_node = Inr f \<and>
     ft_promise (fst (fst (completions (peer_completed 2) [(6, [web_peer]), (7, [web_peer])] (f, empty_storage)))) = Value ps \<and>
     distinct (map peer_key ps) \<and> peer_key ` set ps = {peer_key web_peer}"
proof -
  obtain f where f: "na_findPeer plain_crypto 5 (\<lambda>x. x) note_id 2 CONSERVATIVE running_node = Inr f" "ft_promise f = Unset"
    using note_id_nonzero by (simp add: na_findPeer_def isRunning_def running_node_def st_getPeers_def empty_storage_def mk_future_def Let_def)
  let ?rs = "[(6, [web_peer]), (7, [web_peer])]"
  have "int (length ?rs) = na_numDHTs running_node" "st_getPeers plain_crypto 5 (\<lambda>x. x) note_id 2 (na_storage running_node) = Inr []"
    by (simp_all add: running_node_def st_getPeers_def empty_storage_def Let_def)
  from find_peer_future [OF f this(1) _ this(2)] show ?thesis using f(1) by (auto simp: running_node_def)
qed

section \<open>Persistent values\<close>

text \<open>No row was announced after it was written, and none was written later than now.\<close>

definition announced_ok :: "u64 \<Rightarrow> storage \<Rightarrow> bool" where
  "announced_ok now st \<longleftrightarrow> list_all (\<lambda>(i, r). vr_announced r \<le> vr_timestamp r \<and> vr_timestamp r \<le> sint now) (valores st)"

lemma sint_clock:
  fixes t now :: u64
  assumes "t \<le> now" and "unat now < 2 ^ 63"
  shows "sint now = int (unat now)" and "sint t \<le> sint now" and "0 \<le> sint now"
proof -
  have u: "unat t \<le> unat now" "unat t < 2 ^ 63" using assms by (auto simp: word_le_nat_alt)
  show n: "sint now = int (unat now)" by (rule cutoff_exact(2) [OF assms(2), of 0]) simp_all
  have "sint t = int (unat t)" by (rule cutoff_exact(2) [OF u(2), of 0]) simp_all
  then show "sint t \<le> sint now" "0 \<le> sint now" unfolding n using u(1) by (simp_all only: of_nat_le_iff of_nat_0_le_iff)
qed

lemma announced_later: "announced_ok t st \<Longrightarrow> sint t \<le> sint now \<Longrightarrow> announced_ok now st"
  by (auto simp: announced_ok_def list_all_iff)

lemma announced_put:
  assumes ok: "announced_ok t st" and c: "t \<le> now" "unat now < 2 ^ 63" and put: "st_putValue C now v e p u st = Inr (old, st')"
  shows "announced_ok now st'"
proof -
  obtain i where st': "st' = st\<lparr>valores := upsert i (value_columns now v p u) value_conflict (valores st)\<rparr>" using put_cases [OF put] by metis
  have "announced_ok now st" using announced_later [OF ok] sint_clock(2) [OF c] by blast
  moreover have "vr_announced (value_columns now v p u) \<le> sint now" "vr_timestamp (value_columns now v p u) = sint now"
    using sint_clock(3) [OF c] by (simp_all add: value_columns_def)
  ultimately show ?thesis unfolding st' by (auto simp: announced_ok_def list_all_iff upsert_def value_conflict_def)
qed

lemma announced_expire: "announced_ok now st \<Longrightarrow> announced_ok now (st_expire t st)" "announced_ok now st \<Longrightarrow> announced_ok now (snd (st_removeValue i st))"
  by (auto simp: announced_ok_def list_all_iff st_expire_def st_removeValue_def)

definition stamp :: "u64 \<Rightarrow> id set \<Rightarrow> storage \<Rightarrow> storage" where
  "stamp now is' st = st\<lparr>valores := map (\<lambda>(i, r). (i, if i \<in> is' then r\<lparr>vr_timestamp := sint now, vr_announced := sint now\<rparr> else r)) (valores st)\<rparr>"

lemma stamp_empty: "stamp now {} st = st"
  by (simp add: stamp_def case_prod_beta map_idI)

lemma stamp_insert: "stamp now is' (st_updateValueLastAnnounce now i st) = stamp now (insert i is') st"
  by (simp add: stamp_def st_updateValueLastAnnounce_def comp_def case_prod_beta)

lemma announce_values_stamps:
  assumes "map (v_getId C) vs = map Some ids"
  shows "announce_values C now vs st = (None, vs, stamp now (set ids) st)"
  using assms
proof (induction vs arbitrary: ids st)
  case (Cons v vs)
  then obtain i ids' where "ids = i # ids'" "v_getId C v = Some i" "map (v_getId C) vs = map Some ids'" by (cases ids) auto
  then show ?case using Cons.IH [of ids'] by (simp add: stamp_insert)
qed (simp add: stamp_empty)

lemma collect_map: "collect (map f xs) = Inr ys" if "map f xs = map Inr ys"
  using that
proof (induction xs arbitrary: ys)
  case (Cons x xs)
  then show ?case by (cases ys) auto
qed simp

definition due :: "int \<Rightarrow> storage \<Rightarrow> (id \<times> value_row) list" where
  "due ts st = filter (\<lambda>(i, r). vr_persistent r \<and> vr_announced r \<le> ts) (valores st)"

lemma due_values:
  assumes "values_inv C st"
  shows "\<exists>vs. st_getPersistentValues t st = Inr vs \<and> map (v_getId C) vs = map Some (map fst (due (sint t) st)) \<and>
    (\<forall>i r v. (i, r) \<in> set (due (sint t) st) \<longrightarrow> row_value r = Inr v \<longrightarrow> v \<in> set vs)"
proof -
  define vs where "vs = map (\<lambda>(i, r). projr (row_value r)) (due (sint t) st)"
  have ok: "row_value r = Inr (projr (row_value r)) \<and> v_getId C (projr (row_value r)) = Some i" if "(i, r) \<in> set (due (sint t) st)" for i r
  proof -
    have "map_of (valores st) i = Some r" using that assms by (auto simp: due_def values_inv_def)
    then obtain v where "row_value r = Inr v" "v_getId C v = Some i" using assms unfolding values_inv_def row_ok_def by metis
    then show ?thesis by simp
  qed
  have "map (\<lambda>(i, r). row_value r) (due (sint t) st) = map Inr vs" unfolding vs_def using ok by (auto simp: case_prod_beta)
  then have "st_getPersistentValues t st = Inr vs" by (simp add: st_getPersistentValues_def due_def collect_map)
  moreover have "map (v_getId C) vs = map Some (map fst (due (sint t) st))" unfolding vs_def using ok by (auto simp: case_prod_beta)
  moreover have "\<forall>i r v. (i, r) \<in> set (due (sint t) st) \<longrightarrow> row_value r = Inr v \<longrightarrow> v \<in> set vs" unfolding vs_def by force
  ultimately show ?thesis by blast
qed

lemma announce_stamps:
  assumes "values_inv C st" and "persistentAnnounce C now st = (e, vs, ps, st')"
  shows "valores st' = valores (stamp now (fst ` set (due (sint (announce_before now MAX_VALUE_AGE)) st)) st)"
    and "(i, r) \<in> set (due (sint (announce_before now MAX_VALUE_AGE)) st) \<Longrightarrow> row_value r = Inr v \<Longrightarrow> v \<in> set vs"
proof -
  obtain ws where w: "st_getPersistentValues (announce_before now MAX_VALUE_AGE) st = Inr ws"
    "map (v_getId C) ws = map Some (map fst (due (sint (announce_before now MAX_VALUE_AGE)) st))"
    "\<And>i r v. (i, r) \<in> set (due (sint (announce_before now MAX_VALUE_AGE)) st) \<Longrightarrow> row_value r = Inr v \<Longrightarrow> v \<in> set ws"
    using due_values [OF assms(1)] by metis
  have "valores (announce_peers now qs s) = valores s" for qs s
    unfolding announce_peers_def by (induction qs arbitrary: s) (simp_all add: st_updatePeerLastAnnounce_def)
  moreover have "vs = ws \<and> (st' = stamp now (set (map fst (due (sint (announce_before now MAX_VALUE_AGE)) st))) st \<or>
      (\<exists>qs. st' = announce_peers now qs (stamp now (set (map fst (due (sint (announce_before now MAX_VALUE_AGE)) st))) st)))"
    using assms(2) w(1) announce_values_stamps [OF w(2), of now st] by (auto simp: persistentAnnounce_def split: sum.splits)
  ultimately show "valores st' = valores (stamp now (fst ` set (due (sint (announce_before now MAX_VALUE_AGE)) st)) st)"
    and "(i, r) \<in> set (due (sint (announce_before now MAX_VALUE_AGE)) st) \<Longrightarrow> row_value r = Inr v \<Longrightarrow> v \<in> set vs"
    using w(3) by auto
qed

lemma announce_before_exact:
  assumes "unat now < 2 ^ 63"
  shows "sint (announce_before now MAX_VALUE_AGE) = int (unat now) - 6600000"
proof -
  have "announce_before now MAX_VALUE_AGE = now - word_of_int 6600000" by (simp add: announce_before_def)
  then show ?thesis using cutoff_exact(1) [OF assms, of 6600000] unfolding cutoff_def by simp
qed

lemma row_value_stamped: "row_value (r\<lparr>vr_timestamp := x, vr_announced := y\<rparr>) = row_value r"
  by (simp add: row_value_def)

text \<open>
  C16: Re-announcing keeps persistent values alive. After a run of \<^verbatim>\<open>persistentAnnounce\<close> every persistent value in the store is found for at least ten more minutes,
  twice the interval of the runs, even when the store expires entries in between; a value not announced for an hour and fifty minutes is announced by the run; and what the theorem
  assumes of the store holds again for the next run.
\<close>

theorem persistent_values_stay:
  assumes "values_inv C st" and "announced_ok now st" and "unat now + 600000 < 2 ^ 63" and "persistentAnnounce C now st = (e, vs, ps, st')"
    and "map_of (valores st) i = Some r" and "vr_persistent r" and "row_value r = Inr v" and "now \<le> now'" and "unat now' \<le> unat now + 600000"
  shows "st_getValue now' i st' = Inr (Some v) \<and> st_getValue now' i (st_expire t st') = Inr (Some v) \<and>
    (vr_announced r \<le> int (unat now) - 6600000 \<longrightarrow> v \<in> set vs) \<and> values_inv C st' \<and> announced_ok now st'"
proof -
  have n: "unat now < 2 ^ 63" "unat now' < 2 ^ 63" using assms(3,9) by linarith+
  note ts = announce_before_exact [OF n(1)] and clock = sint_clock [OF order_refl n(1)]
  define D where "D = due (int (unat now) - 6600000) st"
  have v: "valores st' = map (\<lambda>(i, r). (i, if i \<in> fst ` set D then r\<lparr>vr_timestamp := sint now, vr_announced := sint now\<rparr> else r)) (valores st)"
    using announce_stamps(1) [OF assms(1,4)] unfolding ts D_def by (simp add: stamp_def)
  have "(i, q) \<in> set (valores st) \<longleftrightarrow> q = r" for q using assms(1,5) unfolding values_inv_def by (metis map_of_eq_Some_iff option.inject)
  then have iD: "i \<in> fst ` set D \<longleftrightarrow> vr_announced r \<le> int (unat now) - 6600000"
    using assms(6) by (auto simp: D_def due_def image_iff)
  define r' where "r' = (if i \<in> fst ` set D then r\<lparr>vr_timestamp := sint now, vr_announced := sint now\<rparr> else r)"
  have r': "map_of (valores st') i = Some r'" using assms(5) unfolding v r'_def by (simp add: map_of_update)
  have "vr_announced r \<le> vr_timestamp r" using assms(2) map_of_SomeD [OF assms(5)] by (auto simp: announced_ok_def list_all_iff)
  then have "vr_timestamp r' > int (unat now) - 6600000" using iD clock by (auto simp: r'_def)
  moreover have "cutoff now' MAX_VALUE_AGE = int (unat now') - 7200000" using cutoff_exact(1) [OF n(2), of 7200000] by simp
  ultimately have alive: "cutoff now' MAX_VALUE_AGE \<le> vr_timestamp r'" using assms(9) by linarith
  have rv: "row_value r' = Inr v" using assms(7) by (simp add: r'_def row_value_stamped)
  have "st_getValue now' i st' = Inr (Some v)" using r' rv alive by (simp add: st_getValue_def)
  moreover have inv: "values_inv C st'"
    using assms(1) unfolding values_inv_def v by (auto simp: map_of_update map_fst_update row_ok_def row_value_stamped simp del: map_map)
  moreover have "vr_persistent r'" using assms(6) by (simp add: r'_def)
  then have "map_of (valores (st_expire t st')) i = Some r'"
    using map_of_delete [of "valores st'" "\<lambda>i r. vr_persistent r \<or> vr_timestamp r \<ge> cutoff t MAX_VALUE_AGE" i] inv r' by (simp add: st_expire_def values_inv_def)
  then have "st_getValue now' i (st_expire t st') = Inr (Some v)" using rv alive by (simp add: st_getValue_def)
  moreover have "v \<in> set vs" if "vr_announced r \<le> int (unat now) - 6600000"
    using announce_stamps(2) [OF assms(1,4), of i r v] assms(5-7) that unfolding ts by (auto simp: due_def dest: map_of_SomeD)
  moreover have "announced_ok now st'" using assms(2) unfolding announced_ok_def v by (auto simp: list_all_iff)
  ultimately show ?thesis by blast
qed

definition kept_note :: storage where
  "kept_note = empty_storage\<lparr>valores := [(note_id, value_columns 1000 (note_value 5) True True)]\<rparr>"

theorem persistent_values_stay_witness:
  "\<exists>e vs ps st'. persistentAnnounce plain_crypto 8000000 kept_note = (e, vs, ps, st') \<and> note_value 5 \<in> set vs \<and> st_getValue 8500000 note_id st' = Inr (Some (note_value 5))"
proof -
  obtain e vs ps st' where p: "persistentAnnounce plain_crypto 8000000 kept_note = (e, vs, ps, st')" by (metis prod_cases4)
  let ?r = "value_columns 1000 (note_value 5) True True"
  have r: "row_value ?r = Inr (note_value 5)" using row_value_columns [OF note_ok(1) [of 5], where now = 1000 and p = True and u = True and p' = True and a = 1000] by (simp add: value_columns_def)
  have "v_isValid plain_crypto (note_value 5)" by (simp add: v_isValid_def note_value_def plain_crypto_def)
  then have inv: "values_inv plain_crypto kept_note" using r note_ok(1) [of 5] note_ok(2) by (auto simp: values_inv_def kept_note_def row_ok_def)
  have a: "announced_ok 8000000 kept_note" "vr_announced ?r \<le> int (unat (8000000 :: u64)) - 6600000" "vr_persistent ?r"
    by (simp_all add: announced_ok_def kept_note_def value_columns_def)
  have m: "map_of (valores kept_note) note_id = Some ?r" by (simp add: kept_note_def)
  show ?thesis using persistent_values_stay [OF inv a(1) _ p m a(3) r, of 8500000 0] a(2) p by simp
qed

end
