(* ===== verification/Messages.thy ===== *)
theory Messages
  imports Values Candidates
begin

text \<open>
  The messages of the protocol and their wire format, \<^verbatim>\<open>src/core/messages\<close>. A message is turned into a JSON
  document, which a library writes as CBOR; the documents are modelled here, the CBOR codec is a parameter of
  the component that sends and receives packets. An object is the list of its members; the readers do not
  depend on their order. Numbers are integers. A \<^verbatim>\<open>MessageError\<close>, a type error of the JSON library or
  another exception during parsing is \<open>None\<close>.
\<close>

unbundle bit_operations_syntax

datatype json = JNull | JBool bool | JInt int | JStr string | JBin "u8 list" | JArr "json list" | JObj "(string \<times> json) list"

text \<open>Readers of the JSON library: numbers are cast to the C++ type without a range check.\<close>

fun get_number :: "json \<Rightarrow> int option" where
  "get_number (JInt n) = Some n"
| "get_number (JBool b) = Some (of_bool b)"
| "get_number _ = None"

definition get_int :: "json \<Rightarrow> int option" where
  "get_int j = map_option (\<lambda>n. sint (word_of_int n :: u32)) (get_number j)"

definition get_u8 :: "json \<Rightarrow> int option" where
  "get_u8 j = map_option (\<lambda>n. uint (word_of_int n :: u8)) (get_number j)"

definition get_u16 :: "json \<Rightarrow> u16 option" where
  "get_u16 j = map_option word_of_int (get_number j)"

fun get_str :: "json \<Rightarrow> string option" where
  "get_str (JStr s) = Some s"
| "get_str _ = None"

fun get_binary :: "json \<Rightarrow> u8 list option" where
  "get_binary (JBin b) = Some b"
| "get_binary _ = None"

definition get_id :: "json \<Rightarrow> id option" where
  "get_id j = Option.bind (get_binary j) id_of_blob"

section \<open>Types and methods\<close>

datatype method_enum = UNKNOWN | PING | FIND_NODE | ANNOUNCE_PEER | FIND_PEER | STORE_VALUE | FIND_VALUE

datatype msg_type = ERR | REQUEST | RESPONSE

definition MSG_TYPE_MASK :: int where "MSG_TYPE_MASK = 0xE0"
definition MSG_METHOD_MASK :: int where "MSG_METHOD_MASK = 0x1F"

fun method_code :: "method_enum \<Rightarrow> int" where
  "method_code UNKNOWN = 0x00"
| "method_code PING = 0x01"
| "method_code FIND_NODE = 0x02"
| "method_code ANNOUNCE_PEER = 0x03"
| "method_code FIND_PEER = 0x04"
| "method_code STORE_VALUE = 0x05"
| "method_code FIND_VALUE = 0x06"

fun type_code :: "msg_type \<Rightarrow> int" where
  "type_code ERR = 0x00"
| "type_code REQUEST = 0x20"
| "type_code RESPONSE = 0x40"

definition method_valueOf :: "int \<Rightarrow> method_enum option" where
  "method_valueOf v =
     (let m = v AND MSG_METHOD_MASK in
      if m = 0x00 then Some UNKNOWN else if m = 0x01 then Some PING else if m = 0x02 then Some FIND_NODE
      else if m = 0x03 then Some ANNOUNCE_PEER else if m = 0x04 then Some FIND_PEER
      else if m = 0x05 then Some STORE_VALUE else if m = 0x06 then Some FIND_VALUE else None)"

definition type_valueOf :: "int \<Rightarrow> msg_type option" where
  "type_valueOf v =
     (let t = v AND MSG_TYPE_MASK in
      if t = 0x00 then Some ERR else if t = 0x20 then Some REQUEST else if t = 0x40 then Some RESPONSE else None)"

definition type_key :: "msg_type \<Rightarrow> string" where
  "type_key t = (case t of ERR \<Rightarrow> ''e'' | REQUEST \<Rightarrow> ''q'' | RESPONSE \<Rightarrow> ''r'')"

section \<open>Message bodies\<close>

record lookup_request =
  lr_target :: id
  want4 :: bool
  want6 :: bool
  wantToken :: bool

record lookup_response =
  nodes4 :: "node_info list"
  nodes6 :: "node_info list"
  res_token :: int

record value_fields =
  f_publicKey :: "id option"
  f_recipient :: "id option"
  f_nonce :: "u8 list option"
  f_signature :: "u8 list option"
  f_sequenceNumber :: int
  f_value :: "u8 list"

record announce_request =
  a_token :: int
  a_peerId :: id
  a_nodeId :: "id option"
  a_port :: u16
  a_alternativeURL :: string
  a_signature :: "u8 list"

datatype body =
    PingRequest | PingResponse
  | FindNodeRequest lookup_request | FindNodeResponse lookup_response
  | AnnouncePeerRequest announce_request | AnnouncePeerResponse
  | FindPeerRequest lookup_request | FindPeerResponse lookup_response "peer_info list"
  | StoreValueRequest int value_fields int | StoreValueResponse
  | FindValueRequest lookup_request int | FindValueResponse lookup_response value_fields
  | ErrorMessage method_enum int string

record message =
  m_txid :: int
  m_version :: int
  m_body :: body

fun body_method :: "body \<Rightarrow> method_enum" where
  "body_method PingRequest = PING"
| "body_method PingResponse = PING"
| "body_method (FindNodeRequest _) = FIND_NODE"
| "body_method (FindNodeResponse _) = FIND_NODE"
| "body_method (AnnouncePeerRequest _) = ANNOUNCE_PEER"
| "body_method AnnouncePeerResponse = ANNOUNCE_PEER"
| "body_method (FindPeerRequest _) = FIND_PEER"
| "body_method (FindPeerResponse _ _) = FIND_PEER"
| "body_method (StoreValueRequest _ _ _) = STORE_VALUE"
| "body_method StoreValueResponse = STORE_VALUE"
| "body_method (FindValueRequest _ _) = FIND_VALUE"
| "body_method (FindValueResponse _ _) = FIND_VALUE"
| "body_method (ErrorMessage m _ _) = m"

fun body_type :: "body \<Rightarrow> msg_type" where
  "body_type PingRequest = REQUEST"
| "body_type PingResponse = RESPONSE"
| "body_type (FindNodeRequest _) = REQUEST"
| "body_type (FindNodeResponse _) = RESPONSE"
| "body_type (AnnouncePeerRequest _) = REQUEST"
| "body_type AnnouncePeerResponse = RESPONSE"
| "body_type (FindPeerRequest _) = REQUEST"
| "body_type (FindPeerResponse _ _) = RESPONSE"
| "body_type (StoreValueRequest _ _ _) = REQUEST"
| "body_type StoreValueResponse = RESPONSE"
| "body_type (FindValueRequest _ _) = REQUEST"
| "body_type (FindValueResponse _ _) = RESPONSE"
| "body_type (ErrorMessage _ _ _) = ERR"

text \<open>\<^verbatim>\<open>createRequest\<close>, \<^verbatim>\<open>createResponse\<close> and \<^verbatim>\<open>createMessage\<close>; members without initial value start as zero.\<close>

definition empty_request :: lookup_request where
  "empty_request = \<lparr>lr_target = zero_id, want4 = False, want6 = False, wantToken = False\<rparr>"

definition empty_response :: lookup_response where
  "empty_response = \<lparr>nodes4 = [], nodes6 = [], res_token = 0\<rparr>"

definition empty_fields :: value_fields where
  "empty_fields = \<lparr>f_publicKey = None, f_recipient = None, f_nonce = None, f_signature = None, f_sequenceNumber = -1, f_value = []\<rparr>"

definition empty_announce :: announce_request where
  "empty_announce = \<lparr>a_token = 0, a_peerId = zero_id, a_nodeId = None, a_port = 0, a_alternativeURL = [], a_signature = []\<rparr>"

fun createRequest :: "method_enum \<Rightarrow> body option" where
  "createRequest PING = Some PingRequest"
| "createRequest FIND_NODE = Some (FindNodeRequest empty_request)"
| "createRequest ANNOUNCE_PEER = Some (AnnouncePeerRequest empty_announce)"
| "createRequest FIND_PEER = Some (FindPeerRequest empty_request)"
| "createRequest STORE_VALUE = Some (StoreValueRequest 0 empty_fields (-1))"
| "createRequest FIND_VALUE = Some (FindValueRequest empty_request (-1))"
| "createRequest UNKNOWN = None"

fun createResponse :: "method_enum \<Rightarrow> body option" where
  "createResponse PING = Some PingResponse"
| "createResponse FIND_NODE = Some (FindNodeResponse empty_response)"
| "createResponse ANNOUNCE_PEER = Some AnnouncePeerResponse"
| "createResponse FIND_PEER = Some (FindPeerResponse empty_response [])"
| "createResponse STORE_VALUE = Some StoreValueResponse"
| "createResponse FIND_VALUE = Some (FindValueResponse empty_response empty_fields)"
| "createResponse UNKNOWN = None"

definition createMessage :: "int \<Rightarrow> body option" where
  "createMessage messageType =
     (case (type_valueOf messageType, method_valueOf messageType) of
        (Some REQUEST, Some m) \<Rightarrow> createRequest m
      | (Some RESPONSE, Some m) \<Rightarrow> createResponse m
      | (Some ERR, Some m) \<Rightarrow> Some (ErrorMessage m 0 [])
      | _ \<Rightarrow> None)"

section \<open>Writing\<close>

definition jid :: "id \<Rightarrow> json" where
  "jid i = JBin (bytes i)"

definition getWant :: "lookup_request \<Rightarrow> int" where
  "getWant r = (if want4 r then 0x01 else 0) OR (if want6 r then 0x02 else 0) OR (if wantToken r then 0x04 else 0)"

definition setWant :: "int \<Rightarrow> lookup_request \<Rightarrow> lookup_request" where
  "setWant want r =
     r\<lparr>want4 := (want AND 0x01) \<noteq> 0, want6 := (want AND 0x02) \<noteq> 0, wantToken := (want AND 0x04) \<noteq> 0\<rparr>"

definition request_object :: "lookup_request \<Rightarrow> (string \<times> json) list" where
  "request_object r = [(''t'', jid (lr_target r)), (''w'', JInt (getWant r))]"

definition node_to_json :: "node_info \<Rightarrow> json" where
  "node_to_json n = JArr [jid (n_id n), JBin (inaddr (n_addr n)), JInt (uint (sa_port (n_addr n)))]"

definition response_object :: "lookup_response \<Rightarrow> (string \<times> json) list" where
  "response_object r =
     (if nodes4 r \<noteq> [] then [(''n4'', JArr (map node_to_json (nodes4 r)))] else []) @
     (if nodes6 r \<noteq> [] then [(''n6'', JArr (map node_to_json (nodes6 r)))] else []) @
     (if res_token r \<noteq> 0 then [(''tok'', JInt (res_token r))] else [])"

definition announce_object :: "announce_request \<Rightarrow> (string \<times> json) list" where
  "announce_object a =
     [(''tok'', JInt (a_token a)), (''t'', jid (a_peerId a)), (''p'', JInt (uint (a_port a))), (''sig'', JBin (a_signature a))] @
     (case a_nodeId a of Some n \<Rightarrow> [(''x'', jid n)] | None \<Rightarrow> []) @
     (if a_alternativeURL a \<noteq> [] then [(''alt'', JStr (a_alternativeURL a))] else [])"

definition peer_to_json :: "peer_info \<Rightarrow> json" where
  "peer_to_json p =
     JArr [jid (p_nodeId p), if isDelegated p then jid (p_origin p) else JNull, JInt (uint (p_port p)),
           case p_alternativeURL p of Some u \<Rightarrow> JStr u | None \<Rightarrow> JNull, JBin (p_signature p)]"

definition peers_object :: "peer_info list \<Rightarrow> (string \<times> json) list" where
  "peers_object peers =
     (case peers of [] \<Rightarrow> [] | p # _ \<Rightarrow> [(''p'', JArr (jid (p_publicKey p) # map peer_to_json peers))])"

definition store_object :: "int \<Rightarrow> value_fields \<Rightarrow> int \<Rightarrow> (string \<times> json) list" where
  "store_object token f expected =
     [(''tok'', JInt token)] @
     (case f_publicKey f of
        Some pk \<Rightarrow>
          [(''k'', jid pk)] @ (case f_recipient f of Some r \<Rightarrow> [(''rec'', jid r)] | None \<Rightarrow> []) @
          [(''n'', JBin (the (f_nonce f))), (''sig'', JBin (the (f_signature f)))] @
          (if f_sequenceNumber f \<ge> 0 then [(''seq'', JInt (f_sequenceNumber f))] else []) @
          (if expected \<ge> 0 then [(''cas'', JInt expected)] else [])
      | None \<Rightarrow> []) @
     [(''v'', JBin (f_value f))]"

definition value_object :: "value_fields \<Rightarrow> (string \<times> json) list" where
  "value_object f =
     (case f_publicKey f of
        Some pk \<Rightarrow>
          [(''k'', jid pk)] @ (case f_recipient f of Some r \<Rightarrow> [(''rec'', jid r)] | None \<Rightarrow> []) @
          [(''n'', JBin (the (f_nonce f)))] @
          (if f_sequenceNumber f \<ge> 0 then [(''seq'', JInt (f_sequenceNumber f))] else []) @
          [(''sig'', JBin (the (f_signature f)))]
      | None \<Rightarrow> []) @
     (if f_value f \<noteq> [] then [(''v'', JBin (f_value f))] else [])"

text \<open>The object of the body, where the class writes one.\<close>

fun body_object :: "body \<Rightarrow> (string \<times> json) list option" where
  "body_object (FindNodeRequest r) = Some (request_object r)"
| "body_object (FindPeerRequest r) = Some (request_object r)"
| "body_object (FindValueRequest r seq) = Some (request_object r @ (if seq \<ge> 0 then [(''seq'', JInt seq)] else []))"
| "body_object (FindNodeResponse r) = Some (response_object r)"
| "body_object (FindPeerResponse r ps) = Some (response_object r @ peers_object ps)"
| "body_object (FindValueResponse r f) = Some (response_object r @ value_object f)"
| "body_object (AnnouncePeerRequest a) = Some (announce_object a)"
| "body_object (StoreValueRequest token f expected) = Some (store_object token f expected)"
| "body_object (ErrorMessage m code msg) = Some [(''c'', JInt code), (''m'', JStr msg)]"
| "body_object _ = None"

definition serialize :: "message \<Rightarrow> json" where
  "serialize m =
     (let b = m_body m;
          root = [(''y'', JInt (type_code (body_type b) OR method_code (body_method b))),
                  (''t'', JInt (m_txid m)), (''v'', JInt (m_version m))]
      in JObj (case body_object b of Some obj \<Rightarrow> root @ [(type_key (body_type b), JObj obj)] | None \<Rightarrow> root))"

section \<open>Reading\<close>

definition node_from_json :: "json \<Rightarrow> node_info option" where
  "node_from_json j =
     (case j of
        JArr (a # b # c # _) \<Rightarrow>
          Option.bind (get_id a) (\<lambda>i. Option.bind (get_binary b) (\<lambda>ip. Option.bind (get_int c) (\<lambda>port.
            map_option (\<lambda>sa. \<lparr>n_id = i, n_addr = sa, n_version = 0\<rparr>) (sa_of_blob ip (word_of_int port)))))
      | _ \<Rightarrow> None)"

fun parseNodes :: "json \<Rightarrow> node_info list \<Rightarrow> node_info list option" where
  "parseNodes (JArr js) ns = ofold (\<lambda>j ns. map_option (\<lambda>n. ns @ [n]) (node_from_json j)) js ns"
| "parseNodes _ ns = None"

text \<open>The member loops of the classes; \<open>other\<close> is the virtual \<^verbatim>\<open>_parse\<close> of the subclass.\<close>

definition request_member ::
  "(string \<Rightarrow> json \<Rightarrow> 'e \<Rightarrow> 'e option) \<Rightarrow> string \<times> json \<Rightarrow> lookup_request \<times> 'e \<Rightarrow> (lookup_request \<times> 'e) option" where
  "request_member other kv s =
     (let (k, v) = kv; (r, e) = s in
      if k = ''t'' then map_option (\<lambda>i. (r\<lparr>lr_target := i\<rparr>, e)) (get_id v)
      else if k = ''w'' then map_option (\<lambda>w. (setWant w r, e)) (get_int v)
      else map_option (\<lambda>e. (r, e)) (other k v e))"

definition response_member ::
  "(string \<Rightarrow> json \<Rightarrow> 'e \<Rightarrow> 'e option) \<Rightarrow> string \<times> json \<Rightarrow> lookup_response \<times> 'e \<Rightarrow> (lookup_response \<times> 'e) option" where
  "response_member other kv s =
     (let (k, v) = kv; (r, e) = s in
      if k = ''n4'' then map_option (\<lambda>ns. (r\<lparr>nodes4 := ns\<rparr>, e)) (parseNodes v (nodes4 r))
      else if k = ''n6'' then map_option (\<lambda>ns. (r\<lparr>nodes6 := ns\<rparr>, e)) (parseNodes v (nodes6 r))
      else if k = ''tok'' then map_option (\<lambda>t. (r\<lparr>res_token := t\<rparr>, e)) (get_int v)
      else map_option (\<lambda>e. (r, e)) (other k v e))"

definition ignore_member :: "string \<Rightarrow> json \<Rightarrow> unit \<Rightarrow> unit option" where
  "ignore_member k v u = Some u"

definition seq_member :: "string \<Rightarrow> json \<Rightarrow> int \<Rightarrow> int option" where
  "seq_member k v seq = (if k \<noteq> ''seq'' then None else get_int v)"

definition get_nonce :: "json \<Rightarrow> u8 list option" where
  "get_nonce v = Option.bind (get_binary v) (\<lambda>b. if length b = NONCE_BYTES then Some b else None)"

definition value_member :: "string \<Rightarrow> json \<Rightarrow> value_fields \<Rightarrow> value_fields option" where
  "value_member k v f =
     (if k = ''k'' then map_option (\<lambda>i. f\<lparr>f_publicKey := Some i\<rparr>) (get_id v)
      else if k = ''rec'' then map_option (\<lambda>i. f\<lparr>f_recipient := Some i\<rparr>) (get_id v)
      else if k = ''n'' then map_option (\<lambda>b. f\<lparr>f_nonce := Some b\<rparr>) (get_nonce v)
      else if k = ''seq'' then map_option (\<lambda>n. f\<lparr>f_sequenceNumber := n\<rparr>) (get_int v)
      else if k = ''sig'' then map_option (\<lambda>b. f\<lparr>f_signature := Some b\<rparr>) (get_binary v)
      else if k = ''v'' then map_option (\<lambda>b. f\<lparr>f_value := b\<rparr>) (get_binary v)
      else None)"

text \<open>The elements of a list of peers: an identifier, or an array that describes a peer with that identifier.\<close>

definition peer_element ::
  "crypto \<Rightarrow> json \<Rightarrow> u8 list \<times> peer_info list \<Rightarrow> (u8 list \<times> peer_info list) option" where
  "peer_element C j s =
     (let (peerId, ps) = s in
      case j of
        JArr (a # b # c # d # e # _) \<Rightarrow>
          Option.bind (get_binary a) (\<lambda>nodeId.
          Option.bind (if b = JNull then Some [] else get_binary b) (\<lambda>origin.
          Option.bind (get_u16 c) (\<lambda>port.
          Option.bind (if d = JNull then Some [] else get_str d) (\<lambda>alt.
          Option.bind (get_binary e) (\<lambda>sig.
            case peer_of C peerId [] nodeId origin port alt sig of
              Inl _ \<Rightarrow> None
            | Inr p \<Rightarrow> Some (peerId, ps @ [p]))))))
      | JArr _ \<Rightarrow> None
      | _ \<Rightarrow> map_option (\<lambda>b. (b, ps)) (get_binary j))"

definition peers_member :: "crypto \<Rightarrow> string \<Rightarrow> json \<Rightarrow> peer_info list \<Rightarrow> peer_info list option" where
  "peers_member C k v ps =
     (case v of
        JArr js \<Rightarrow> if k \<noteq> ''p'' then None else map_option snd (ofold (peer_element C) js ([], ps))
      | _ \<Rightarrow> None)"

definition announce_member :: "string \<times> json \<Rightarrow> announce_request \<Rightarrow> announce_request option" where
  "announce_member kv a =
     (let (k, v) = kv in
      if k = ''t'' then map_option (\<lambda>i. a\<lparr>a_peerId := i\<rparr>) (get_id v)
      else if k = ''x'' then map_option (\<lambda>i. a\<lparr>a_nodeId := Some i\<rparr>) (get_id v)
      else if k = ''p'' then map_option (\<lambda>p. a\<lparr>a_port := p\<rparr>) (get_u16 v)
      else if k = ''alt'' then map_option (\<lambda>u. a\<lparr>a_alternativeURL := u\<rparr>) (get_str v)
      else if k = ''sig'' then map_option (\<lambda>b. a\<lparr>a_signature := b\<rparr>) (get_binary v)
      else if k = ''tok'' then map_option (\<lambda>t. a\<lparr>a_token := t\<rparr>) (get_int v)
      else None)"

text \<open>\<^verbatim>\<open>StoreValueRequest::parse\<close> reads the sequence number as a 16-bit number.\<close>

definition store_member :: "string \<times> json \<Rightarrow> int \<times> value_fields \<times> int \<Rightarrow> (int \<times> value_fields \<times> int) option" where
  "store_member kv s =
     (let (k, v) = kv; (token, f, expected) = s in
      if k = ''k'' then map_option (\<lambda>i. (token, f\<lparr>f_publicKey := Some i\<rparr>, expected)) (get_id v)
      else if k = ''rec'' then map_option (\<lambda>i. (token, f\<lparr>f_recipient := Some i\<rparr>, expected)) (get_id v)
      else if k = ''n'' then map_option (\<lambda>b. (token, f\<lparr>f_nonce := Some b\<rparr>, expected)) (get_nonce v)
      else if k = ''sig'' then map_option (\<lambda>b. (token, f\<lparr>f_signature := Some b\<rparr>, expected)) (get_binary v)
      else if k = ''seq'' then map_option (\<lambda>n. (token, f\<lparr>f_sequenceNumber := uint n\<rparr>, expected)) (get_u16 v)
      else if k = ''cas'' then map_option (\<lambda>n. (token, f, n)) (get_int v)
      else if k = ''tok'' then map_option (\<lambda>t. (t, f, expected)) (get_int v)
      else if k = ''v'' then map_option (\<lambda>b. (token, f\<lparr>f_value := b\<rparr>, expected)) (get_binary v)
      else None)"

definition error_member :: "string \<times> json \<Rightarrow> int \<times> string \<Rightarrow> (int \<times> string) option" where
  "error_member kv s =
     (let (k, v) = kv; (code, msg) = s in
      if k = ''c'' then map_option (\<lambda>c. (c, msg)) (get_int v)
      else if k = ''m'' then map_option (\<lambda>m. (code, m)) (get_str v)
      else None)"

text \<open>The virtual \<^verbatim>\<open>parse(fieldName, object)\<close> of the classes.\<close>

definition members :: "bool \<Rightarrow> json \<Rightarrow> (string \<times> json) list option" where
  "members expected j = (case j of JObj ms \<Rightarrow> if expected then Some ms else None | _ \<Rightarrow> None)"

fun body_parse :: "crypto \<Rightarrow> string \<Rightarrow> json \<Rightarrow> body \<Rightarrow> body option" where
  "body_parse C k j (FindNodeRequest r) =
     Option.bind (members (k = ''q'') j) (\<lambda>ms. map_option (\<lambda>(r, _). FindNodeRequest r) (ofold (request_member ignore_member) ms (r, ())))"
| "body_parse C k j (FindPeerRequest r) =
     Option.bind (members (k = ''q'') j) (\<lambda>ms. map_option (\<lambda>(r, _). FindPeerRequest r) (ofold (request_member ignore_member) ms (r, ())))"
| "body_parse C k j (FindValueRequest r seq) =
     Option.bind (members (k = ''q'') j) (\<lambda>ms. map_option (\<lambda>(r, n). FindValueRequest r n) (ofold (request_member seq_member) ms (r, seq)))"
| "body_parse C k j (FindNodeResponse r) =
     Option.bind (members (k = ''r'') j) (\<lambda>ms. map_option (\<lambda>(r, _). FindNodeResponse r) (ofold (response_member ignore_member) ms (r, ())))"
| "body_parse C k j (FindPeerResponse r ps) =
     Option.bind (members (k = ''r'') j) (\<lambda>ms. map_option (\<lambda>(r, ps). FindPeerResponse r ps) (ofold (response_member (peers_member C)) ms (r, ps)))"
| "body_parse C k j (FindValueResponse r f) =
     Option.bind (members (k = ''r'') j) (\<lambda>ms. map_option (\<lambda>(r, f). FindValueResponse r f) (ofold (response_member value_member) ms (r, f)))"
| "body_parse C k j (AnnouncePeerRequest a) =
     Option.bind (members (k = ''q'') j) (\<lambda>ms. map_option AnnouncePeerRequest (ofold announce_member ms a))"
| "body_parse C k j (StoreValueRequest token f expected) =
     Option.bind (members (k = ''q'') j) (\<lambda>ms. map_option (\<lambda>(t, f, e). StoreValueRequest t f e) (ofold store_member ms (token, f, expected)))"
| "body_parse C k j (ErrorMessage m code msg) =
     Option.bind (members (k = ''e'') j) (\<lambda>ms. map_option (\<lambda>(c, s). ErrorMessage m c s) (ofold error_member ms (code, msg)))"
| "body_parse C k j b = Some b"

definition root_member :: "crypto \<Rightarrow> string \<times> json \<Rightarrow> message \<Rightarrow> message option" where
  "root_member C kv m =
     (let (k, v) = kv in
      if k = ''t'' then map_option (\<lambda>t. m\<lparr>m_txid := t\<rparr>) (get_int v)
      else if k = ''v'' then map_option (\<lambda>n. m\<lparr>m_version := n\<rparr>) (get_int v)
      else if k = ''q'' \<or> k = ''r'' \<or> k = ''e'' then map_option (\<lambda>b. m\<lparr>m_body := b\<rparr>) (body_parse C k v (m_body m))
      else Some m)"

definition parse :: "crypto \<Rightarrow> json \<Rightarrow> message option" where
  "parse C root =
     (case root of
        JObj ms \<Rightarrow>
          Option.bind (map_of ms ''y'') (\<lambda>y. Option.bind (get_u8 y) (\<lambda>type. Option.bind (createMessage type) (\<lambda>b.
            ofold (root_member C) ms \<lparr>m_txid = 0, m_version = 0, m_body = b\<rparr>)))
      | _ \<Rightarrow> None)"

section \<open>Round trip\<close>

definition int32 :: "int \<Rightarrow> bool" where
  "int32 n \<longleftrightarrow> - (2 ^ 31) \<le> n \<and> n < 2 ^ 31"

named_theorems json_read

lemma get_int_id [json_read]: "int32 n \<Longrightarrow> get_int (JInt n) = Some n"
  by (simp add: get_int_def int32_def signed_of_int signed_take_bit_int_eq_self)

lemma get_int_port [json_read]: "get_int (JInt (uint (p :: u16))) = Some (uint p)"
proof (rule get_int_id)
  have "- (2 ^ 31) \<le> uint p" by (rule order_trans [of _ 0]) simp_all
  moreover have "uint p < 2 ^ 31" using unsigned_less [of p, where 'a = int] by simp
  ultimately show "int32 (uint p)" by (simp only: int32_def)
qed

lemma get_u16_port [json_read]: "get_u16 (JInt (uint (p :: u16))) = Some p"
  by (simp add: get_u16_def)

lemma get_id_jid [json_read]: "get_id (jid i) = Some i"
  by (simp add: get_id_def jid_def)

fun wire_addr :: "sockaddr \<Rightarrow> bool" where
  "wire_addr (Inet a p) = True"
| "wire_addr (Inet6 a p flow scope) = (flow = 0 \<and> scope = 0)"
| "wire_addr Unspec = False"

definition wf_node :: "node_info \<Rightarrow> bool" where
  "wf_node n \<longleftrightarrow> n_version n = 0 \<and> wire_addr (n_addr n)"

lemma node_json [json_read]: "wf_node n \<Longrightarrow> node_from_json (node_to_json n) = Some n"
  by (cases "n_addr n")
    (auto simp: wf_node_def node_from_json_def node_to_json_def json_read sa_of_blob_inaddr [simplified] intro!: node_info.equality)

lemma parseNodes_json [json_read]:
  "\<forall>n \<in> set ns. wf_node n \<Longrightarrow> parseNodes (JArr (map node_to_json ns)) ms = Some (ms @ ns)"
proof (induction ns arbitrary: ms)
  case (Cons n ns)
  then show ?case using Cons.IH [of "ms @ [n]"] by (simp add: json_read)
qed simp

declare parseNodes.simps [simp del]

definition wf_response :: "lookup_response \<Rightarrow> bool" where
  "wf_response r \<longleftrightarrow> (\<forall>n \<in> set (nodes4 r). wf_node n) \<and> (\<forall>n \<in> set (nodes6 r). wf_node n) \<and> int32 (res_token r)"

lemma response_json:
  assumes "wf_response r"
  shows "ofold (response_member other) (response_object r) (empty_response, e) = Some (r, e)"
  using assms
  by (auto simp: response_object_def response_member_def empty_response_def wf_response_def json_read intro!: lookup_response.equality)

lemma want_json: "setWant (getWant r) s = s\<lparr>want4 := want4 r, want6 := want6 r, wantToken := wantToken r\<rparr>"
  by (cases "want4 r"; cases "want6 r"; cases "wantToken r") (simp_all add: setWant_def getWant_def)

lemma get_int_want [json_read]: "get_int (JInt (getWant r)) = Some (getWant r)"
  by (rule get_int_id) (cases "want4 r"; cases "want6 r"; cases "wantToken r"; simp add: getWant_def int32_def)

lemma request_json: "ofold (request_member other) (request_object r) (empty_request, e) = Some (r, e)"
  by (auto simp: request_object_def request_member_def json_read want_json intro!: lookup_request.equality)

text \<open>The fields of a value as \<^verbatim>\<open>setValue\<close> leaves them.\<close>

definition wf_fields :: "value_fields \<Rightarrow> bool" where
  "wf_fields f \<longleftrightarrow>
     (case f_publicKey f of
        None \<Rightarrow> f_recipient f = None \<and> f_nonce f = None \<and> f_signature f = None \<and> f_sequenceNumber f = -1
      | Some pk \<Rightarrow> (\<exists>n s. f_nonce f = Some n \<and> length n = NONCE_BYTES \<and> f_signature f = Some s) \<and>
                   (0 \<le> f_sequenceNumber f \<and> int32 (f_sequenceNumber f) \<or> f_sequenceNumber f = -1))"

lemma value_json:
  assumes "wf_fields f"
  shows "ofold (response_member value_member) (value_object f) (r, empty_fields) = Some (r, f)"
  using assms
  by (cases "f_publicKey f"; cases "f_recipient f")
    (auto simp: wf_fields_def value_object_def response_member_def value_member_def empty_fields_def get_nonce_def json_read
      intro!: value_fields.equality)

lemma store_json:
  assumes "wf_fields f" and "f_sequenceNumber f < 2 ^ 16" and "int32 token"
    and "expected = -1 \<or> (0 \<le> expected \<and> int32 expected \<and> f_publicKey f \<noteq> None)"
  shows "ofold store_member (store_object token f expected) (0, empty_fields, -1) = Some (token, f, expected)"
proof -
  have "get_u16 (JInt (f_sequenceNumber f)) = Some (word_of_int (f_sequenceNumber f))" by (simp add: get_u16_def)
  moreover have "uint (word_of_int (f_sequenceNumber f) :: u16) = f_sequenceNumber f" if "0 \<le> f_sequenceNumber f"
    using that assms(2) by (simp add: unsigned_of_int take_bit_int_eq_self)
  ultimately show ?thesis using assms
    by (cases "f_publicKey f"; cases "f_recipient f")
      (auto simp: wf_fields_def store_object_def store_member_def empty_fields_def get_nonce_def json_read intro!: value_fields.equality)
qed

lemma announce_json:
  assumes "int32 (a_token a)"
  shows "ofold announce_member (announce_object a) empty_announce = Some a"
  using assms
  by (cases "a_nodeId a") (auto simp: announce_object_def announce_member_def empty_announce_def json_read intro!: announce_request.equality)

lemma peer_element_json:
  assumes "wf_peer C p" and "p_publicKey p = k"
  shows "peer_element C (peer_to_json p) (bytes k, qs) = Some (bytes k, qs @ [p])"
proof -
  have "(if isDelegated p then jid (p_origin p) else JNull) = JNull \<longleftrightarrow> \<not> isDelegated p" by (simp add: jid_def)
  moreover have "(case p_alternativeURL p of Some u \<Rightarrow> JStr u | None \<Rightarrow> JNull) = JNull \<longleftrightarrow> p_alternativeURL p = None"
    by (simp split: option.splits)
  ultimately show ?thesis using peer_of_fields [OF assms(1)] assms(2)
    by (cases "isDelegated p"; cases "p_alternativeURL p")
      (auto simp: peer_element_def peer_to_json_def jid_def json_read url_of_def)
qed

lemma peer_elements_json:
  "\<forall>p \<in> set ps. wf_peer C p \<and> p_publicKey p = k \<Longrightarrow>
     ofold (peer_element C) (map peer_to_json ps) (bytes k, qs) = Some (bytes k, qs @ ps)"
  by (induction ps arbitrary: qs) (auto simp: peer_element_json)

lemma peers_json:
  assumes "\<forall>p \<in> set ps. wf_peer C p \<and> p_publicKey p = p_publicKey (hd ps)"
  shows "ofold (response_member (peers_member C)) (peers_object ps) (r, []) = Some (r, ps)"
proof (cases ps)
  case (Cons p qs)
  have "peer_element C (jid (p_publicKey p)) ([], []) = Some (bytes (p_publicKey p), [])" by (simp add: peer_element_def jid_def)
  moreover have "ofold (peer_element C) (map peer_to_json ps) (bytes (p_publicKey p), []) = Some (bytes (p_publicKey p), ps)"
  proof -
    have "\<forall>q \<in> set ps. wf_peer C q \<and> p_publicKey q = p_publicKey p" using assms Cons by (metis list.sel(1))
    from peer_elements_json [OF this, of "[]"] show ?thesis by (simp only: append_Nil)
  qed
  ultimately have all: "ofold (peer_element C) (jid (p_publicKey p) # map peer_to_json ps) ([], []) = Some (bytes (p_publicKey p), ps)"
    by simp
  have obj: "peers_object ps = [(''p'', JArr (jid (p_publicKey p) # map peer_to_json ps))]" by (simp add: peers_object_def Cons)
  have "peers_member C ''p'' (JArr (jid (p_publicKey p) # map peer_to_json ps)) [] = Some ps"
    unfolding peers_member_def json.case all by simp
  then show ?thesis unfolding obj by (simp add: response_member_def)
qed (simp add: peers_object_def)

fun wf_body :: "crypto \<Rightarrow> body \<Rightarrow> bool" where
  "wf_body C (FindNodeResponse r) = wf_response r"
| "wf_body C (FindPeerResponse r ps) =
     (wf_response r \<and> (\<forall>p \<in> set ps. wf_peer C p \<and> p_publicKey p = p_publicKey (hd ps)))"
| "wf_body C (FindValueRequest r seq) = (seq = -1 \<or> 0 \<le> seq \<and> int32 seq)"
| "wf_body C (FindValueResponse r f) = (wf_response r \<and> wf_fields f)"
| "wf_body C (AnnouncePeerRequest a) = int32 (a_token a)"
| "wf_body C (StoreValueRequest token f expected) =
     (wf_fields f \<and> f_sequenceNumber f < 2 ^ 16 \<and> int32 token \<and>
      (expected = -1 \<or> 0 \<le> expected \<and> int32 expected \<and> f_publicKey f \<noteq> None))"
| "wf_body C (ErrorMessage m code msg) = int32 code"
| "wf_body C _ = True"

definition wf_message :: "crypto \<Rightarrow> message \<Rightarrow> bool" where
  "wf_message C m \<longleftrightarrow> int32 (m_txid m) \<and> int32 (m_version m) \<and> wf_body C (m_body m)"

text \<open>The message a body is read into, and reading back the object that was written.\<close>

fun blank :: "body \<Rightarrow> body" where
  "blank (FindNodeRequest _) = FindNodeRequest empty_request"
| "blank (FindPeerRequest _) = FindPeerRequest empty_request"
| "blank (FindValueRequest _ _) = FindValueRequest empty_request (-1)"
| "blank (FindNodeResponse _) = FindNodeResponse empty_response"
| "blank (FindPeerResponse _ _) = FindPeerResponse empty_response []"
| "blank (FindValueResponse _ _) = FindValueResponse empty_response empty_fields"
| "blank (AnnouncePeerRequest _) = AnnouncePeerRequest empty_announce"
| "blank (StoreValueRequest _ _ _) = StoreValueRequest 0 empty_fields (-1)"
| "blank (ErrorMessage m _ _) = ErrorMessage m 0 []"
| "blank b = b"

lemma createMessage_blank: "\<exists>t. get_u8 (JInt (type_code (body_type b) OR method_code (body_method b))) = Some t \<and> createMessage t = Some (blank b)"
proof (cases b)
  case (ErrorMessage m c s)
  then show ?thesis
    by (cases m) (simp_all add: get_u8_def createMessage_def type_valueOf_def method_valueOf_def MSG_TYPE_MASK_def MSG_METHOD_MASK_def Let_def)
qed (simp_all add: get_u8_def createMessage_def type_valueOf_def method_valueOf_def MSG_TYPE_MASK_def MSG_METHOD_MASK_def Let_def)

lemma body_json:
  assumes "wf_body C b" and "body_object b = Some obj"
  shows "body_parse C (type_key (body_type b)) (JObj obj) (blank b) = Some b"
proof (cases b)
  case (FindValueRequest r seq)
  have "ofold (request_member seq_member) (request_object r @ (if seq \<ge> 0 then [(''seq'', JInt seq)] else [])) (empty_request, -1) = Some (r, seq)"
    using assms(1) FindValueRequest
    by (auto simp: ofold_append request_json request_member_def seq_member_def json_read)
  then show ?thesis using assms(2) FindValueRequest by (auto simp: members_def type_key_def)
next
  case (ErrorMessage m code msg)
  then show ?thesis using assms by (auto simp: members_def type_key_def error_member_def json_read)
qed (use assms in \<open>auto simp: members_def type_key_def request_json response_json ofold_append peers_json value_json announce_json store_json\<close>)

lemma body_none: "body_object b = None \<Longrightarrow> blank b = b"
  by (cases b) auto

lemma parse_serialize_body:
  assumes "wf_message C m"
  shows "parse C (serialize m) = Some m"
proof -
  let ?b = "m_body m"
  obtain t where t: "get_u8 (JInt (type_code (body_type ?b) OR method_code (body_method ?b))) = Some t" "createMessage t = Some (blank ?b)"
    using createMessage_blank by blast
  have h: "int32 (m_txid m)" "int32 (m_version m)" "wf_body C ?b" using assms by (auto simp: wf_message_def)
  show ?thesis
  proof (cases "body_object ?b")
    case None
    then show ?thesis using t h body_none [OF None]
      by (auto simp: serialize_def parse_def Let_def root_member_def json_read intro!: message.equality)
  next
    case (Some obj)
    have "type_key (body_type ?b) \<in> {''q'', ''r'', ''e''}" by (auto simp: type_key_def split: msg_type.splits)
    then show ?thesis using t h body_json [OF h(3) Some] Some
      by (auto simp: serialize_def parse_def Let_def root_member_def json_read intro!: message.equality)
  qed
qed

text \<open>
  C38: \<^verbatim>\<open>Message::parse\<close> of the document that \<^verbatim>\<open>serialize\<close> writes gives back the message, for every type and method of message
  whose numbers fit their fields.
\<close>

theorem parse_serialize:
  assumes "wf_message C m"
  shows "parse C (serialize m) = Some m"
  using assms by (rule parse_serialize_body)

theorem parse_serialize_witness:
  "let m = \<lparr>m_txid = 7, m_version = 1, m_body = FindValueRequest \<lparr>lr_target = MAX_ID, want4 = True, want6 = False, wantToken = True\<rparr> 3\<rparr>
   in parse plain_crypto (serialize m) = Some m"
  unfolding Let_def by (rule parse_serialize) (simp add: wf_message_def int32_def)

text \<open>
  \<^verbatim>\<open>StoreValueRequest\<close> reads the sequence number as a 16-bit number: a store request with a sequence number of 65536 or
  more arrives with its remainder.
\<close>

theorem store_seq_truncated:
  assumes "wf_fields f" and "f_publicKey f \<noteq> None" and "0 \<le> f_sequenceNumber f" and "int32 token"
  shows "ofold store_member (store_object token f (-1)) (0, empty_fields, -1) =
    Some (token, f\<lparr>f_sequenceNumber := f_sequenceNumber f mod 2 ^ 16\<rparr>, -1)"
proof -
  have "get_u16 (JInt (f_sequenceNumber f)) = Some (word_of_int (f_sequenceNumber f))" by (simp add: get_u16_def)
  moreover have "uint (word_of_int (f_sequenceNumber f) :: u16) = f_sequenceNumber f mod 2 ^ 16"
    by (simp add: unsigned_of_int take_bit_eq_mod)
  ultimately show ?thesis using assms
    by (cases "f_publicKey f"; cases "f_recipient f")
      (auto simp: wf_fields_def store_object_def store_member_def empty_fields_def get_nonce_def json_read intro!: value_fields.equality)
qed

section \<open>Values and peers in messages\<close>

definition setValue :: "value_record \<Rightarrow> value_fields" where
  "setValue v =
     (if isMutable v
      then \<lparr>f_publicKey = v_publicKey v, f_recipient = (if isEncrypted v then v_recipient v else None),
            f_nonce = v_nonce v, f_signature = v_signature v, f_sequenceNumber = v_sequenceNumber v, f_value = v_data v\<rparr>
      else empty_fields\<lparr>f_value := v_data v\<rparr>)"

definition getValue :: "value_fields \<Rightarrow> string + value_record" where
  "getValue f =
     value_of (blob_of (f_publicKey f)) [] (blob_of (f_recipient f)) (bytes_of (f_nonce f)) (f_sequenceNumber f)
       (bytes_of (f_signature f)) (f_value f)"

definition setPeer :: "peer_info \<Rightarrow> int \<Rightarrow> announce_request" where
  "setPeer p token =
     \<lparr>a_token = token, a_peerId = p_publicKey p, a_nodeId = (if isDelegated p then Some (p_nodeId p) else None), a_port = p_port p,
      a_alternativeURL = url_of (p_alternativeURL p), a_signature = p_signature p\<rparr>"

text \<open>\<^verbatim>\<open>AnnouncePeerRequest::getPeer\<close>; \<open>sender\<close> is the identifier of the node that sent the message.\<close>

definition getPeer :: "crypto \<Rightarrow> id \<Rightarrow> announce_request \<Rightarrow> string + peer_info" where
  "getPeer C sender a =
     peer_of C (bytes (a_peerId a)) [] (bytes (case a_nodeId a of Some n \<Rightarrow> n | None \<Rightarrow> sender)) (bytes sender) (a_port a)
       (a_alternativeURL a) (a_signature a)"

lemma getValue_setValue:
  assumes "wf_value v"
  shows "getValue (setValue v) = Inr v"
proof (cases "v_publicKey v")
  case None
  then have "getValue (setValue v) = value_of [] [] [] [] (-1) [] (v_data v)"
    by (simp add: getValue_def setValue_def isMutable_def empty_fields_def blob_of_def bytes_of_def)
  also have "\<dots> = value_of [] [] [] [] (v_sequenceNumber v) [] (v_data v)" by (simp add: value_of_def)
  also have "\<dots> = Inr v" using value_of_fields [OF assms] assms None by (simp add: wf_value_def blob_of_def bytes_of_def)
  finally show ?thesis .
next
  case (Some pk)
  then have "isMutable v" "(if isEncrypted v then v_recipient v else None) = v_recipient v"
    by (auto simp: isMutable_def isEncrypted_def)
  then show ?thesis using value_of_fields [OF assms] by (simp add: getValue_def setValue_def)
qed

lemma setValue_wf: "wf_value v \<Longrightarrow> int32 (v_sequenceNumber v) \<Longrightarrow> wf_fields (setValue v)"
  by (auto simp: wf_value_def wf_fields_def setValue_def isMutable_def empty_fields_def split: option.splits)

lemma getPeer_setPeer:
  assumes "wf_peer C p" and "p_origin p = sender"
  shows "getPeer C sender (setPeer p token) = Inr p"
  using peer_of_fields(1) [OF assms(1)] assms(2) by (auto simp: getPeer_def setPeer_def isDelegated_def)

theorem store_seq_truncated_witness:
  "let f = \<lparr>f_publicKey = Some zero_id, f_recipient = None, f_nonce = Some (replicate 24 0), f_signature = Some (replicate 64 0),
            f_sequenceNumber = 65537, f_value = [1]\<rparr>
   in ofold store_member (store_object 5 f (-1)) (0, empty_fields, -1) = Some (5, f\<lparr>f_sequenceNumber := f_sequenceNumber f mod 2 ^ 16\<rparr>, -1) \<and>
      f_sequenceNumber f mod 2 ^ 16 = 1"
  unfolding Let_def
proof
  show "ofold store_member (store_object 5 \<lparr>f_publicKey = Some zero_id, f_recipient = None, f_nonce = Some (replicate 24 0),
      f_signature = Some (replicate 64 0), f_sequenceNumber = 65537, f_value = [1]\<rparr> (-1)) (0, empty_fields, -1) =
    Some (5, \<lparr>f_publicKey = Some zero_id, f_recipient = None, f_nonce = Some (replicate 24 0), f_signature = Some (replicate 64 0),
      f_sequenceNumber = 65537, f_value = [1]\<rparr>\<lparr>f_sequenceNumber := f_sequenceNumber \<lparr>f_publicKey = Some zero_id, f_recipient = None,
      f_nonce = Some (replicate 24 0), f_signature = Some (replicate 64 0), f_sequenceNumber = 65537, f_value = [1]\<rparr> mod 2 ^ 16\<rparr>, -1)"
    by (rule store_seq_truncated) (simp_all add: wf_fields_def int32_def)
qed simp

text \<open>
  A value or a peer that is put into a request is the one the receiver takes out of it.
\<close>

theorem value_and_peer_carried:
  assumes "wf_value v" and "wf_peer C p" and "p_origin p = sender"
  shows "getValue (setValue v) = Inr v \<and> getPeer C sender (setPeer p token) = Inr p"
  using getValue_setValue [OF assms(1)] getPeer_setPeer [OF assms(2,3)] by blast

theorem value_and_peer_carried_witness:
  "\<exists>v p. createValue [9] = Inr v \<and> p_port p = 80 \<and> getValue (setValue v) = Inr v \<and> getPeer plain_crypto zero_id (setPeer p 3) = Inr p"
proof -
  define p where "p = \<lparr>p_publicKey = zero_id, p_privateKey = None, p_nodeId = MAX_ID, p_origin = zero_id, p_port = 80,
    p_alternativeURL = None, p_signature = replicate 64 0\<rparr>"
  obtain v where v: "createValue [9] = Inr v" by (simp add: createValue_def value_of_def Let_def)
  have "getValue (setValue v) = Inr v \<and> getPeer plain_crypto zero_id (setPeer p 3) = Inr p"
    using v value_of_wf by (intro value_and_peer_carried) (auto simp: createValue_def wf_peer_def p_def)
  with v show ?thesis unfolding p_def by (intro exI [of _ v]) (intro exI conjI, assumption, auto)
qed

end
