(* ===== verification/Statistics.thy ===== *)
theory Statistics
  imports Messages
begin

text \<open>
  Traffic counters, \<^verbatim>\<open>src/core/rpcstatistics.cc\<close>, and the version numbers of \<^verbatim>\<open>src/core/version.cc\<close> that messages
  carry. The counters are unsigned 32-bit numbers that wrap. A counter array indexed outside its bounds is undefined
  behaviour: \<open>None\<close>.
\<close>

section \<open>Versions\<close>

definition toupper_char :: "char \<Rightarrow> char" where
  "toupper_char c = (let n = of_char c :: nat in if 97 \<le> n \<and> n \<le> 122 then char_of (n - 32) else c)"

text \<open>\<^verbatim>\<open>Version::build\<close> on a name of at least two characters.\<close>

definition version_build :: "string \<Rightarrow> int \<Rightarrow> int" where
  "version_build name version =
     (let name = map toupper_char name;
          b = (\<lambda>k. (of_char (name ! k) :: u32));
          v = (word_of_int version :: u32)
      in sint (push_bit 24 (b 0) OR push_bit 16 (b 1) OR (v AND 0x0000FF00) OR (v AND 0x000000FF)))"

fun digits_of :: "nat \<Rightarrow> string" where
  "digits_of n = (if n < 10 then [char_of (48 + n)] else digits_of (n div 10) @ [char_of (48 + n mod 10)])"

declare digits_of.simps [simp del]

definition version_names :: "(string \<times> string) list" where
  "version_names = [(''OR'', ''Orca''), (''MK'', ''Meerkat'')]"

definition version_toString :: "int \<Rightarrow> string" where
  "version_toString version =
     (if version = 0 then ''N/A''
      else let w = (word_of_int version :: u32);
               code = [char_of (unat (drop_bit 24 w)), char_of (unat (drop_bit 16 (w AND 0x00ff0000)))];
               n = takeWhile (\<lambda>c. c \<noteq> CHR 0x00) code;
               v = digits_of (unat ((w AND 0x0000ff00) OR (w AND 0x000000ff)))
           in (case map_of version_names n of Some s \<Rightarrow> s | None \<Rightarrow> n) @ ''/'' @ v)"

section \<open>Counters\<close>

definition type_ordinal :: "msg_type \<Rightarrow> nat" where
  "type_ordinal t = (case t of ERR \<Rightarrow> 0 | REQUEST \<Rightarrow> 1 | RESPONSE \<Rightarrow> 2)"

definition method_ordinal :: "method_enum \<Rightarrow> nat" where
  "method_ordinal m = nat (method_code m)"

definition METHOD_TOTAL :: nat where [simp]: "METHOD_TOTAL = 7"
definition TYPE_TOTAL :: nat where [simp]: "TYPE_TOTAL = 3"

record rpc_stats =
  receivedBytes :: u32
  sentBytes :: u32
  lastReceivedBytes :: u32
  lastSentBytes :: u32
  lastReceivedTimestamp :: u64
  lastSentTimestamp :: u64
  receivedBytesPerSec :: u32
  sentBytesPerSec :: u32
  receivedMessages :: "u32 list list"
  sentMessages :: "u32 list list"
  timeoutMessages :: "u32 list"
  droppedPackets :: u32
  droppedBytes :: u32

definition empty_stats :: rpc_stats where
  "empty_stats =
     \<lparr>receivedBytes = 0, sentBytes = 0, lastReceivedBytes = 0, lastSentBytes = 0, lastReceivedTimestamp = 0, lastSentTimestamp = 0,
      receivedBytesPerSec = 0, sentBytesPerSec = 0,
      receivedMessages = replicate METHOD_TOTAL (replicate TYPE_TOTAL 0),
      sentMessages = replicate METHOD_TOTAL (replicate TYPE_TOTAL 0),
      timeoutMessages = replicate TYPE_TOTAL 0, droppedPackets = 0, droppedBytes = 0\<rparr>"

definition bump :: "nat \<Rightarrow> u32 list \<Rightarrow> u32 list option" where
  "bump k xs = (if k < length xs then Some (xs[k := xs ! k + 1]) else None)"

definition bump2 :: "nat \<Rightarrow> nat \<Rightarrow> u32 list list \<Rightarrow> u32 list list option" where
  "bump2 m t xss = (if m < length xss then map_option (\<lambda>xs. xss[m := xs]) (bump t (xss ! m)) else None)"

definition onReceivedMessage :: "body \<Rightarrow> rpc_stats \<Rightarrow> rpc_stats option" where
  "onReceivedMessage b s =
     map_option (\<lambda>xss. s\<lparr>receivedMessages := xss\<rparr>)
       (bump2 (method_ordinal (body_method b)) (type_ordinal (body_type b)) (receivedMessages s))"

definition onSentMessage :: "body \<Rightarrow> rpc_stats \<Rightarrow> rpc_stats option" where
  "onSentMessage b s =
     map_option (\<lambda>xss. s\<lparr>sentMessages := xss\<rparr>)
       (bump2 (method_ordinal (body_method b)) (type_ordinal (body_type b)) (sentMessages s))"

text \<open>The array of the timeouts has one counter per message type but is indexed by the method.\<close>

definition onTimeoutMessage :: "body \<Rightarrow> rpc_stats \<Rightarrow> rpc_stats option" where
  "onTimeoutMessage b s =
     map_option (\<lambda>xs. s\<lparr>timeoutMessages := xs\<rparr>) (bump (method_ordinal (body_method b)) (timeoutMessages s))"

definition onReceivedBytes :: "u32 \<Rightarrow> rpc_stats \<Rightarrow> rpc_stats" where
  "onReceivedBytes n s = s\<lparr>lastReceivedBytes := lastReceivedBytes s + n, receivedBytes := receivedBytes s + n\<rparr>"

definition onSentBytes :: "u32 \<Rightarrow> rpc_stats \<Rightarrow> rpc_stats" where
  "onSentBytes n s = s\<lparr>lastSentBytes := lastSentBytes s + n, sentBytes := sentBytes s + n\<rparr>"

definition onDroppedPacket :: "u32 \<Rightarrow> rpc_stats \<Rightarrow> rpc_stats" where
  "onDroppedPacket n s = s\<lparr>droppedPackets := droppedPackets s + 1, droppedBytes := droppedBytes s + n\<rparr>"

definition getTotalReceivedMessages :: "rpc_stats \<Rightarrow> u32" where
  "getTotalReceivedMessages s = fold (\<lambda>item total. total + fold (\<lambda>n sum. sum + n) item 0) (receivedMessages s) 0"

definition getTotalSentMessages :: "rpc_stats \<Rightarrow> u32" where
  "getTotalSentMessages s = fold (\<lambda>item total. total + fold (\<lambda>n sum. sum + n) item 0) (sentMessages s) 0"

definition getTotalTimeoutMessages :: "rpc_stats \<Rightarrow> u32" where
  "getTotalTimeoutMessages s = fold (\<lambda>n total. total + n) (timeoutMessages s) 0"

text \<open>The product \<^verbatim>\<open>lrb * 1000\<close> is a 32-bit product for received bytes and a 64-bit one for sent bytes.\<close>

definition getReceivedBytesPerSec :: "u64 \<Rightarrow> rpc_stats \<Rightarrow> u32 \<times> rpc_stats" where
  "getReceivedBytesPerSec now s =
     (let d = now - lastReceivedTimestamp s in
      if d > 950
      then let r = ucast (ucast (lastReceivedBytes s * 1000) div d)
           in (r, s\<lparr>lastReceivedBytes := 0, receivedBytesPerSec := r, lastReceivedTimestamp := now\<rparr>)
      else (receivedBytesPerSec s, s))"

definition getSentBytesPerSec :: "u64 \<Rightarrow> rpc_stats \<Rightarrow> u32 \<times> rpc_stats" where
  "getSentBytesPerSec now s =
     (let d = now - lastSentTimestamp s in
      if d > 950
      then let r = ucast (ucast (lastSentBytes s) * 1000 div d)
           in (r, s\<lparr>lastSentBytes := 0, sentBytesPerSec := r, lastSentTimestamp := now\<rparr>)
      else (sentBytesPerSec s, s))"

section \<open>Properties\<close>

text \<open>The shape of the counter arrays.\<close>

definition stats_inv :: "rpc_stats \<Rightarrow> bool" where
  "stats_inv s \<longleftrightarrow> length (receivedMessages s) = 7 \<and> (\<forall>xs \<in> set (receivedMessages s). length xs = 3) \<and>
     length (sentMessages s) = 7 \<and> (\<forall>xs \<in> set (sentMessages s). length xs = 3) \<and> length (timeoutMessages s) = 3"

lemma method_ordinal_less: "method_ordinal m < 7"
  by (cases m) (simp_all add: method_ordinal_def)

lemma type_ordinal_less: "type_ordinal t < 3"
  by (cases t) (simp_all add: type_ordinal_def)

lemma fold_sum: "fold (\<lambda>n s. s + n) xs (a :: u32) = a + sum_list xs"
  by (induction xs arbitrary: a) (simp_all add: ac_simps)

lemma fold_plus: "fold (+) xs (a :: u32) = a + sum_list xs"
  by (induction xs arbitrary: a) (simp_all add: ac_simps)

lemma fold_sum2: "fold (\<lambda>item total. total + fold (\<lambda>n s. s + n) item 0) xss (a :: u32) = a + sum_list (map sum_list xss)"
  by (induction xss arbitrary: a) (simp_all add: fold_sum fold_plus ac_simps)

lemma sum_list_bump: "k < length xs \<Longrightarrow> sum_list (xs[k := xs ! k + 1]) = sum_list xs + (1 :: u32)"
  by (induction xs arbitrary: k) (auto simp: ac_simps split: nat.splits)

lemma sum_list_map_bump:
  "m < length xss \<Longrightarrow> sum_list ys = sum_list (xss ! m) + 1 \<Longrightarrow> sum_list (map sum_list (xss[m := ys])) = sum_list (map sum_list xss) + (1 :: u32)"
  by (induction xss arbitrary: m) (auto simp: ac_simps split: nat.splits)

lemma bump2_total:
  assumes "m < length xss" and "t < length (xss ! m)"
  obtains yss where "bump2 m t xss = Some yss" "sum_list (map sum_list yss) = sum_list (map sum_list xss) + 1"
    "length yss = length xss" "\<forall>ys \<in> set yss. ys \<in> set xss \<or> length ys = length (xss ! m)"
proof -
  define ys where "ys = (xss ! m)[t := xss ! m ! t + 1]"
  have "bump2 m t xss = Some (xss[m := ys])" using assms by (simp add: bump2_def bump_def ys_def)
  moreover have "sum_list (map sum_list (xss[m := ys])) = sum_list (map sum_list xss) + 1"
    using assms by (intro sum_list_map_bump) (simp_all add: ys_def sum_list_bump)
  moreover have "\<forall>zs \<in> set (xss[m := ys]). zs \<in> set xss \<or> length zs = length (xss ! m)"
    using set_update_subset_insert [of xss m ys] by (auto simp: ys_def)
  ultimately show ?thesis using that by simp
qed

lemma received_counted:
  assumes "stats_inv s"
  obtains s' where "onReceivedMessage b s = Some s'" "stats_inv s'" "getTotalReceivedMessages s' = getTotalReceivedMessages s + 1"
    "getTotalSentMessages s' = getTotalSentMessages s"
proof -
  have "method_ordinal (body_method b) < length (receivedMessages s)" using assms method_ordinal_less by (simp add: stats_inv_def)
  moreover from this have "type_ordinal (body_type b) < length (receivedMessages s ! method_ordinal (body_method b))"
    using assms type_ordinal_less by (simp add: stats_inv_def)
  ultimately obtain yss where y: "bump2 (method_ordinal (body_method b)) (type_ordinal (body_type b)) (receivedMessages s) = Some yss"
    "sum_list (map sum_list yss) = sum_list (map sum_list (receivedMessages s)) + 1" "length yss = length (receivedMessages s)"
    "\<forall>ys \<in> set yss. ys \<in> set (receivedMessages s) \<or> length ys = length (receivedMessages s ! method_ordinal (body_method b))"
    using bump2_total by metis
  have "stats_inv (s\<lparr>receivedMessages := yss\<rparr>)" using assms y method_ordinal_less by (fastforce simp: stats_inv_def)
  then show ?thesis using that y by (simp add: onReceivedMessage_def getTotalReceivedMessages_def getTotalSentMessages_def fold_sum2)
qed

section \<open>Correctness\<close>

text \<open>
  A received message of any type and method is counted once and within the bounds of the arrays, and the total of the
  counters is one more (as a 32-bit number); but counting a timed-out call stays within bounds for \<^verbatim>\<open>PING\<close> and
  \<^verbatim>\<open>FIND_NODE\<close> only: the array has three elements and is indexed by the method.
\<close>

theorem counters_in_bounds:
  assumes "stats_inv s"
  shows "(\<exists>s'. onReceivedMessage b s = Some s' \<and> stats_inv s' \<and> getTotalReceivedMessages s' = getTotalReceivedMessages s + 1 \<and>
      getTotalSentMessages s' = getTotalSentMessages s) \<and>
    (onTimeoutMessage b s = None) = (body_method b \<in> {ANNOUNCE_PEER, FIND_PEER, STORE_VALUE, FIND_VALUE})"
proof -
  have "(onTimeoutMessage b s = None) = (body_method b \<in> {ANNOUNCE_PEER, FIND_PEER, STORE_VALUE, FIND_VALUE})"
    using assms by (cases "body_method b") (simp_all add: onTimeoutMessage_def bump_def stats_inv_def method_ordinal_def)
  then show ?thesis using received_counted [OF assms, of b] by metis
qed

theorem counters_in_bounds_witness:
  "(\<exists>s'. onReceivedMessage PingRequest empty_stats = Some s' \<and> stats_inv s' \<and> getTotalReceivedMessages s' = getTotalReceivedMessages empty_stats + 1 \<and>
      getTotalSentMessages s' = getTotalSentMessages empty_stats) \<and>
    (onTimeoutMessage PingRequest empty_stats = None) = (body_method PingRequest \<in> {ANNOUNCE_PEER, FIND_PEER, STORE_VALUE, FIND_VALUE})"
  by (rule counters_in_bounds) (simp add: stats_inv_def empty_stats_def)

text \<open>Five million bytes in one second: the rate of the received bytes wraps, that of the sent bytes does not.\<close>

lemma received_rate_wraps:
  "fst (getReceivedBytesPerSec 1000 (onReceivedBytes 5000000 empty_stats)) = 705032"
  "fst (getSentBytesPerSec 1000 (onSentBytes 5000000 empty_stats)) = 5000000"
  by (simp_all add: getReceivedBytesPerSec_def getSentBytesPerSec_def onReceivedBytes_def onSentBytes_def empty_stats_def Let_def)

lemma version_text: "version_toString (version_build ''mk'' 1) = ''Meerkat/1''"
  by code_simp

end
