(* ===== verification/Rpc_Calls.thy ===== *)
theory Rpc_Calls
  imports Statistics
begin

text \<open>
  A remote procedure call, \<^verbatim>\<open>src/core/rpccall.cc\<close>. The handlers of the code are called with the call; here an
  operation returns the new call together with the events it reported. The timer of a call, a job of the scheduler that
  runs \<^verbatim>\<open>checkTimeout\<close>, is kept with the call as the time at which it is due. The state \<^verbatim>\<open>CANCELED\<close> and
  \<^verbatim>\<open>ERR\<close> of the code are \<open>CALL_CANCELED\<close> and \<open>CALL_ERR\<close>.
\<close>

datatype call_state = UNSENT | SENT | STALLED | TIMEOUT | CALL_CANCELED | CALL_ERR | RESPONDED

datatype call_event = StateChange call_state call_state | TimeoutEvent | StallEvent | ResponseEvent

text \<open>A message with the fields that are filled in on reception.\<close>

record received =
  rm_id :: id
  rm_origin :: sockaddr
  rm_msg :: message

record rpc_call =
  k_target :: node_info
  k_request :: message
  k_remote :: sockaddr \<comment> \<open>the remote address of the request\<close>
  k_response :: "received option"
  sourceWasKnownReachable :: bool
  sentTime :: u64
  responseTime :: u64
  k_state :: call_state
  timeoutTimer :: "u64 option"

text \<open>The constructor; \<open>known\<close> is the reachability of a target that is a bucket entry or a candidate.\<close>

definition mk_call :: "node_info \<Rightarrow> bool \<Rightarrow> message \<Rightarrow> rpc_call" where
  "mk_call target known request =
     \<lparr>k_target = target, k_request = request, k_remote = n_addr target, k_response = None, sourceWasKnownReachable = known,
      sentTime = -1, responseTime = -1, k_state = UNSENT, timeoutTimer = None\<rparr>"

definition updateState :: "call_state \<Rightarrow> rpc_call \<Rightarrow> rpc_call \<times> call_event list" where
  "updateState current c =
     (c\<lparr>k_state := current\<rparr>,
      StateChange (k_state c) current #
        (case current of TIMEOUT \<Rightarrow> [TimeoutEvent] | STALLED \<Rightarrow> [StallEvent] | RESPONDED \<Rightarrow> [ResponseEvent] | _ \<Rightarrow> []))"

definition sent :: "u64 \<Rightarrow> rpc_call \<Rightarrow> rpc_call \<times> call_event list" where
  "sent now c =
     (let (c, ev) = updateState SENT (c\<lparr>sentTime := now\<rparr>)
      in (c\<lparr>timeoutTimer := Some (now + 2000)\<rparr>, ev))"

text \<open>\<open>None\<close> is the exception for a message that is neither a response nor an error.\<close>

definition responsed :: "u64 \<Rightarrow> received \<Rightarrow> rpc_call \<Rightarrow> (rpc_call \<times> call_event list) option" where
  "responsed now m c =
     (let c = c\<lparr>timeoutTimer := None, k_response := Some m, responseTime := now\<rparr>
      in case body_type (m_body (rm_msg m)) of
           RESPONSE \<Rightarrow> Some (updateState RESPONDED c)
         | ERR \<Rightarrow> Some (updateState CALL_ERR c)
         | REQUEST \<Rightarrow> None)"

definition call_cancel :: "rpc_call \<Rightarrow> rpc_call \<times> call_event list" where
  "call_cancel c = updateState CALL_CANCELED (c\<lparr>timeoutTimer := None\<rparr>)"

definition stall :: "rpc_call \<Rightarrow> rpc_call \<times> call_event list" where
  "stall c = (if k_state c = SENT then updateState STALLED c else (c, []))"

definition failed :: "rpc_call \<Rightarrow> rpc_call \<times> call_event list" where
  "failed c = updateState TIMEOUT c"

text \<open>The elapsed time is converted to a 32-bit \<^verbatim>\<open>int\<close>.\<close>

definition checkTimeout :: "u64 \<Rightarrow> rpc_call \<Rightarrow> rpc_call \<times> call_event list" where
  "checkTimeout now c =
     (if k_state c \<noteq> SENT \<and> k_state c \<noteq> STALLED then (c, [])
      else let elapsed = sint (ucast (now - sentTime c) :: u32);
               remaining = RPC_CALL_TIMEOUT_MAX - elapsed
           in if remaining > 0
              then let (c, ev) = updateState STALLED c
                   in (c\<lparr>timeoutTimer := Some (now + word_of_int remaining)\<rparr>, ev)
              else updateState TIMEOUT c)"

definition matchesId :: "rpc_call \<Rightarrow> bool" where
  "matchesId c \<longleftrightarrow> (case k_response c of Some m \<Rightarrow> rm_id m = n_id (k_target c) | None \<Rightarrow> False)"

definition matchesAddress :: "rpc_call \<Rightarrow> bool" where
  "matchesAddress c \<longleftrightarrow> (case k_response c of Some m \<Rightarrow> sa_eq (rm_origin m) (k_remote c) | None \<Rightarrow> False)"

text \<open>The scheduler runs the timer: the job is taken out of the queue and \<^verbatim>\<open>checkTimeout\<close> is called.\<close>

definition fire :: "u64 \<Rightarrow> rpc_call \<Rightarrow> rpc_call \<times> call_event list" where
  "fire now c =
     (case timeoutTimer c of
        Some t \<Rightarrow> if t \<le> now then checkTimeout now (c\<lparr>timeoutTimer := None\<rparr>) else (c, [])
      | None \<Rightarrow> (c, []))"

section \<open>A pending call is watched\<close>

definition pending :: "rpc_call \<Rightarrow> bool" where
  "pending c \<longleftrightarrow> k_state c = SENT \<or> k_state c = STALLED"

text \<open>A pending call has a timer that is due within ten seconds after it was sent.\<close>

definition call_inv :: "rpc_call \<Rightarrow> bool" where
  "call_inv c \<longleftrightarrow>
     (pending c \<longrightarrow> (\<exists>t. timeoutTimer c = Some t \<and> unat (sentTime c) \<le> unat t \<and> unat t \<le> unat (sentTime c) + 10000))"

text \<open>Times of a run: after the call was sent, and less than \<open>2 ^ 31\<close> milliseconds (24 days) later.\<close>

definition at_time :: "u64 \<Rightarrow> rpc_call \<Rightarrow> bool" where
  "at_time now c \<longleftrightarrow> sentTime c \<le> now \<and> unat now < unat (sentTime c) + 2 ^ 31 \<and> unat (sentTime c) + 10000 < 2 ^ 64"

lemma elapsed_exact:
  assumes "at_time now c"
  shows "sint (ucast (now - sentTime c) :: u32) = uint now - uint (sentTime c)"
proof -
  have le: "sentTime c \<le> now" and b: "unat now < unat (sentTime c) + 2 ^ 31" using assms by (auto simp: at_time_def)
  have d: "unat (now - sentTime c) = unat now - unat (sentTime c)" by (rule unat_sub [OF le])
  have lt: "uint (now - sentTime c) < 2 ^ 31" using d b by (simp add: uint_nat)
  have nn: "0 \<le> uint (now - sentTime c)" by simp
  have "signed_take_bit 31 (uint (now - sentTime c)) = uint (now - sentTime c)"
    by (rule signed_take_bit_int_eq_self [OF order.trans [OF _ nn] lt]) simp
  then have "sint (ucast (now - sentTime c) :: u32) = uint (now - sentTime c)" unfolding signed_ucast_eq by simp
  then show ?thesis using le by (simp add: uint_sub_lem [THEN iffD1] word_le_def)
qed

lemma unat_add_small:
  assumes "unat (a :: u64) + n < 2 ^ 64"
  shows "unat (a + word_of_nat n) = unat a + n"
proof -
  have n: "unat (word_of_nat n :: u64) = n" using assms by (simp add: unat_of_nat take_bit_nat_eq_self)
  then show ?thesis using assms by (simp add: unat_add_lem [THEN iffD1])
qed

text \<open>What the timer does with a pending call: too early, it is set again for ten seconds after sending; then it times out.\<close>

lemma checkTimeout_pending:
  assumes "pending c" and t: "at_time now c"
  shows "unat now < unat (sentTime c) + 10000 \<Longrightarrow>
      k_state (fst (checkTimeout now c)) = STALLED \<and> sentTime (fst (checkTimeout now c)) = sentTime c \<and>
      (\<exists>due. timeoutTimer (fst (checkTimeout now c)) = Some due \<and> unat due = unat (sentTime c) + 10000)"
    and "unat (sentTime c) + 10000 \<le> unat now \<Longrightarrow>
      checkTimeout now c = updateState TIMEOUT c"
proof -
  have st: "k_state c = SENT \<or> k_state c = STALLED" using assms(1) by (simp add: pending_def)
  have no: "unat (sentTime c) + 10000 < 2 ^ 64" using t by (simp add: at_time_def)
  have rem: "0 < 10000 - (uint now - uint (sentTime c)) \<longleftrightarrow> unat now < unat (sentTime c) + 10000" unfolding uint_nat by linarith
  have due: "unat (10000 + sentTime c) = unat (sentTime c) + 10000" using unat_add_small [OF no] by (simp add: add.commute)
  note e = elapsed_exact [OF t]
  show "k_state (fst (checkTimeout now c)) = STALLED \<and> sentTime (fst (checkTimeout now c)) = sentTime c \<and>
        (\<exists>due. timeoutTimer (fst (checkTimeout now c)) = Some due \<and> unat due = unat (sentTime c) + 10000)"
    if "unat now < unat (sentTime c) + 10000"
    using st that due rem by (auto simp: checkTimeout_def updateState_def Let_def e)
  show "checkTimeout now c = updateState TIMEOUT c" if "unat (sentTime c) + 10000 \<le> unat now"
    using st that rem by (auto simp: checkTimeout_def Let_def e)
qed

text \<open>The life of a call after it was sent: its timer runs when it is due, a stall is reported, or an answer arrives.\<close>

inductive call_step :: "rpc_call \<Rightarrow> rpc_call \<Rightarrow> bool" where
  cs_fire: "at_time now c \<Longrightarrow> call_step c (fst (fire now c))"
| cs_stall: "call_step c (fst (stall c))"
| cs_responsed: "responsed now m c = Some (c', ev) \<Longrightarrow> call_step c c'"
| cs_cancel: "call_step c (fst (call_cancel c))"

inductive_cases call_stepE: "call_step c c'"

lemma fire_inv:
  assumes inv: "call_inv c" and t: "at_time now c"
  shows "call_inv (fst (fire now c))" and "sentTime (fst (fire now c)) = sentTime c"
proof -
  have "call_inv (fst (fire now c)) \<and> sentTime (fst (fire now c)) = sentTime c"
  proof (cases "(\<exists>due. timeoutTimer c = Some due \<and> due \<le> now) \<and> pending c")
    case True
    define d where "d = c\<lparr>timeoutTimer := None\<rparr>"
    have d: "pending d" "at_time now d" "sentTime d = sentTime c" using True t by (auto simp: d_def pending_def at_time_def)
    have f: "fire now c = checkTimeout now d" using True by (auto simp: fire_def d_def)
    show ?thesis
    proof (cases "unat now < unat (sentTime c) + 10000")
      case True
      then show ?thesis using checkTimeout_pending(1) [OF d(1,2)] d(3) f by (auto simp: call_inv_def)
    next
      case False
      then show ?thesis using checkTimeout_pending(2) [OF d(1,2)] d(3) f
        by (simp add: call_inv_def pending_def updateState_def)
    qed
  next
    case False
    then have "fire now c = (c, []) \<or> (\<exists>d. d = c\<lparr>timeoutTimer := None\<rparr> \<and> fire now c = (d, []) \<and> \<not> pending d)"
      by (auto simp: fire_def checkTimeout_def pending_def split: option.splits)
    then show ?thesis using inv by (auto simp: call_inv_def)
  qed
  then show "call_inv (fst (fire now c))" "sentTime (fst (fire now c)) = sentTime c" by blast+
qed

lemma call_step_inv:
  assumes "call_step c c'" and "call_inv c"
  shows "call_inv c'"
  using assms(1)
proof (cases rule: call_step.cases)
  case (cs_fire now)
  then show ?thesis using fire_inv [OF assms(2)] by simp
next
  case cs_stall
  then show ?thesis using assms(2) by (auto simp: stall_def updateState_def call_inv_def pending_def)
next
  case (cs_responsed now m ev)
  then show ?thesis
    by (auto simp: responsed_def updateState_def call_inv_def pending_def Let_def split: msg_type.splits)
next
  case cs_cancel
  then show ?thesis by (simp add: call_cancel_def updateState_def call_inv_def pending_def)
qed

lemma sent_inv: "unat now + 10000 < 2 ^ 64 \<Longrightarrow> call_inv (fst (sent now c))"
  using unat_add_small [of now 2000] by (auto simp: call_inv_def sent_def updateState_def)

section \<open>Correctness\<close>

text \<open>
  After a call was sent it is watched until it is answered or canceled: while it is pending it has a timer, due not later
  than ten seconds after sending. When the timer runs earlier than that the call is marked as stalled and the timer is set
  to exactly ten seconds after sending; when it runs at that time or later, the call times out.
\<close>

theorem call_watched_until_timeout:
  assumes "call_step\<^sup>*\<^sup>* (fst (sent t0 c0)) c" and "unat t0 + 10000 < 2 ^ 64" and "pending c" and "at_time now c"
  shows "\<exists>t. timeoutTimer c = Some t \<and> unat t \<le> unat (sentTime c) + 10000 \<and>
    (t \<le> now \<longrightarrow>
      (if unat now < unat (sentTime c) + 10000
       then k_state (fst (fire now c)) = STALLED \<and> (\<exists>u. timeoutTimer (fst (fire now c)) = Some u \<and> unat u = unat (sentTime c) + 10000)
       else k_state (fst (fire now c)) = TIMEOUT))"
proof -
  have "call_inv c" using assms(1) by (induction rule: rtranclp_induct) (auto intro: sent_inv [OF assms(2)] call_step_inv)
  then obtain t where t: "timeoutTimer c = Some t" "unat t \<le> unat (sentTime c) + 10000" using assms(3) by (auto simp: call_inv_def)
  define d where "d = c\<lparr>timeoutTimer := None\<rparr>"
  have d: "pending d" "at_time now d" "sentTime d = sentTime c" using assms(3,4) by (auto simp: d_def pending_def at_time_def)
  have "t \<le> now \<Longrightarrow> fire now c = checkTimeout now d" using t by (simp add: fire_def d_def)
  then show ?thesis using t checkTimeout_pending [OF d(1,2)] d(3) by (auto simp: updateState_def)
qed

definition ping_call :: rpc_call where
  "ping_call = mk_call \<lparr>n_id = MAX_ID, n_addr = Inet 1 1, n_version = 0\<rparr> False \<lparr>m_txid = 0, m_version = 0, m_body = PingRequest\<rparr>"

theorem call_watched_until_timeout_witness:
  "let c = fst (sent 1000 ping_call) in
   \<exists>t. timeoutTimer c = Some t \<and> unat t \<le> unat (sentTime c) + 10000 \<and>
    (t \<le> 3500 \<longrightarrow>
      (if unat (3500 :: u64) < unat (sentTime c) + 10000
       then k_state (fst (fire 3500 c)) = STALLED \<and> (\<exists>u. timeoutTimer (fst (fire 3500 c)) = Some u \<and> unat u = unat (sentTime c) + 10000)
       else k_state (fst (fire 3500 c)) = TIMEOUT))"
  unfolding Let_def
  by (rule call_watched_until_timeout [OF rtranclp.rtrancl_refl]) (simp_all add: sent_def updateState_def pending_def at_time_def)

end
