(* ===== verification/Rpc_Server.thy ===== *)
theory Rpc_Server
  imports Rpc_Calls
begin

text \<open>
  The message server, \<^verbatim>\<open>src/core/rpcserver.cc\<close>: transaction identifiers, the table of pending calls, the
  matching of responses to calls, the queue of messages that wait for the socket. Sockets, encryption and the CBOR
  codec are the fields of a record \<open>env\<close>; what an operation reports to the DHT or to the owner of a call is
  a list of actions. The result of an operation that may throw has a flag that says whether it did: the state keeps
  the changes made before. \<^verbatim>\<open>nextTxid\<close> is a C++ \<^verbatim>\<open>int\<close>, kept as an integer: the
  steps of the server exclude its overflow, after two thousand million calls.
\<close>

datatype io_result = IoSent | IoAgain | IoError

record env =
  env_id :: id
  env_now :: u64
  env_dht6 :: bool \<comment> \<open>whether there is an IPv6 DHT\<close>
  env_sock4 :: bool \<comment> \<open>whether the sockets are open\<close>
  env_sock6 :: bool
  env_sendto :: "sockaddr \<Rightarrow> u8 list \<Rightarrow> io_result"
  env_encrypt :: "id \<Rightarrow> u8 list \<Rightarrow> u8 list"
  env_decrypt :: "id \<Rightarrow> u8 list \<Rightarrow> u8 list option" \<comment> \<open>\<open>None\<close>: an exception\<close>
  env_to_cbor :: "json \<Rightarrow> u8 list"
  env_from_cbor :: "u8 list \<Rightarrow> json option"
  env_crypto :: crypto
  env_addr_string :: "sockaddr \<Rightarrow> string" \<comment> \<open>\<^verbatim>\<open>SocketAddress::toString\<close>\<close>

record outgoing =
  om_msg :: message
  om_id :: id
  om_remoteId :: id
  om_remoteAddr :: sockaddr

datatype server_state = SERVER_INITIAL | SERVER_RUNNING | SERVER_STOPPED

record server =
  sv_state :: server_state
  sv_running :: bool
  nextTxid :: int
  calls :: "int \<rightharpoonup> rpc_call"
  isReachable :: bool
  messagesAtLastReachableCheck :: u64
  lastReachableCheck :: u64
  sv_startTime :: u64
  sv_receivedMessages :: u64
  messageQueue :: "outgoing list"
  sv_stats :: "rpc_stats option" \<comment> \<open>\<open>None\<close> once a counter was written out of bounds\<close>
  wire :: "(sockaddr \<times> u8 list) list" \<comment> \<open>the datagrams sent, the latest first\<close>

datatype action =
    DhtSend id \<comment> \<open>\<^verbatim>\<open>DHT::onSend\<close>\<close>
  | DhtTimeout id \<comment> \<open>\<^verbatim>\<open>DHT::onTimeout\<close>\<close>
  | DhtMessage received "rpc_call option" \<comment> \<open>\<^verbatim>\<open>DHT::onMessage\<close>, with the associated call\<close>
  | CallEvents rpc_call "call_event list" \<comment> \<open>the handlers of a call\<close>

type_synonym server_result = "server \<times> action list \<times> bool"

definition mk_server :: "int \<Rightarrow> server" where
  "mk_server txid =
     \<lparr>sv_state = SERVER_INITIAL, sv_running = False, nextTxid = txid, calls = Map.empty, isReachable = False,
      messagesAtLastReachableCheck = 0, lastReachableCheck = 0, sv_startTime = 0, sv_receivedMessages = 0, messageQueue = [],
      sv_stats = Some empty_stats, wire = []\<rparr>"

definition sv_start :: "u64 \<Rightarrow> server \<Rightarrow> server" where
  "sv_start now sv =
     (if sv_state sv \<noteq> SERVER_INITIAL then sv
      else sv\<lparr>sv_running := True, sv_state := SERVER_RUNNING, sv_startTime := now\<rparr>)"

definition sv_stop :: "server \<Rightarrow> server" where
  "sv_stop sv =
     (if sv_state sv = SERVER_STOPPED then sv else sv\<lparr>sv_state := SERVER_STOPPED, sv_running := False\<rparr>)"

definition updateReachability :: "u64 \<Rightarrow> server \<Rightarrow> server" where
  "updateReachability now sv =
     (if sv_receivedMessages sv \<noteq> messagesAtLastReachableCheck sv
      then sv\<lparr>isReachable := True, lastReachableCheck := now, messagesAtLastReachableCheck := sv_receivedMessages sv\<rparr>
      else if now - lastReachableCheck sv > word_of_int RPC_SERVER_REACHABILITY_TIMEOUT then sv\<lparr>isReachable := False\<rparr>
      else sv)"

section \<open>Sending\<close>

definition datagram :: "env \<Rightarrow> outgoing \<Rightarrow> u8 list" where
  "datagram E om = bytes (om_id om) @ env_encrypt E (om_remoteId om) (env_to_cbor E (serialize (om_msg om)))"

text \<open>
  The result says whether \<^verbatim>\<open>sendData\<close> threw. That \<^verbatim>\<open>Node::encrypt\<close> throws because libsodium refuses the key of the
  receiver is not modelled here: \<open>env_encrypt\<close> is total (\<open>Crypto_Wrappers\<close> has the exceptions of the boxes).
\<close>

definition sendData :: "env \<Rightarrow> outgoing \<Rightarrow> server \<Rightarrow> server \<times> bool" where
  "sendData E om sv =
     (let addr = om_remoteAddr om in
      if sa_empty addr then (sv, True)
      else if \<not> (if sa_family_of addr = AF_INET then env_sock4 E else env_sock6 E) then (sv, True)
      else let buffer = datagram E om in
           case env_sendto E addr buffer of
             IoAgain \<Rightarrow> (sv\<lparr>messageQueue := messageQueue sv @ [om]\<rparr>, False)
           | IoError \<Rightarrow> (sv, False)
           | IoSent \<Rightarrow>
               (sv\<lparr>wire := (addr, buffer) # wire sv,
                   sv_stats := Option.bind (sv_stats sv) (\<lambda>s. onSentMessage (m_body (om_msg om)) (onSentBytes (of_nat (length buffer)) s))\<rparr>,
                False))"

definition node_version :: int where
  "node_version = version_build ''MK'' 1"

text \<open>\<^verbatim>\<open>sendMessage\<close> for a message without an associated call.\<close>

definition sendMessage :: "env \<Rightarrow> message \<Rightarrow> id \<Rightarrow> sockaddr \<Rightarrow> server \<Rightarrow> server_result" where
  "sendMessage E m remoteId remoteAddr sv =
     (let (sv, thrown) = sendData E \<lparr>om_msg = m\<lparr>m_version := node_version\<rparr>, om_id = env_id E, om_remoteId = remoteId,
                                    om_remoteAddr = remoteAddr\<rparr> sv
      in (sv, [], thrown))"

text \<open>\<^verbatim>\<open>dispatchCall\<close> and \<^verbatim>\<open>sendMessage\<close> for the request of a call, which is already in the table under \<open>txid\<close>.\<close>

definition dispatchCall :: "env \<Rightarrow> int \<Rightarrow> rpc_call \<Rightarrow> server \<Rightarrow> server_result" where
  "dispatchCall E txid c sv =
     (let c = c\<lparr>k_request := (k_request c)\<lparr>m_version := node_version\<rparr>\<rparr>;
          (c, ev) = sent (env_now E) c;
          sv = sv\<lparr>calls := (calls sv)(txid \<mapsto> c)\<rparr>;
          (sv, thrown) = sendData E \<lparr>om_msg = k_request c, om_id = env_id E, om_remoteId = n_id (k_target c),
                                    om_remoteAddr = k_remote c\<rparr> sv
      in (sv, [DhtSend (n_id (k_target c)), CallEvents c ev], thrown))"

definition sendCall :: "env \<Rightarrow> rpc_call \<Rightarrow> server \<Rightarrow> server_result" where
  "sendCall E c sv =
     (let txid = nextTxid sv;
          sv = sv\<lparr>nextTxid := nextTxid sv + 1\<rparr>;
          (txid, sv) = (if txid = 0 then (nextTxid sv, sv\<lparr>nextTxid := nextTxid sv + 1\<rparr>) else (txid, sv))
      in if calls sv txid \<noteq> None then (sv, [], True)
         else let c = c\<lparr>k_request := (k_request c)\<lparr>m_txid := txid\<rparr>\<rparr>
              in dispatchCall E txid c (sv\<lparr>calls := (calls sv)(txid \<mapsto> c)\<rparr>))"

definition ProtocolError :: int where "ProtocolError = 203"

definition sendError :: "env \<Rightarrow> received \<Rightarrow> int \<Rightarrow> string \<Rightarrow> server \<Rightarrow> server_result" where
  "sendError E m code err sv =
     sendMessage E \<lparr>m_txid = m_txid (rm_msg m), m_version = 0, m_body = ErrorMessage (body_method (m_body (rm_msg m))) code err\<rparr>
       (rm_id m) (rm_origin m) sv"

section \<open>Receiving\<close>

text \<open>Sequencing: nothing follows after an exception.\<close>

definition then_do :: "server_result \<Rightarrow> (server \<Rightarrow> server_result) \<Rightarrow> server_result" where
  "then_do r f =
     (let (sv, acts, thrown) = r in
      if thrown then r else let (sv', acts', thrown') = f sv in (sv', acts @ acts', thrown'))"

text \<open>The part of \<^verbatim>\<open>handlePacket\<close> after the message was parsed.\<close>

definition mismatchText :: "env \<Rightarrow> rpc_call \<Rightarrow> received \<Rightarrow> string" where
  "mismatchText E c m =
     ''A request was sent to '' @ env_addr_string E (k_remote c) @
     '' and a response with matching transaction id was received from '' @ env_addr_string E (rm_origin m) @
     '' . Multihomed nodes should ensure that sockets are properly bound and responses are sent with the correct source socket address. See BEPs 32 and 45.''"

text \<open>
  \<^verbatim>\<open>call->responsed\<close> runs the handlers of the call before \<^verbatim>\<open>handleMessage\<close>; here they are the first of the reported actions, in that order. The
  handlers belong to the tasks and jobs, which have their own models.
\<close>

definition matchResponse :: "env \<Rightarrow> received \<Rightarrow> server \<Rightarrow> server_result" where
  "matchResponse E m sv =
     (let type = body_type (m_body (rm_msg m)); txid = m_txid (rm_msg m) in
      if type = REQUEST then (sv, [DhtMessage m None], False)
      else case calls sv txid of
        Some c \<Rightarrow>
          if sa_eq (k_remote c) (rm_origin m)
          then let sv = sv\<lparr>calls := (calls sv)(txid := None)\<rparr> in
               (case responsed (env_now E) m c of
                  Some (c, ev) \<Rightarrow> (sv, [CallEvents c ev, DhtMessage m (Some c)], False)
                | None \<Rightarrow> (sv, [], True))
          else then_do
                 (if type = RESPONSE \<and> env_dht6 E
                  then sendMessage E \<lparr>m_txid = txid, m_version = 0, m_body = ErrorMessage (body_method (m_body (rm_msg m))) ProtocolError (mismatchText E c m)\<rparr>
                         (rm_id m) (k_remote c) sv
                  else (sv, [], False))
                 (\<lambda>sv. let (c, ev) = stall c in (sv\<lparr>calls := (calls sv)(txid \<mapsto> c)\<rparr>, [CallEvents c ev], False))
      | None \<Rightarrow>
          if type = RESPONSE \<and> env_now E - sv_startTime sv > 2 * 60 * 1000
          then sendError E m ProtocolError ''Received a response message whose transaction ID did not match a pending request or transaction expired'' sv
          else if type = ERR then (sv, [DhtMessage m None], False)
          else (sv, [], False))"

text \<open>
  \<^verbatim>\<open>handlePacket\<close>. A packet shorter than an identifier makes the length of the rest wrap around: undefined
  behaviour, \<open>None\<close>.
\<close>

definition handlePacket :: "env \<Rightarrow> u8 list \<Rightarrow> sockaddr \<Rightarrow> server \<Rightarrow> server_result option" where
  "handlePacket E buf from sv =
     (if length buf < ID_BYTES then None
      else
        let sender = the (id_of_blob (take ID_BYTES buf));
            dropped = sv\<lparr>sv_stats := map_option (onDroppedPacket (of_nat (length buf))) (sv_stats sv)\<rparr>
        in case env_decrypt E sender (drop ID_BYTES buf) of
             None \<Rightarrow> Some (dropped, [], False)
           | Some buffer \<Rightarrow>
               (case Option.bind (env_from_cbor E buffer) (parse (env_crypto E)) of
                  None \<Rightarrow> Some (dropped, [], False)
                | Some msg \<Rightarrow>
                    let m = \<lparr>rm_id = sender, rm_origin = from, rm_msg = msg\<rparr>;
                        sv = sv\<lparr>sv_receivedMessages := sv_receivedMessages sv + 1,
                                sv_stats := Option.bind (sv_stats sv)
                                  (\<lambda>s. onReceivedMessage (m_body msg) (onReceivedBytes (of_nat (length buf)) s))\<rparr>
                    in Some (then_do
                         (if body_type (m_body msg) \<noteq> ERR \<and> m_txid msg = 0
                          then sendError E m ProtocolError ''Received a message with an invalid transaction id, expected a non-zero transaction id'' sv else (sv, [], False))
                         (matchResponse E m))))"

text \<open>The scheduler runs the timer of a pending call.\<close>

definition callTimer :: "env \<Rightarrow> int \<Rightarrow> server \<Rightarrow> server_result" where
  "callTimer E txid sv =
     (case calls sv txid of
        None \<Rightarrow> (sv, [], False)
      | Some c \<Rightarrow>
          let (c, ev) = fire (env_now E) c in
          if TimeoutEvent \<in> set ev
          then (sv\<lparr>calls := (calls sv)(txid := None), sv_stats := Option.bind (sv_stats sv) (onTimeoutMessage (m_body (k_request c)))\<rparr>,
                [CallEvents c ev, DhtTimeout (n_id (k_target c))], False)
          else (sv\<lparr>calls := (calls sv)(txid \<mapsto> c)\<rparr>, [CallEvents c ev], False))"

text \<open>The loop of \<^verbatim>\<open>periodic\<close> over the waiting messages, with fuel: \<open>None\<close> when the fuel is used up.\<close>

fun flushQueue :: "nat \<Rightarrow> env \<Rightarrow> server \<Rightarrow> (server \<times> bool) option" where
  "flushQueue 0 E sv = (if messageQueue sv = [] then Some (sv, False) else None)"
| "flushQueue (Suc n) E sv =
     (case messageQueue sv of
        [] \<Rightarrow> Some (sv, False)
      | om # q \<Rightarrow>
          let (sv, thrown) = sendData E om (sv\<lparr>messageQueue := q\<rparr>) in
          if thrown then Some (sv, True) else flushQueue n E sv)"

section \<open>Pending calls\<close>

lemma sendData_frame:
  assumes "sendData E om sv = (sv', thrown)"
  shows "calls sv' = calls sv" "nextTxid sv' = nextTxid sv" "sv_startTime sv' = sv_startTime sv" "sv_state sv' = sv_state sv"
  using assms by (auto simp: sendData_def Let_def split: if_splits io_result.splits)

lemma sendMessage_frame:
  assumes "sendMessage E m i a sv = (sv', acts, thrown)"
  shows "calls sv' = calls sv" "nextTxid sv' = nextTxid sv" "acts = []"
  using assms sendData_frame by (fastforce simp: sendMessage_def Let_def split: prod.splits)+

lemma sendError_frame:
  assumes "sendError E m code err sv = (sv', acts, thrown)"
  shows "calls sv' = calls sv" "nextTxid sv' = nextTxid sv" "acts = []"
  using sendMessage_frame [OF assms [unfolded sendError_def]] by simp_all

text \<open>
  What holds of the table of calls: identifiers are positive and below the next one, so none is used twice; every call
  in the table is pending, has a timer, and was sent to the address of its target.
\<close>

definition calls_ok :: "server \<Rightarrow> bool" where
  "calls_ok sv \<longleftrightarrow> 1 \<le> nextTxid sv \<and>
     (\<forall>txid c. calls sv txid = Some c \<longrightarrow> 1 \<le> txid \<and> txid < nextTxid sv \<and> m_txid (k_request c) = txid \<and> pending c \<and> call_inv c \<and>
        k_remote c = n_addr (k_target c))"

lemma calls_ok_frame: "calls_ok sv \<Longrightarrow> calls sv' = calls sv \<Longrightarrow> nextTxid sv' = nextTxid sv \<Longrightarrow> calls_ok sv'"
  by (simp add: calls_ok_def)

lemma calls_ok_erase: "calls_ok sv \<Longrightarrow> calls sv' = (calls sv)(t := None) \<Longrightarrow> nextTxid sv' = nextTxid sv \<Longrightarrow> calls_ok sv'"
  by (auto simp: calls_ok_def)

lemma calls_ok_update:
  assumes "calls_ok sv" and "calls sv t = Some c" and "calls sv' = (calls sv)(t \<mapsto> c')" and "nextTxid sv' = nextTxid sv"
    and "pending c'" and "call_inv c'" and "k_request c' = k_request c" and "k_remote c' = k_remote c" and "k_target c' = k_target c"
  shows "calls_ok sv'"
  using assms by (auto simp: calls_ok_def)

lemma sendCall_ok:
  assumes ok: "calls_ok sv" and now: "unat (env_now E) + 10000 < 2 ^ 64" and c: "k_remote c = n_addr (k_target c)"
    and s: "sendCall E c sv = (sv', acts, thrown)"
  obtains c' where "calls_ok sv'" "nextTxid sv' = nextTxid sv + 1" "calls sv (nextTxid sv) = None"
    "calls sv' = (calls sv)(nextTxid sv \<mapsto> c')" "k_target c' = k_target c" "k_state c' = SENT"
proof -
  have nz: "nextTxid sv \<noteq> 0" "calls sv (nextTxid sv) = None"
    using ok by (auto simp: calls_ok_def) (metis less_irrefl not_None_eq)
  define c1 where "c1 = c\<lparr>k_request := (k_request c)\<lparr>m_txid := nextTxid sv\<rparr>\<rparr>"
  define c2 where "c2 = c1\<lparr>k_request := (k_request c1)\<lparr>m_version := node_version\<rparr>\<rparr>"
  define c' where "c' = fst (sent (env_now E) c2)"
  have fields: "k_state c' = SENT" "m_txid (k_request c') = nextTxid sv" "k_remote c' = k_remote c" "k_target c' = k_target c"
    by (simp_all add: c'_def c2_def c1_def sent_def updateState_def)
  have calls': "calls sv' = (calls sv)(nextTxid sv \<mapsto> c')" "nextTxid sv' = nextTxid sv + 1"
    using s nz sendData_frame
    by (auto simp: sendCall_def dispatchCall_def Let_def c'_def c2_def c1_def split: prod.splits)
  have "call_inv c'" unfolding c'_def by (rule sent_inv [OF now])
  then have "calls_ok sv'" using ok calls' fields c by (auto simp: calls_ok_def pending_def split: if_splits) fastforce
  then show ?thesis using that calls' nz fields by blast
qed

lemma fire_frame:
  "k_request (fst (fire now c)) = k_request c" "k_remote (fst (fire now c)) = k_remote c" "k_target (fst (fire now c)) = k_target c"
  by (auto simp: fire_def checkTimeout_def updateState_def Let_def split: option.splits)

lemma fire_pending:
  assumes "pending c" and "TimeoutEvent \<notin> set (snd (fire now c))"
  shows "pending (fst (fire now c))"
  using assms by (auto simp: fire_def checkTimeout_def updateState_def pending_def Let_def split: option.splits if_splits)

lemma callTimer_ok:
  assumes ok: "calls_ok sv" and t: "\<forall>c \<in> ran (calls sv). at_time (env_now E) c" and s: "callTimer E txid sv = (sv', acts, thrown)"
  shows "calls_ok sv'"
proof (cases "calls sv txid")
  case None
  then show ?thesis using s ok by (simp add: callTimer_def)
next
  case (Some c)
  then have c: "pending c" "call_inv c" "at_time (env_now E) c" using ok t by (auto simp: calls_ok_def ran_def)
  show ?thesis
  proof (cases "TimeoutEvent \<in> set (snd (fire (env_now E) c))")
    case True
    then have "calls sv' = (calls sv)(txid := None)" "nextTxid sv' = nextTxid sv"
      using s Some by (auto simp: callTimer_def Let_def split: prod.splits)
    then show ?thesis by (rule calls_ok_erase [OF ok])
  next
    case False
    then have "calls sv' = (calls sv)(txid \<mapsto> fst (fire (env_now E) c))" "nextTxid sv' = nextTxid sv"
      using s Some by (auto simp: callTimer_def Let_def split: prod.splits)
    then show ?thesis using calls_ok_update [OF ok Some] fire_pending [OF c(1) False] fire_inv(1) [OF c(2,3)] fire_frame by metis
  qed
qed

lemma stall_frame:
  "k_request (fst (stall c)) = k_request c" "k_remote (fst (stall c)) = k_remote c" "k_target (fst (stall c)) = k_target c"
  "pending c \<Longrightarrow> pending (fst (stall c))" "call_inv c \<Longrightarrow> call_inv (fst (stall c))"
  by (auto simp: stall_def updateState_def pending_def call_inv_def)

section \<open>Matching responses\<close>

text \<open>The effect of a message on the table and what is reported, by the kind of message.\<close>

lemma match_cases:
  assumes "matchResponse E m sv = (sv', acts, thrown)"
  obtains (request) "body_type (m_body (rm_msg m)) = REQUEST" "sv' = sv" "acts = [DhtMessage m None]"
  | (matched) c c' ev where "body_type (m_body (rm_msg m)) \<noteq> REQUEST" "calls sv (m_txid (rm_msg m)) = Some c" "k_remote c = rm_origin m"
      "calls sv' = (calls sv)(m_txid (rm_msg m) := None)" "nextTxid sv' = nextTxid sv" "responsed (env_now E) m c = Some (c', ev)"
      "acts = [CallEvents c' ev, DhtMessage m (Some c')]" "\<not> thrown"
  | (mismatch) c where "body_type (m_body (rm_msg m)) \<noteq> REQUEST" "calls sv (m_txid (rm_msg m)) = Some c" "k_remote c \<noteq> rm_origin m"
      "nextTxid sv' = nextTxid sv" "thrown \<and> calls sv' = calls sv \<and> acts = [] \<or>
        \<not> thrown \<and> calls sv' = (calls sv)(m_txid (rm_msg m) \<mapsto> fst (stall c)) \<and> acts = [CallEvents (fst (stall c)) (snd (stall c))]"
  | (unknown) "body_type (m_body (rm_msg m)) \<noteq> REQUEST" "calls sv (m_txid (rm_msg m)) = None" "calls sv' = calls sv" "nextTxid sv' = nextTxid sv"
      "acts = (if body_type (m_body (rm_msg m)) = ERR then [DhtMessage m None] else [])"
proof (cases "body_type (m_body (rm_msg m)) = REQUEST")
  case True
  then have "sv' = sv" "acts = [DhtMessage m None]" using assms by (simp_all add: matchResponse_def Let_def)
  with True show ?thesis by (rule request)
next
  case nr: False
  show ?thesis
  proof (cases "calls sv (m_txid (rm_msg m))")
    case None
    show ?thesis
    proof (cases "body_type (m_body (rm_msg m)) = ERR")
      case True
      then have "sv' = sv" "acts = [DhtMessage m None]" using nr None assms by (simp_all add: matchResponse_def Let_def)
      then show ?thesis using True by (intro unknown [OF nr None]) simp_all
    next
      case False
      then have "body_type (m_body (rm_msg m)) = RESPONSE" using nr by (cases "body_type (m_body (rm_msg m))") auto
      then have "(sv', acts, thrown) = (if env_now E - sv_startTime sv > 2 * 60 * 1000 then sendError E m ProtocolError
          ''Received a response message whose transaction ID did not match a pending request or transaction expired'' sv
          else (sv, [], False))"
        using None assms by (auto simp: matchResponse_def Let_def split: if_splits)
      then have "calls sv' = calls sv" "nextTxid sv' = nextTxid sv" "acts = []"
        by (simp_all split: if_splits) (metis sendError_frame)+
      then show ?thesis using False by (intro unknown [OF nr None]) simp_all
    qed
  next
    case (Some c)
    show ?thesis
    proof (cases "k_remote c = rm_origin m")
      case True
      obtain c' ev where r: "responsed (env_now E) m c = Some (c', ev)"
        using nr by (cases "body_type (m_body (rm_msg m))") (auto simp: responsed_def updateState_def Let_def)
      then have "sv' = sv\<lparr>calls := (calls sv)(m_txid (rm_msg m) := None)\<rparr>" "acts = [CallEvents c' ev, DhtMessage m (Some c')]" "\<not> thrown"
        using nr Some True assms by (simp_all add: matchResponse_def Let_def sa_eq_iff)
      then show ?thesis using r by (intro matched [OF nr Some True]) simp_all
    next
      case False
      define r where "r = (if body_type (m_body (rm_msg m)) = RESPONSE \<and> env_dht6 E
        then sendMessage E \<lparr>m_txid = m_txid (rm_msg m), m_version = 0,
               m_body = ErrorMessage (body_method (m_body (rm_msg m))) ProtocolError (mismatchText E c m)\<rparr> (rm_id m) (k_remote c) sv
        else (sv, [], False))"
      obtain sv1 a1 th1 where r1: "r = (sv1, a1, th1)" by (cases r)
      have fr: "calls sv1 = calls sv" "nextTxid sv1 = nextTxid sv" "a1 = []"
        using r1 sendMessage_frame by (auto simp: r_def split: if_splits)
      have "(sv', acts, thrown) = then_do (sv1, a1, th1)
          (\<lambda>sv. let (c, ev) = stall c in (sv\<lparr>calls := (calls sv)(m_txid (rm_msg m) \<mapsto> c)\<rparr>, [CallEvents c ev], False))"
        using nr Some False assms r1 [symmetric] by (simp add: matchResponse_def Let_def sa_eq_iff r_def)
      then have "nextTxid sv' = nextTxid sv" "thrown \<and> calls sv' = calls sv \<and> acts = [] \<or>
        \<not> thrown \<and> calls sv' = (calls sv)(m_txid (rm_msg m) \<mapsto> fst (stall c)) \<and> acts = [CallEvents (fst (stall c)) (snd (stall c))]"
        using fr by (auto simp: then_do_def Let_def split: if_splits prod.splits)
      then show ?thesis by (rule mismatch [OF nr Some False])
    qed
  qed
qed

lemma match_ok:
  assumes ok: "calls_ok sv" and m: "matchResponse E m sv = (sv', acts, thrown)"
  shows "calls_ok sv'"
  using m
proof (cases rule: match_cases)
  case (mismatch c)
  then have "pending c" "call_inv c" using ok by (auto simp: calls_ok_def)
  then show ?thesis using mismatch calls_ok_update [OF ok mismatch(2)] stall_frame calls_ok_frame [OF ok] by metis
qed (use ok in \<open>auto intro: calls_ok_erase calls_ok_frame\<close>)

text \<open>A packet that is decoded is counted and matched; another one only counts as dropped.\<close>

lemma handlePacket_cases:
  assumes "handlePacket E buf from sv = Some (sv', acts, thrown)"
  obtains (dropped) "calls sv' = calls sv" "nextTxid sv' = nextTxid sv" "acts = []" "\<not> thrown"
  | (failed) "calls sv' = calls sv" "nextTxid sv' = nextTxid sv" "acts = []" "thrown"
  | (handled) sv1 m where "calls sv1 = calls sv" "nextTxid sv1 = nextTxid sv" "rm_origin m = from"
      "rm_id m = the (id_of_blob (take ID_BYTES buf))" "matchResponse E m sv1 = (sv', acts, thrown)"
proof -
  have len: "\<not> length buf < ID_BYTES" using assms by (auto simp: handlePacket_def)
  define sender where "sender = the (id_of_blob (take ID_BYTES buf))"
  show ?thesis
  proof (cases "Option.bind (Option.bind (env_decrypt E sender (drop ID_BYTES buf)) (env_from_cbor E)) (parse (env_crypto E))")
    case None
    then have "sv' = sv\<lparr>sv_stats := map_option (onDroppedPacket (of_nat (length buf))) (sv_stats sv)\<rparr> \<and> acts = [] \<and> \<not> thrown"
      using assms len by (auto simp: handlePacket_def Let_def sender_def [symmetric] split: option.splits bind_splits)
    then show ?thesis using dropped by simp
  next
    case (Some msg)
    define m where "m = \<lparr>rm_id = sender, rm_origin = from, rm_msg = msg\<rparr>"
    define sv0 where "sv0 = sv\<lparr>sv_receivedMessages := sv_receivedMessages sv + 1,
       sv_stats := Option.bind (sv_stats sv) (\<lambda>s. onReceivedMessage (m_body msg) (onReceivedBytes (of_nat (length buf)) s))\<rparr>"
    define r where "r = (if body_type (m_body msg) \<noteq> ERR \<and> m_txid msg = 0 then sendError E m ProtocolError
       ''Received a message with an invalid transaction id, expected a non-zero transaction id'' sv0 else (sv0, [], False))"
    obtain sv1 a1 th1 where r1: "r = (sv1, a1, th1)" by (cases r)
    have fr: "calls sv1 = calls sv" "nextTxid sv1 = nextTxid sv" "a1 = []"
      using r1 sendError_frame by (auto simp: r_def sv0_def split: if_splits)
    have eq: "(sv', acts, thrown) = then_do (sv1, a1, th1) (matchResponse E m)"
      using Some assms len r1 [symmetric]
      by (auto simp: handlePacket_def Let_def sender_def [symmetric] m_def sv0_def r_def split: bind_splits option.splits)
    show ?thesis
    proof (cases th1)
      case True
      then show ?thesis using eq fr failed by (simp add: then_do_def)
    next
      case False
      then have "matchResponse E m sv1 = (sv', acts, thrown)" using eq fr by (simp add: then_do_def split: prod.splits)
      then show ?thesis using fr by (intro handled) (simp_all add: m_def sender_def)
    qed
  qed
qed

lemma handlePacket_ok:
  assumes ok: "calls_ok sv" and p: "handlePacket E buf from sv = Some (sv', acts, thrown)"
  shows "calls_ok sv'"
  using p
proof (cases rule: handlePacket_cases)
  case (handled sv1 m)
  then show ?thesis using match_ok [OF calls_ok_frame [OF ok handled(1,2)] handled(5)] by simp
qed (use ok calls_ok_frame in blast)+

lemma flushQueue_frame:
  "flushQueue n E sv = Some (sv', thrown) \<Longrightarrow> calls sv' = calls sv \<and> nextTxid sv' = nextTxid sv"
proof (induction n arbitrary: sv)
  case (Suc n)
  show ?case
  proof (cases "messageQueue sv")
    case (Cons om q)
    obtain sv1 th where s: "sendData E om (sv\<lparr>messageQueue := q\<rparr>) = (sv1, th)" by fastforce
    then show ?thesis using Suc Cons sendData_frame [OF s] by (auto split: if_splits)
  qed (use Suc.prems in simp)
qed (simp split: if_splits)

text \<open>All the ways the table of calls changes.\<close>

inductive server_step :: "server \<Rightarrow> server \<Rightarrow> bool" where
  sv_call: "unat (env_now E) + 10000 < 2 ^ 64 \<Longrightarrow> nextTxid sv < 2 ^ 31 - 1 \<Longrightarrow> sendCall E (mk_call target known request) sv = (sv', acts, thrown) \<Longrightarrow> server_step sv sv'"
| sv_packet: "handlePacket E buf from sv = Some (sv', acts, thrown) \<Longrightarrow> server_step sv sv'"
| sv_timer: "\<forall>c \<in> ran (calls sv). at_time (env_now E) c \<Longrightarrow> callTimer E txid sv = (sv', acts, thrown) \<Longrightarrow> server_step sv sv'"
| sv_flush: "flushQueue n E sv = Some (sv', thrown) \<Longrightarrow> server_step sv sv'"
| sv_reach: "server_step sv (updateReachability now sv)"
| sv_starts: "server_step sv (sv_start now sv)"
| sv_stops: "server_step sv (sv_stop sv)"

lemma server_step_ok:
  assumes "server_step sv sv'" and ok: "calls_ok sv"
  shows "calls_ok sv'"
  using assms(1)
proof (cases rule: server_step.cases)
  case (sv_call E target known request acts thrown)
  have "k_remote (mk_call target known request) = n_addr (k_target (mk_call target known request))" by (simp add: mk_call_def)
  then show ?thesis using sendCall_ok [OF ok sv_call(1) _ sv_call(3)] by blast
next
  case (sv_flush n E thrown)
  then show ?thesis using flushQueue_frame calls_ok_frame [OF ok] by blast
next
  case (sv_packet E buf src acts thrown)
  then show ?thesis using handlePacket_ok [OF ok] by blast
next
  case (sv_timer E txid acts thrown)
  then show ?thesis using callTimer_ok [OF ok] by blast
next
  case (sv_reach now)
  then show ?thesis by (intro calls_ok_frame [OF ok]) (simp_all add: updateReachability_def)
next
  case (sv_starts now)
  then show ?thesis by (intro calls_ok_frame [OF ok]) (simp_all add: sv_start_def)
next
  case sv_stops
  then show ?thesis by (intro calls_ok_frame [OF ok]) (simp_all add: sv_stop_def)
qed

lemma server_reachable_ok:
  "server_step\<^sup>*\<^sup>* (mk_server t0) sv \<Longrightarrow> 1 \<le> t0 \<Longrightarrow> calls_ok sv"
proof (induction rule: rtranclp_induct)
  case base
  then show ?case by (simp add: calls_ok_def mk_server_def)
qed (rule server_step_ok)

section \<open>Correctness\<close>

text \<open>
  C13: in every state the server reaches, each entry of the table of calls is a pending call stored under the transaction
  identifier of its request and watched by a timer due within ten seconds of sending; identifiers are positive and
  smaller than the next one. So sending a call never meets an identifier in use, never replaces a pending call, and adds
  exactly the new one.
\<close>

theorem calls_watched_and_unique:
  assumes "server_step\<^sup>*\<^sup>* (mk_server t0) sv" and "1 \<le> t0" and "unat (env_now E) + 10000 < 2 ^ 64"
    and "nextTxid sv < 2 ^ 31 - 1" and "sendCall E (mk_call target known request) sv = (sv', acts, thrown)"
  shows "(\<forall>txid c. calls sv txid = Some c \<longrightarrow> 1 \<le> txid \<and> txid < nextTxid sv \<and> m_txid (k_request c) = txid \<and> pending c \<and>
      (\<exists>t. timeoutTimer c = Some t \<and> unat t \<le> unat (sentTime c) + 10000)) \<and>
    calls sv (nextTxid sv) = None \<and> (\<exists>c'. calls sv' = (calls sv)(nextTxid sv \<mapsto> c') \<and> k_target c' = target \<and> k_state c' = SENT)"
proof -
  note ok = server_reachable_ok [OF assms(1,2)]
  have r: "k_remote (mk_call target known request) = n_addr (k_target (mk_call target known request))" by (simp add: mk_call_def)
  obtain c' where "calls sv (nextTxid sv) = None" "calls sv' = (calls sv)(nextTxid sv \<mapsto> c')" "k_target c' = target" "k_state c' = SENT"
    using sendCall_ok [OF ok assms(3) r assms(5)] by (auto simp: mk_call_def)
  then show ?thesis using ok by (fastforce simp: calls_ok_def call_inv_def)
qed

definition silent_env :: env where
  "silent_env =
     \<lparr>env_id = zero_id, env_now = 5000, env_dht6 = False, env_sock4 = True, env_sock6 = False, env_sendto = (\<lambda>_ _. IoSent),
      env_encrypt = (\<lambda>_ d. d), env_decrypt = (\<lambda>_ d. Some d), env_to_cbor = (\<lambda>_. [0]), env_from_cbor = (\<lambda>_. None),
      env_crypto = plain_crypto, env_addr_string = (\<lambda>_. [])\<rparr>"

theorem calls_watched_and_unique_witness:
  "\<exists>sv' acts thrown. sendCall silent_env (mk_call \<lparr>n_id = MAX_ID, n_addr = Inet 1 1, n_version = 0\<rparr> False
      \<lparr>m_txid = 0, m_version = 0, m_body = PingRequest\<rparr>) (mk_server 7) = (sv', acts, thrown) \<and>
    calls (mk_server 7) (nextTxid (mk_server 7)) = None \<and>
    (\<exists>c'. calls sv' = (calls (mk_server 7))(nextTxid (mk_server 7) \<mapsto> c') \<and> k_state c' = SENT)"
proof -
  obtain sv' acts thrown where s: "sendCall silent_env (mk_call \<lparr>n_id = MAX_ID, n_addr = Inet 1 1, n_version = 0\<rparr> False
      \<lparr>m_txid = 0, m_version = 0, m_body = PingRequest\<rparr>) (mk_server 7) = (sv', acts, thrown)" by (metis prod_cases3)
  have "(1 :: int) \<le> 7" "unat (env_now silent_env) + 10000 < 2 ^ 64" "nextTxid (mk_server 7) < 2 ^ 31 - 1"
    by (simp_all add: silent_env_def mk_server_def)
  from calls_watched_and_unique [OF rtranclp.rtrancl_refl this s] show ?thesis using s by blast
qed

text \<open>
  C14: only an answer to a pending call gets through. When a packet makes the server report a message with an associated
  call, there was a pending call with the transaction identifier of the message that had been sent to the address the
  packet comes from, and it is taken out of the table; a response without such a call is never handed to the DHT; and no
  packet changes another entry of the table. The addresses are compared with their ports: a comment in \<^verbatim>\<open>handlePacket\<close> says that only the IP
  address is checked, but \<^verbatim>\<open>operator==\<close> of \<^verbatim>\<open>SocketAddress\<close> compares the port too, and an answer from another port is not a response.
\<close>

theorem responses_matched:
  assumes p: "handlePacket E buf from sv = Some (sv', acts, thrown)"
  shows "(\<forall>m c. DhtMessage m (Some c) \<in> set acts \<longrightarrow> rm_origin m = from \<and>
      (\<exists>c0. calls sv (m_txid (rm_msg m)) = Some c0 \<and> k_remote c0 = from \<and> k_target c = k_target c0) \<and>
      calls sv' = (calls sv)(m_txid (rm_msg m) := None)) \<and>
    (\<forall>m. DhtMessage m None \<in> set acts \<longrightarrow> body_type (m_body (rm_msg m)) \<noteq> RESPONSE \<and> calls sv' = calls sv) \<and>
    (\<exists>txid. \<forall>t. t \<noteq> txid \<longrightarrow> calls sv' t = calls sv t)"
  using p
proof (cases rule: handlePacket_cases)
  case (handled sv1 m)
  from handled(5) show ?thesis
  proof (cases rule: match_cases)
    case (matched c c' ev)
    then have "k_target c' = k_target c"
      by (auto simp: responsed_def updateState_def Let_def split: msg_type.splits)
    then show ?thesis using matched handled by auto
  next
    case (mismatch c)
    then show ?thesis using handled by (auto split: if_splits)
  next
    case unknown
    then show ?thesis using handled by auto
  qed (use handled in auto)
qed auto

text \<open>A codec and a network that work on any message.\<close>

definition echo_env :: "json \<Rightarrow> env" where
  "echo_env j = silent_env\<lparr>env_from_cbor := (\<lambda>_. Some j)\<rparr>"

definition pong :: message where
  "pong = \<lparr>m_txid = 7, m_version = 0, m_body = PingResponse\<rparr>"

definition asked :: server where
  "asked = (mk_server 8)\<lparr>calls := [7 \<mapsto> fst (sent 4000 ping_call)]\<rparr>"

lemma pong_wf: "wf_message C pong"
  by (simp add: wf_message_def pong_def int32_def)

lemma pong_handled:
  "handlePacket (echo_env (serialize pong)) (bytes MAX_ID) (Inet 1 1) asked =
     Some (matchResponse (echo_env (serialize pong)) \<lparr>rm_id = MAX_ID, rm_origin = Inet 1 1, rm_msg = pong\<rparr>
       (asked\<lparr>sv_receivedMessages := sv_receivedMessages asked + 1,
         sv_stats := Option.bind (sv_stats asked) (\<lambda>s. onReceivedMessage PingResponse (onReceivedBytes 32 s))\<rparr>))"
  using parse_serialize_body [OF pong_wf]
  by (simp add: handlePacket_def echo_env_def silent_env_def then_do_def pong_def Let_def split: prod.splits)

theorem responses_matched_witness:
  "\<exists>sv' acts thrown. handlePacket (echo_env (serialize pong)) (bytes MAX_ID) (Inet 1 1) asked = Some (sv', acts, thrown) \<and>
    (\<exists>m c. DhtMessage m (Some c) \<in> set acts \<and> calls sv' = (calls asked)(m_txid (rm_msg m) := None))"
proof -
  obtain sv' acts thrown where r: "handlePacket (echo_env (serialize pong)) (bytes MAX_ID) (Inet 1 1) asked = Some (sv', acts, thrown)"
    using pong_handled by (metis prod_cases3)
  have "\<exists>c. DhtMessage \<lparr>rm_id = MAX_ID, rm_origin = Inet 1 1, rm_msg = pong\<rparr> (Some c) \<in> set acts"
    using r [unfolded pong_handled]
    by (auto simp: matchResponse_def pong_def asked_def ping_call_def mk_call_def sent_def updateState_def responsed_def sa_eq_iff Let_def)
  then show ?thesis using r responses_matched [OF r] by metis
qed

text \<open>
  A packet that cannot be decrypted or parsed changes nothing but the counters of dropped packets; but on a packet that
  is shorter than an identifier the length of the encrypted part wraps around.
\<close>

theorem bad_packet_ignored:
  assumes "Option.bind (Option.bind (env_decrypt E (the (id_of_blob (take 32 buf))) (drop 32 buf)) (env_from_cbor E)) (parse (env_crypto E)) = None"
  shows "handlePacket E buf from sv =
    (if length buf < 32 then None
     else Some (sv\<lparr>sv_stats := map_option (onDroppedPacket (of_nat (length buf))) (sv_stats sv)\<rparr>, [], False))"
  using assms by (auto simp: handlePacket_def Let_def split: option.splits bind_splits)

theorem bad_packet_ignored_witness:
  "handlePacket silent_env (bytes MAX_ID) (Inet 1 1) (mk_server 7) =
    (if length (bytes MAX_ID) < 32 then None
     else Some ((mk_server 7)\<lparr>sv_stats := map_option (onDroppedPacket (of_nat (length (bytes MAX_ID)))) (sv_stats (mk_server 7))\<rparr>, [], False))"
  by (rule bad_packet_ignored) (simp add: silent_env_def)

lemma flush_all:
  assumes "\<forall>a b. env_sendto E a b \<noteq> IoAgain" and "length (messageQueue sv) \<le> n"
  shows "\<exists>sv' thrown. flushQueue n E sv = Some (sv', thrown) \<and> (messageQueue sv' = [] \<or> thrown)"
  using assms(2)
proof (induction n arbitrary: sv)
  case (Suc n)
  show ?case
  proof (cases "messageQueue sv")
    case (Cons om q)
    obtain sv1 th where s: "sendData E om (sv\<lparr>messageQueue := q\<rparr>) = (sv1, th)" by fastforce
    have "messageQueue sv1 = q" using s assms(1) by (auto simp: sendData_def Let_def split: if_splits io_result.splits)
    then show ?thesis using Suc Cons s by (cases th) auto
  qed auto
qed auto

lemma flush_blocked:
  assumes "env_sock4 E" and "\<forall>a b. env_sendto E a b = IoAgain" and "messageQueue sv \<noteq> []"
    and "\<forall>om \<in> set (messageQueue sv). sa_family_of (om_remoteAddr om) = AF_INET"
  shows "flushQueue n E sv = None"
  using assms(3,4)
proof (induction n arbitrary: sv)
  case (Suc n)
  then obtain om q where q: "messageQueue sv = om # q" by (cases "messageQueue sv") auto
  have "sendData E om (sv\<lparr>messageQueue := q\<rparr>) = (sv\<lparr>messageQueue := q @ [om]\<rparr>, False)"
    using Suc.prems q assms(1,2) by (simp add: sendData_def sa_empty_def Let_def)
  moreover have "flushQueue n E (sv\<lparr>messageQueue := q @ [om]\<rparr>) = None" using Suc.prems q by (intro Suc.IH) auto
  ultimately show ?case using q by simp
qed simp

text \<open>
  The loop of \<^verbatim>\<open>periodic\<close> over the messages that wait for the socket ends after as many rounds as there are messages,
  with an empty queue, when the socket accepts data again; while the socket would still block, each message is
  put back into the queue and the loop does not end, whatever the number of rounds.
\<close>

theorem periodic_spins_while_blocked:
  assumes "env_sock4 E" and "messageQueue sv \<noteq> []" and "\<forall>om \<in> set (messageQueue sv). sa_family_of (om_remoteAddr om) = AF_INET"
  shows "((\<forall>a b. env_sendto E a b = IoAgain) \<longrightarrow> (\<forall>n. flushQueue n E sv = None)) \<and>
    ((\<forall>a b. env_sendto E a b \<noteq> IoAgain) \<longrightarrow>
      (\<exists>sv' thrown. flushQueue (length (messageQueue sv)) E sv = Some (sv', thrown) \<and> (messageQueue sv' = [] \<or> thrown)))"
  using flush_blocked [OF assms(1) _ assms(2,3)] flush_all by blast

definition waiting :: server where
  "waiting = (mk_server 7)\<lparr>messageQueue := [\<lparr>om_msg = pong, om_id = zero_id, om_remoteId = MAX_ID, om_remoteAddr = Inet 1 1\<rparr>]\<rparr>"

theorem periodic_spins_while_blocked_witness:
  "flushQueue 1000 (silent_env\<lparr>env_sendto := (\<lambda>_ _. IoAgain)\<rparr>) waiting = None \<and>
   (\<exists>sv' thrown. flushQueue (length (messageQueue waiting)) silent_env waiting = Some (sv', thrown) \<and> (messageQueue sv' = [] \<or> thrown))"
proof
  have w: "messageQueue waiting \<noteq> []" "\<forall>om \<in> set (messageQueue waiting). sa_family_of (om_remoteAddr om) = AF_INET"
    by (simp_all add: waiting_def)
  show "flushQueue 1000 (silent_env\<lparr>env_sendto := (\<lambda>_ _. IoAgain)\<rparr>) waiting = None"
    using periodic_spins_while_blocked [OF _ w, of "silent_env\<lparr>env_sendto := (\<lambda>_ _. IoAgain)\<rparr>"] by (simp add: silent_env_def)
  show "\<exists>sv' thrown. flushQueue (length (messageQueue waiting)) silent_env waiting = Some (sv', thrown) \<and> (messageQueue sv' = [] \<or> thrown)"
    using periodic_spins_while_blocked [OF _ w, of silent_env] by (simp add: silent_env_def)
qed

text \<open>
  C15: what one node sends another receives: when the codec and the encryption are inverse to each other, the datagram made for
  a message arrives as that message with the identifier of the sender, and is matched or handed to the DHT as such.
\<close>

theorem datagram_delivered:
  assumes "wf_message (env_crypto E) (om_msg om)" and "m_txid (om_msg om) \<noteq> 0"
    and "env_from_cbor E (env_to_cbor F (serialize (om_msg om))) = Some (serialize (om_msg om))"
    and "\<forall>d. env_decrypt E (om_id om) (env_encrypt F (om_remoteId om) d) = Some d"
  shows "\<exists>sv1. calls sv1 = calls sv \<and> nextTxid sv1 = nextTxid sv \<and>
    handlePacket E (datagram F om) from sv = Some (matchResponse E \<lparr>rm_id = om_id om, rm_origin = from, rm_msg = om_msg om\<rparr> sv1)"
proof -
  define sv1 where "sv1 = sv\<lparr>sv_receivedMessages := sv_receivedMessages sv + 1, sv_stats := Option.bind (sv_stats sv)
    (\<lambda>s. onReceivedMessage (m_body (om_msg om)) (onReceivedBytes (of_nat (length (datagram F om))) s))\<rparr>"
  have "handlePacket E (datagram F om) from sv = Some (matchResponse E \<lparr>rm_id = om_id om, rm_origin = from, rm_msg = om_msg om\<rparr> sv1)"
    using assms parse_serialize_body [OF assms(1)]
    by (simp add: handlePacket_def datagram_def sv1_def then_do_def Let_def split: prod.splits)
  then show ?thesis by (intro exI [of _ sv1]) (simp add: sv1_def)
qed

theorem datagram_delivered_witness:
  "\<exists>sv1. calls sv1 = calls asked \<and> nextTxid sv1 = nextTxid asked \<and>
    handlePacket (echo_env (serialize pong)) (datagram silent_env \<lparr>om_msg = pong, om_id = MAX_ID, om_remoteId = zero_id, om_remoteAddr = Inet 2 2\<rparr>)
      (Inet 1 1) asked =
    Some (matchResponse (echo_env (serialize pong)) \<lparr>rm_id = om_id \<lparr>om_msg = pong, om_id = MAX_ID, om_remoteId = zero_id, om_remoteAddr = Inet 2 2\<rparr>,
      rm_origin = Inet 1 1, rm_msg = om_msg \<lparr>om_msg = pong, om_id = MAX_ID, om_remoteId = zero_id, om_remoteAddr = Inet 2 2\<rparr>\<rparr> sv1)"
  by (rule datagram_delivered) (use pong_wf in \<open>simp_all add: echo_env_def silent_env_def\<close>, simp add: pong_def)

end
