(* ===== verification/Tokens.thy ===== *)
theory Tokens
  imports Ids Socket_Address
begin

text \<open>
  Announcement tokens, \<^verbatim>\<open>src/core/token_manager.cc\<close>. The digest function is a parameter \<open>sha256\<close> from byte
  strings to 32 bytes. \<^verbatim>\<open>timestamp\<close> is atomic in the code: the loop around \<^verbatim>\<open>compare_exchange_weak\<close> ends
  with one successful exchange, which is what \<open>updateTokenTimestamps\<close> describes.
\<close>

definition token_timeout :: u64 where
  "token_timeout = 5 * 60 * 1000"

record token_manager =
  tm_timestamp :: u64
  previousTimestamp :: u64
  sessionSecret :: "u8 list"

definition updateTokenTimestamps :: "u64 \<Rightarrow> token_manager \<Rightarrow> token_manager" where
  "updateTokenTimestamps now tm =
     (let current = tm_timestamp tm in
      if now - current > token_timeout then tm\<lparr>tm_timestamp := now, previousTimestamp := current\<rparr> else tm)"

text \<open>The static \<^verbatim>\<open>generateToken\<close>: four bytes of the digest, from a position the digest selects.\<close>

definition token_data :: "id \<Rightarrow> sockaddr \<Rightarrow> id \<Rightarrow> u64 \<Rightarrow> u8 list \<Rightarrow> u8 list" where
  "token_data nodeId addr targetId timestamp secret =
     bytes nodeId @ inaddr addr @ be_bytes 2 (sa_port addr) @ bytes targetId @ be_bytes 8 timestamp @ secret"

definition token_at :: "(u8 list \<Rightarrow> u8 list) \<Rightarrow> id \<Rightarrow> sockaddr \<Rightarrow> id \<Rightarrow> u64 \<Rightarrow> u8 list \<Rightarrow> int" where
  "token_at sha256 nodeId addr targetId timestamp secret =
     (let digest = sha256 (token_data nodeId addr targetId timestamp secret);
          pos = unat (digest ! 0 AND 0x1f);
          byte = (\<lambda>k. ucast (digest ! unat (of_nat (pos + k) AND 0x1f :: u32)) :: u32)
      in sint (push_bit 24 (byte 0) OR push_bit 16 (byte 1) OR push_bit 8 (byte 2) OR byte 3))"

definition generateToken ::
  "(u8 list \<Rightarrow> u8 list) \<Rightarrow> u64 \<Rightarrow> id \<Rightarrow> sockaddr \<Rightarrow> id \<Rightarrow> token_manager \<Rightarrow> int \<times> token_manager" where
  "generateToken sha256 now nodeId addr targetId tm =
     (let tm' = updateTokenTimestamps now tm
      in (token_at sha256 nodeId addr targetId (tm_timestamp tm') (sessionSecret tm'), tm'))"

definition verifyToken ::
  "(u8 list \<Rightarrow> u8 list) \<Rightarrow> u64 \<Rightarrow> int \<Rightarrow> id \<Rightarrow> sockaddr \<Rightarrow> id \<Rightarrow> token_manager \<Rightarrow> bool \<times> token_manager" where
  "verifyToken sha256 now token nodeId addr targetId tm =
     (let tm' = updateTokenTimestamps now tm;
          currentToken = token_at sha256 nodeId addr targetId (tm_timestamp tm') (sessionSecret tm');
          previousToken = token_at sha256 nodeId addr targetId (previousTimestamp tm') (sessionSecret tm')
      in (token = currentToken \<or> token = previousToken, tm'))"

text \<open>All calls advance the timestamps in the same way; \<open>tm_run\<close> is the effect of calls at the given times.\<close>

definition tm_run :: "u64 list \<Rightarrow> token_manager \<Rightarrow> token_manager" where
  "tm_run nows tm = fold updateTokenTimestamps nows tm"

section \<open>Life time of a token\<close>

lemma update_recent:
  assumes "tm_timestamp tm \<le> now" and "unat now \<le> unat (tm_timestamp tm) + 300000"
  shows "updateTokenTimestamps now tm = tm"
proof -
  have "unat (now - tm_timestamp tm) \<le> 300000" using unat_sub [OF assms(1)] assms(2) by simp
  then have "\<not> now - tm_timestamp tm > token_timeout" by (simp add: token_timeout_def word_less_nat_alt)
  then show ?thesis by (simp add: updateTokenTimestamps_def)
qed

lemma update_timestamp:
  assumes "tm_timestamp tm \<le> now" and "tm' = updateTokenTimestamps now tm"
  shows "tm_timestamp tm' \<le> now" and "unat now \<le> unat (tm_timestamp tm') + 300000"
proof -
  have "unat now \<le> unat (tm_timestamp tm) + 300000" if "\<not> now - tm_timestamp tm > token_timeout"
    using that unat_sub [OF assms(1)] by (simp add: token_timeout_def word_less_nat_alt)
  then show "tm_timestamp tm' \<le> now" "unat now \<le> unat (tm_timestamp tm') + 300000"
    using assms by (auto simp: updateTokenTimestamps_def Let_def)
qed

text \<open>
  Within five minutes of a call the timestamps rotate at most once, whatever calls come in between, so the
  stamp of that call is still the current or the previous one.
\<close>

lemma tm_run_stamp:
  assumes "issued \<le> x" and "tm_timestamp tm = g \<and> g \<le> issued \<or> previousTimestamp tm = g \<and> issued \<le> tm_timestamp tm \<and> tm_timestamp tm \<le> x"
    and "sorted (x # nows)" and "\<forall>y \<in> set nows. unat y \<le> unat issued + 300000"
  shows "(tm_timestamp (tm_run nows tm) = g \<or> previousTimestamp (tm_run nows tm) = g) \<and>
    sessionSecret (tm_run nows tm) = sessionSecret tm"
  using assms
proof (induction nows arbitrary: x tm)
  case (Cons y nows)
  let ?tm = "updateTokenTimestamps y tm"
  have y: "issued \<le> y" "x \<le> y" "sorted (y # nows)" using Cons.prems(1,3) by auto
  have "tm_timestamp ?tm = g \<and> g \<le> issued \<or> previousTimestamp ?tm = g \<and> issued \<le> tm_timestamp ?tm \<and> tm_timestamp ?tm \<le> y"
  proof (cases "tm_timestamp tm = g \<and> g \<le> issued")
    case True
    then show ?thesis using y(1) by (auto simp: updateTokenTimestamps_def Let_def)
  next
    case False
    then have p: "previousTimestamp tm = g" "issued \<le> tm_timestamp tm" "tm_timestamp tm \<le> y" using Cons.prems(2) y(2) by auto
    moreover have "unat y \<le> unat (tm_timestamp tm) + 300000" using Cons.prems(4) p(2) by (auto simp: word_le_nat_alt)
    ultimately show ?thesis using update_recent by simp
  qed
  then have "(tm_timestamp (tm_run nows ?tm) = g \<or> previousTimestamp (tm_run nows ?tm) = g) \<and>
    sessionSecret (tm_run nows ?tm) = sessionSecret ?tm"
    using Cons.IH [OF y(1) _ y(3), of ?tm] Cons.prems(4) by simp
  then show ?case by (simp add: tm_run_def updateTokenTimestamps_def Let_def)
qed (auto simp: tm_run_def)

lemma token_accepted:
  assumes gen: "generateToken sha256 issued nodeId addr targetId tm = (token, tm1)" and "tm_timestamp tm \<le> issued"
    and "sorted (issued # nows @ [now])" and "unat now \<le> unat issued + 300000"
  shows "fst (verifyToken sha256 now token nodeId addr targetId (tm_run nows tm1))"
proof -
  define g where "g = tm_timestamp tm1"
  have tm1: "tm1 = updateTokenTimestamps issued tm" "token = token_at sha256 nodeId addr targetId g (sessionSecret tm1)"
    using gen by (auto simp: generateToken_def g_def Let_def)
  have "tm_timestamp tm1 \<le> issued" using update_timestamp(1) [OF assms(2) tm1(1)] .
  moreover have "\<forall>y \<in> set (nows @ [now]). unat y \<le> unat issued + 300000"
    using assms(3,4) by (auto simp: sorted_append word_le_nat_alt intro: le_trans)
  ultimately have "(tm_timestamp (tm_run (nows @ [now]) tm1) = g \<or> previousTimestamp (tm_run (nows @ [now]) tm1) = g) \<and>
      sessionSecret (tm_run (nows @ [now]) tm1) = sessionSecret tm1"
    using assms(3) by (intro tm_run_stamp [of issued issued]) (auto simp: g_def)
  moreover have "tm_run (nows @ [now]) tm1 = updateTokenTimestamps now (tm_run nows tm1)" by (simp add: tm_run_def)
  ultimately show ?thesis unfolding verifyToken_def Let_def tm1(2) by auto
qed

text \<open>
  Two rotations forget a stamp: a token is compared with the stamps of the current and the previous
  period only, and both are then later than the one it was made with.
\<close>

lemma token_stamps_later:
  assumes "tm_timestamp tm \<le> t1" and "unat t1 > unat (tm_timestamp tm) + 300000"
    and "t1 \<le> t2" and "unat t2 > unat t1 + 300000"
  shows "tm_timestamp (tm_run [t1, t2] tm) = t2" and "previousTimestamp (tm_run [t1, t2] tm) = t1"
proof -
  have "t1 - tm_timestamp tm > token_timeout" "t2 - t1 > token_timeout"
    using assms(2,4) unat_sub [OF assms(1)] unat_sub [OF assms(3)] by (simp_all add: token_timeout_def word_less_nat_alt)
  then show "tm_timestamp (tm_run [t1, t2] tm) = t2" "previousTimestamp (tm_run [t1, t2] tm) = t1"
    by (simp_all add: tm_run_def updateTokenTimestamps_def)
qed

section \<open>Correctness\<close>

text \<open>
  C12: a token that \<^verbatim>\<open>generateToken\<close> issued for a node, an address and a target is accepted by \<^verbatim>\<open>verifyToken\<close> for the same
  node, address and target during the following five minutes, whatever calls of the token manager come in between.
\<close>

theorem token_valid_five_minutes:
  assumes "generateToken sha256 issued nodeId addr targetId tm = (token, tm1)" and "tm_timestamp tm \<le> issued"
    and "sorted (issued # nows @ [now])" and "unat now \<le> unat issued + 300000"
  shows "fst (verifyToken sha256 now token nodeId addr targetId (tm_run nows tm1))"
  using assms by (rule token_accepted)

theorem token_valid_five_minutes_witness:
  "\<exists>token tm1. generateToken (\<lambda>_. replicate 32 7) 400000 zero_id (Inet 1 1) MAX_ID
      \<lparr>tm_timestamp = 0, previousTimestamp = 0, sessionSecret = []\<rparr> = (token, tm1) \<and>
    fst (verifyToken (\<lambda>_. replicate 32 7) 700000 token zero_id (Inet 1 1) MAX_ID (tm_run [500000, 600000] tm1))"
proof -
  obtain token tm1 where g: "generateToken (\<lambda>_. replicate 32 7) 400000 zero_id (Inet 1 1) MAX_ID
      \<lparr>tm_timestamp = 0, previousTimestamp = 0, sessionSecret = []\<rparr> = (token, tm1)" by fastforce
  have "fst (verifyToken (\<lambda>_. replicate 32 7) 700000 token zero_id (Inet 1 1) MAX_ID (tm_run [500000, 600000] tm1))"
    by (rule token_valid_five_minutes [OF g]) simp_all
  with g show ?thesis by blast
qed

text \<open>
  A token does not live on: after two rotations, more than five minutes apart each, the manager compares with
  tokens of two later periods only, so a token is accepted only if it equals one of those.
\<close>

theorem token_expires:
  assumes "tm_timestamp tm \<le> t1" and "unat t1 > unat (tm_timestamp tm) + 300000"
    and "t1 \<le> t2" and "unat t2 > unat t1 + 300000"
  shows "fst (verifyToken sha256 t2 token nodeId addr targetId (tm_run [t1] tm)) =
    (token = token_at sha256 nodeId addr targetId t2 (sessionSecret tm) \<or>
     token = token_at sha256 nodeId addr targetId t1 (sessionSecret tm))"
proof -
  have "updateTokenTimestamps t2 (tm_run [t1] tm) = tm_run [t1, t2] tm" by (simp add: tm_run_def)
  moreover have "sessionSecret (tm_run [t1, t2] tm) = sessionSecret tm"
    by (simp add: tm_run_def updateTokenTimestamps_def Let_def)
  ultimately show ?thesis using token_stamps_later [OF assms] by (simp add: verifyToken_def Let_def)
qed

theorem token_expires_witness:
  "fst (verifyToken (\<lambda>_. replicate 32 7) 900000 5 zero_id (Inet 1 1) MAX_ID
      (tm_run [400000] \<lparr>tm_timestamp = 0, previousTimestamp = 0, sessionSecret = []\<rparr>)) =
    (5 = token_at (\<lambda>_. replicate 32 7) zero_id (Inet 1 1) MAX_ID 900000 (sessionSecret \<lparr>tm_timestamp = 0, previousTimestamp = 0, sessionSecret = []\<rparr>) \<or>
     5 = token_at (\<lambda>_. replicate 32 7) zero_id (Inet 1 1) MAX_ID 400000 (sessionSecret \<lparr>tm_timestamp = 0, previousTimestamp = 0, sessionSecret = []\<rparr>))"
  by (rule token_expires) simp_all

end
