(* ===== verification/Prefixes.thy ===== *)
theory Prefixes
  imports Ids
begin

text \<open>
  Key-space prefixes: \<^verbatim>\<open>include/boson/prefix.h\<close> and \<^verbatim>\<open>src/core/prefix.cc\<close>. A \<open>prefix\<close> is an
  identifier with a depth, \<open>-1\<close> for the whole key space. A well-formed prefix denotes the interval
  \<open>[plo p, phi p)\<close> of identifier values; the lemmas of the collection \<open>prefix_simps\<close> give the
  interval of every operation.
\<close>

named_theorems prefix_simps

record prefix =
  pid :: id
  depth :: int

definition mk_prefix :: "id \<Rightarrow> int \<Rightarrow> prefix" where
  "mk_prefix i d = \<lparr>pid = bitsCopy i zero_id d, depth = d\<rparr>"

definition all_prefix :: prefix where
  "all_prefix = \<lparr>pid = zero_id, depth = -1\<rparr>"

text \<open>The copy constructor \<^verbatim>\<open>Prefix(const Prefix&)\<close>.\<close>

definition prefix_copy :: "prefix \<Rightarrow> prefix" where
  "prefix_copy p = mk_prefix (pid p) (depth p)"

definition isPrefixOf :: "prefix \<Rightarrow> id \<Rightarrow> bool" where
  "isPrefixOf p i = bitsEqual (pid p) i (depth p)"

definition isSplittable :: "prefix \<Rightarrow> bool" where
  "isSplittable p \<longleftrightarrow> depth p < int ID_BITS - 1"

definition prefix_first :: "prefix \<Rightarrow> id" where
  "prefix_first p = pid p"

definition prefix_last :: "prefix \<Rightarrow> id" where
  "prefix_last p =
     (let q = mk_prefix MAX_ID (depth p);
          trailingBits = distance (pid q) MAX_ID
      in distance (pid p) trailingBits)"

lift_definition setTail :: "id \<Rightarrow> int \<Rightarrow> id" is
  "\<lambda>bs bit. let k = nat (drop_bit 3 bit)
     in bs[k := word_of_int (uint (bs ! k) AND NOT (drop_bit (nat (bit AND 0x07)) 0x80))]"
  by (simp add: Let_def)

definition getParent :: "prefix \<Rightarrow> prefix" where
  "getParent p =
     (let parent = prefix_copy p in
      if depth p = -1 then parent
      else parent\<lparr>pid := setTail (pid parent) (depth parent), depth := depth parent - 1\<rparr>)"

lift_definition branch_bit :: "bool \<Rightarrow> id \<Rightarrow> int \<Rightarrow> id" is
  "\<lambda>highBranch bs d. let k = nat (d div 8); m = drop_bit (nat (d mod 8)) (0x80 :: int)
     in if highBranch then bs[k := word_of_int (uint (bs ! k) OR m)]
        else bs[k := word_of_int (uint (bs ! k) AND NOT m)]"
  by (simp add: Let_def)

definition splitBranch :: "prefix \<Rightarrow> bool \<Rightarrow> prefix" where
  "splitBranch p highBranch =
     (let branch = prefix_copy p;
          d = depth branch + 1
      in branch\<lparr>pid := branch_bit highBranch (pid branch) d, depth := d\<rparr>)"

definition isSiblingOf :: "prefix \<Rightarrow> prefix \<Rightarrow> bool" where
  "isSiblingOf p other \<longleftrightarrow> depth p = depth other \<and> bitsEqual (pid p) (pid other) (depth p - 1)"

text \<open>\<^verbatim>\<open>createRandomId\<close>, with the identifier drawn by \<^verbatim>\<open>Id::random()\<close> as an argument.\<close>

definition createRandomId :: "prefix \<Rightarrow> id \<Rightarrow> id" where
  "createRandomId p rnd = bitsCopy (pid p) rnd (depth p)"

definition prefix_equals :: "prefix \<Rightarrow> prefix \<Rightarrow> bool" where
  "prefix_equals p q = (if depth p \<noteq> depth q then False else pid p = pid q)"

fun prefix_bits_from :: "nat \<Rightarrow> nat \<Rightarrow> id \<Rightarrow> string" where
  "prefix_bits_from 0 i self = []"
| "prefix_bits_from (Suc left) i self =
     (if uint (bytes self ! (i div 8)) AND drop_bit (i mod 8) 0x80 \<noteq> 0 then CHR ''1'' else CHR ''0'')
     # (if i mod 4 = 3 then '' '' else []) @ prefix_bits_from left (Suc i) self"

definition prefix_toBinaryString :: "prefix \<Rightarrow> string" where
  "prefix_toBinaryString p =
     (if depth p = -1 then ''all'' else prefix_bits_from (nat (depth p + 1)) 0 (pid p) @ ''...'')"

section \<open>The interval of a prefix\<close>

definition plen :: "prefix \<Rightarrow> nat" where
  "plen p = nat (255 - depth p)"

definition plo :: "prefix \<Rightarrow> nat" where
  "plo p = id_val (pid p)"

definition phi :: "prefix \<Rightarrow> nat" where
  "phi p = plo p + 2 ^ plen p"

definition wf_prefix :: "prefix \<Rightarrow> bool" where
  "wf_prefix p \<longleftrightarrow> -1 \<le> depth p \<and> depth p \<le> 255 \<and> plo p mod 2 ^ plen p = 0"

lemma plen_less_256: "0 \<le> depth p \<Longrightarrow> plen p < 256 \<and> 255 - nat (depth p) = plen p"
  by (auto simp: plen_def)

lemma interval_div_iff:
  fixes v w :: nat
  assumes "v mod 2 ^ n = 0"
  shows "v div 2 ^ n = w div 2 ^ n \<longleftrightarrow> v \<le> w \<and> w < v + 2 ^ n"
proof -
  obtain q where v: "v = 2 ^ n * q" using assms by auto
  show ?thesis
  proof
    assume "v div 2 ^ n = w div 2 ^ n"
    then have "w = 2 ^ n * q + w mod 2 ^ n" using v by (metis mult_div_mod_eq nonzero_mult_div_cancel_left power_eq_0_iff zero_neq_numeral)
    moreover have "w mod 2 ^ n < 2 ^ n" by simp
    ultimately show "v \<le> w \<and> w < v + 2 ^ n" using v by linarith
  next
    assume "v \<le> w \<and> w < v + 2 ^ n"
    then have "w = 2 ^ n * q + (w - v)" "w - v < 2 ^ n" using v by auto
    then have "w div 2 ^ n = q" by (metis add.commute add_0_right div_less div_mult_self2 power_not_zero zero_neq_numeral)
    then show "v div 2 ^ n = w div 2 ^ n" using v by simp
  qed
qed

lemma isPrefixOf_iff [prefix_simps]:
  assumes "wf_prefix p"
  shows "isPrefixOf p i \<longleftrightarrow> plo p \<le> id_val i \<and> id_val i < phi p"
proof (cases "depth p = -1")
  case True
  then have "plen p = 256" by (simp add: plen_def)
  moreover have "plo p < 2 ^ 256" using id_val_less [of "pid p"] by (simp only: plo_def)
  ultimately have "plo p = 0" using assms by (simp add: wf_prefix_def)
  with True \<open>plen p = 256\<close> show ?thesis
    using id_val_less [of i] by (simp add: isPrefixOf_def bitsEqual_def phi_def)
next
  case False
  with assms have "0 \<le> depth p" "depth p < 256" by (auto simp: wf_prefix_def)
  then show ?thesis
    using assms interval_div_iff [of "plo p" "plen p" "id_val i"] plen_less_256 [of p]
    by (simp add: isPrefixOf_def bitsEqual_div plo_def phi_def wf_prefix_def)
qed

lemma wf_mk_prefix: "-1 \<le> d \<Longrightarrow> d \<le> 255 \<Longrightarrow> wf_prefix (mk_prefix i d)"
proof (cases "d = -1")
  case False
  assume d: "-1 \<le> d" "d \<le> 255"
  then have "nat (255 - d) = 255 - nat d" using False by auto
  then show ?thesis using d False by (simp add: wf_prefix_def mk_prefix_def plo_def plen_def id_val_bitsCopy)
qed (auto simp: wf_prefix_def mk_prefix_def plo_def plen_def)

lemma mk_prefix_id: "wf_prefix p \<Longrightarrow> mk_prefix (pid p) (depth p) = p"
proof (cases "depth p = -1")
  case True
  assume "wf_prefix p"
  then have "plo p = 0" using True id_val_less [of "pid p"] by (simp add: wf_prefix_def plen_def plo_def)
  then have "pid p = zero_id" by (metis id_val_inj id_val_zero plo_def)
  with True show ?thesis by (simp add: mk_prefix_def)
next
  case False
  assume wf: "wf_prefix p"
  with False have d: "0 \<le> depth p" "depth p < 256" by (auto simp: wf_prefix_def)
  have "id_val (bitsCopy (pid p) zero_id (depth p)) = id_val (pid p)"
    using wf plen_less_256 [OF d(1)]
    by (auto simp: id_val_bitsCopy [OF d] wf_prefix_def plo_def)
  then show ?thesis by (simp add: mk_prefix_def)
qed

lemma prefix_copy_id [prefix_simps]: "wf_prefix p \<Longrightarrow> prefix_copy p = p"
  by (simp add: prefix_copy_def mk_prefix_id)

text \<open>Setting and clearing one bit.\<close>

lemma bit_80: "p < 8 \<Longrightarrow> r < 8 \<Longrightarrow> bit (drop_bit r (0x80 :: int)) p \<longleftrightarrow> p = 7 - r"
proof -
  assume "p < 8" "r < 8"
  have "bit (2 ^ 7 :: int) (r + p) \<longleftrightarrow> r + p = 7" by (simp only: bit_exp_iff) auto
  then show ?thesis using \<open>r < 8\<close> by (auto simp: bit_drop_bit_eq)
qed

lemma id_bit_setTail:
  assumes "0 \<le> n" and "n < 256" and "k < 256"
  shows "id_bit (setTail i n) k \<longleftrightarrow> k \<noteq> nat n \<and> id_bit i k"
proof -
  define q r where "q = nat n div 8" and "r = nat n mod 8"
  have n: "nat n = 8 * q + r" "r < 8" "q < 32" using assms by (auto simp: q_def r_def)
  define j where "j = 7 - k mod 8"
  have j: "j < 8" "k div 8 < 32" using assms(3) by (auto simp: j_def)
  define msk where "msk = drop_bit r (0x80 :: int)"
  have eq: "bytes (setTail i n) = (bytes i)[q := word_of_int (uint (bytes i ! q) AND NOT msk)]"
    using assms(1) by (simp add: setTail.rep_eq Let_def nat_and_7 nat_drop_bit_3 q_def r_def msk_def)
  have "bit msk j \<longleftrightarrow> k mod 8 = r" using bit_80 [OF j(1) n(2)] n(2) by (auto simp: j_def msk_def)
  moreover have "k = nat n \<longleftrightarrow> k div 8 = q \<and> k mod 8 = r" using n(1) div_mod_8I [OF n(1,2)] by auto
  ultimately show ?thesis using n(3) j
    by (cases "k div 8 = q")
      (auto simp: id_bit_def eq bit_word_of_int_u8 bit_and_iff bit_not_iff bit_uint_iff simp flip: j_def)
qed

lemma id_bit_branch_bit:
  assumes "0 \<le> n" and "n < 256" and "k < 256"
  shows "id_bit (branch_bit h i n) k \<longleftrightarrow> (if k = nat n then h else id_bit i k)"
proof -
  define q r where "q = nat n div 8" and "r = nat n mod 8"
  have n: "nat n = 8 * q + r" "r < 8" "q < 32" using assms by (auto simp: q_def r_def)
  define j where "j = 7 - k mod 8"
  have j: "j < 8" "k div 8 < 32" using assms(3) by (auto simp: j_def)
  define msk where "msk = drop_bit r (0x80 :: int)"
  have eq: "bytes (branch_bit h i n) =
      (bytes i)[q := word_of_int (if h then uint (bytes i ! q) OR msk else uint (bytes i ! q) AND NOT msk)]"
    using assms(1) by (simp add: branch_bit.rep_eq Let_def q_def r_def msk_def nat_div_distrib nat_mod_distrib)
  have "bit msk j \<longleftrightarrow> k mod 8 = r" using bit_80 [OF j(1) n(2)] n(2) by (auto simp: j_def msk_def)
  moreover have "k = nat n \<longleftrightarrow> k div 8 = q \<and> k mod 8 = r" using n(1) div_mod_8I [OF n(1,2)] by auto
  ultimately show ?thesis using n(3) j
    by (cases "k div 8 = q")
      (auto simp: id_bit_def eq bit_word_of_int_u8 bit_and_iff bit_or_iff bit_not_iff bit_uint_iff simp flip: j_def)
qed

lemma id_val_setTail:
  assumes "0 \<le> n" and "n < 256"
  shows "id_val (setTail i n) = unset_bit (255 - nat n) (id_val i)"
proof (rule bit_eqI)
  fix k
  show "bit (id_val (setTail i n)) k \<longleftrightarrow> bit (unset_bit (255 - nat n) (id_val i)) k"
    using assms by (auto simp: bit_id_val bit_unset_bit_iff id_bit_setTail [OF assms])
qed

lemma id_val_branch_bit:
  assumes "0 \<le> n" and "n < 256"
  shows "id_val (branch_bit h i n) = (if h then set_bit else unset_bit) (255 - nat n) (id_val i)"
proof (rule bit_eqI)
  fix k
  show "bit (id_val (branch_bit h i n)) k \<longleftrightarrow> bit ((if h then set_bit else unset_bit) (255 - nat n) (id_val i)) k"
    using assms
    by (auto simp: bit_id_val bit_unset_bit_iff bit_set_bit_iff possible_bit_def id_bit_branch_bit [OF assms])
qed

text \<open>Splitting a prefix halves its interval; the parent of either half is the interval again.\<close>

lemma low_bit_clear: "v mod 2 ^ n = 0 \<Longrightarrow> m < n \<Longrightarrow> \<not> bit (v :: nat) m"
  by (metis bit_take_bit_iff bit_0_eq bot_apply bot_bool_def take_bit_eq_mod)

lemma splitBranch_interval:
  assumes wf: "wf_prefix p" and sp: "isSplittable p"
  shows "plen (splitBranch p h) = plen p - 1"
    and "plo (splitBranch p h) = plo p + (if h then 2 ^ (plen p - 1) else 0)"
    and "wf_prefix (splitBranch p h)"
    and "depth (splitBranch p h) = depth p + 1"
proof -
  have d: "0 \<le> depth p + 1" "depth p + 1 < 256" "255 - nat (depth p + 1) = plen p - 1" "0 < plen p"
    using wf sp by (auto simp: wf_prefix_def isSplittable_def plen_def)
  show len: "plen (splitBranch p h) = plen p - 1"
    using d by (simp add: splitBranch_def Let_def prefix_copy_id [OF wf] plen_def)
  have clear: "\<not> bit (plo p) (plen p - 1)"
    using wf d(4) by (intro low_bit_clear [of _ "plen p"]) (auto simp: wf_prefix_def)
  show lo: "plo (splitBranch p h) = plo p + (if h then 2 ^ (plen p - 1) else 0)"
    using clear id_val_branch_bit [OF d(1,2), of h "pid p"]
    by (simp add: splitBranch_def Let_def prefix_copy_id [OF wf] plo_def d(3) set_bit_eq unset_bit_nat_eq)
  show dep: "depth (splitBranch p h) = depth p + 1"
    by (simp add: splitBranch_def Let_def prefix_copy_id [OF wf])
  have "2 ^ (plen p - 1) dvd plo p"
    using wf le_imp_power_dvd [of "plen p - 1" "plen p" "2 :: nat"] by (auto simp: wf_prefix_def intro: dvd_trans)
  then have "2 ^ (plen p - 1) dvd plo (splitBranch p h)" by (simp add: lo)
  then show "wf_prefix (splitBranch p h)"
    using wf d by (simp add: wf_prefix_def dep len)
qed

lemma splitBranch_bounds [prefix_simps]:
  assumes "wf_prefix p" and "isSplittable p"
  shows "plo (splitBranch p False) = plo p"
    and "phi (splitBranch p False) = plo (splitBranch p True)"
    and "phi (splitBranch p True) = phi p"
proof -
  have "0 < plen p" using assms by (auto simp: wf_prefix_def isSplittable_def plen_def)
  then have "2 ^ (plen p - 1) + 2 ^ (plen p - 1) = (2 :: nat) ^ plen p" by (cases "plen p") auto
  then show "plo (splitBranch p False) = plo p" "phi (splitBranch p False) = plo (splitBranch p True)"
    "phi (splitBranch p True) = phi p"
    by (simp_all add: phi_def splitBranch_interval [OF assms])
qed

lemma getParent_interval:
  assumes wf: "wf_prefix p" and d: "depth p \<noteq> -1"
  shows "plen (getParent p) = Suc (plen p)"
    and "plo (getParent p) = plo p - plo p mod 2 ^ Suc (plen p)"
    and "wf_prefix (getParent p)"
    and "depth (getParent p) = depth p - 1"
proof -
  have d': "0 \<le> depth p" "depth p < 256" "255 - nat (depth p) = plen p"
    using wf d by (auto simp: wf_prefix_def plen_def)
  have gp: "getParent p = p\<lparr>pid := setTail (pid p) (depth p), depth := depth p - 1\<rparr>"
    using d by (simp add: getParent_def prefix_copy_id [OF wf])
  show len: "plen (getParent p) = Suc (plen p)" using d' by (simp add: gp plen_def)
  show dep: "depth (getParent p) = depth p - 1" by (simp add: gp)
  have low: "plo p mod 2 ^ plen p = 0" using wf by (simp add: wf_prefix_def)
  have "plo p mod 2 ^ Suc (plen p) = of_bool (bit (plo p) (plen p)) * 2 ^ plen p"
    using low take_bit_Suc_from_most [of "plen p" "plo p"] by (simp add: take_bit_eq_mod mult.commute)
  moreover have "plo (getParent p) = unset_bit (plen p) (plo p)"
    using id_val_setTail [OF d'(1,2), of "pid p"] by (simp add: gp plo_def d'(3))
  moreover have "unset_bit (plen p) (plo p) = plo p - of_bool (bit (plo p) (plen p)) * 2 ^ plen p"
    by (rule unset_bit_nat_eq)
  ultimately show lo: "plo (getParent p) = plo p - plo p mod 2 ^ Suc (plen p)" by simp
  then have "2 ^ Suc (plen p) dvd plo (getParent p)" by (simp add: minus_mod_eq_mult_div)
  then show "wf_prefix (getParent p)"
    using wf d' by (simp add: wf_prefix_def dep len dvd_eq_mod_eq_0)
qed

lemma isSiblingOf_iff:
  assumes "wf_prefix p" and "wf_prefix q" and d: "depth p \<noteq> -1"
  shows "isSiblingOf p q \<longleftrightarrow> depth p = depth q \<and> plo p div 2 ^ Suc (plen p) = plo q div 2 ^ Suc (plen p)"
proof (cases "depth p = 0")
  case True
  then have len: "Suc (plen p) = 256" by (simp add: plen_def)
  have "plo p div 2 ^ 256 = 0" "plo q div 2 ^ 256 = 0"
    using id_val_less [of "pid p"] id_val_less [of "pid q"] unfolding plo_def by (metis div_less)+
  then show ?thesis using True by (simp add: isSiblingOf_def bitsEqual_def len del: power_Suc)
next
  case False
  with assms have "0 \<le> depth p - 1" "depth p - 1 < 256" "255 - nat (depth p - 1) = Suc (plen p)"
    by (auto simp: wf_prefix_def plen_def)
  then show ?thesis by (simp add: isSiblingOf_def bitsEqual_div plo_def del: power_Suc)
qed

lemma sibling_intervals:
  assumes wf: "wf_prefix p" "wf_prefix q" and sib: "isSiblingOf p q" and less: "plo p < plo q"
  shows "phi p = plo q" and "depth p \<noteq> -1"
    and "plo (getParent p) = plo p" and "phi (getParent p) = phi q" and "wf_prefix (getParent p)"
proof -
  have dq: "depth p = depth q" "plen q = plen p" using sib by (auto simp: isSiblingOf_def plen_def)
  show d: "depth p \<noteq> -1"
  proof
    assume "depth p = -1"
    then have "plen q = 256" using dq by (simp add: plen_def)
    then have "plo q = 0" using wf(2) id_val_less [of "pid q"] by (simp add: wf_prefix_def plo_def)
    then show False using less by simp
  qed
  define n where "n = plen p"
  define c where "c = plo p div 2 ^ Suc n"
  have c: "c = plo q div 2 ^ Suc n" using isSiblingOf_iff [OF wf d] sib by (simp add: c_def n_def del: power_Suc)
  obtain a b where ab: "plo p = 2 ^ n * a" "plo q = 2 ^ n * b"
    using wf dq unfolding wf_prefix_def n_def
    by (metis mod_0_imp_dvd dvdE)
  have "2 ^ n * x div 2 ^ Suc n = x div 2" for x :: nat
    unfolding power_Suc2 by (rule div_mult_mult1) simp
  then have "a div 2 = b div 2" "a < b" using c ab less unfolding c_def by auto
  then have "b = a + 1" "even a" by presburger+
  then have eqs: "plo q = plo p + 2 ^ n" "plo p mod 2 ^ Suc n = 0"
    using ab by (auto simp: algebra_simps elim!: evenE)
  then show "phi p = plo q" by (simp add: phi_def n_def)
  show lo: "plo (getParent p) = plo p" using getParent_interval(2) [OF wf(1) d] eqs by (simp add: n_def)
  show "phi (getParent p) = phi q"
    using getParent_interval(1) [OF wf(1) d] eqs dq by (simp add: phi_def lo n_def)
  show "wf_prefix (getParent p)" by (rule getParent_interval(3) [OF wf(1) d])
qed

lemma split_getParent:
  assumes "wf_prefix p" and "isSplittable p"
  shows "getParent (splitBranch p h) = p"
proof -
  note s = splitBranch_interval [OF assms, of h]
  have len: "0 < plen p" "Suc (plen p - 1) = plen p"
    using assms by (auto simp: wf_prefix_def isSplittable_def plen_def)
  have d: "depth (splitBranch p h) \<noteq> -1" using assms s(4) by (auto simp: wf_prefix_def)
  note g = getParent_interval [OF s(3) d]
  have "plo (getParent (splitBranch p h)) = plo p"
  proof -
    have "(plo p + (if h then 2 ^ (plen p - 1) else 0)) mod 2 ^ plen p = (if h then 2 ^ (plen p - 1) else 0)"
      using assms(1) len(1) by (auto simp: wf_prefix_def dvd_eq_mod_eq_0 [symmetric] mod_add_eq elim!: dvdE)
    then show ?thesis using g(2) s(1,2) len by (simp del: power_Suc)
  qed
  then show ?thesis using g(4) s(4) by (simp add: plo_def)
qed

lemma id_val_prefix_last [prefix_simps]:
  assumes wf: "wf_prefix p"
  shows "id_val (prefix_last p) = phi p - 1"
proof -
  define n where "n = plen p"
  have n: "n \<le> 256" using wf by (auto simp: n_def plen_def wf_prefix_def)
  have trail: "bit (id_val (pid (mk_prefix MAX_ID (depth p)))) k \<longleftrightarrow> n \<le> k \<and> k < 256" for k
  proof (cases "depth p = -1")
    case True
    then show ?thesis by (auto simp: mk_prefix_def n_def plen_def)
  next
    case False
    with wf have d: "0 \<le> depth p" "depth p < 256" by (auto simp: wf_prefix_def)
    have z: "\<not> id_bit zero_id j" if "j < 256" for j
      using that bit_id_val [of zero_id "255 - j"] by auto
    show ?thesis
      using d by (auto simp: mk_prefix_def bit_id_val id_bit_bitsCopy id_bit_MAX z n_def plen_def)
  qed
  have "bit (id_val (prefix_last p)) k \<longleftrightarrow> bit (plo p + (2 ^ n - 1)) k" for k
  proof -
    have "(2 :: nat) ^ n - 1 = mask n" by (simp add: mask_eq_exp_minus_1)
    moreover have "bit (plo p div 2 ^ n * 2 ^ n + mask n) k \<longleftrightarrow> (if k < n then True else bit (plo p) k)"
    proof -
      have "(mask n :: nat) < 2 ^ n" by (simp add: mask_eq_exp_minus_1)
      moreover have "bit (plo p div 2 ^ n) (k - n) \<longleftrightarrow> bit (plo p) k" if "\<not> k < n"
        using that by (simp flip: drop_bit_eq_div add: bit_drop_bit_eq)
      moreover have "bit (mask n :: nat) k" if "k < n" using that by (simp add: bit_mask_iff)
      ultimately show ?thesis by (simp add: bit_shift_add)
    qed
    moreover have "plo p div 2 ^ n * 2 ^ n = plo p" using wf by (auto simp: wf_prefix_def n_def)
    moreover have "bit (plo p) k \<Longrightarrow> n \<le> k \<and> k < 256"
      using wf low_bit_clear [of "plo p" n k] bit_id_val [of "pid p" k]
      unfolding wf_prefix_def n_def plo_def by (meson leI)
    moreover have "bit (id_val (prefix_last p)) k \<longleftrightarrow>
        bit (plo p) k \<noteq> (bit (id_val (pid (mk_prefix MAX_ID (depth p)))) k \<noteq> (k < 256))"
      by (auto simp: prefix_last_def Let_def id_val_distance bit_xor_iff plo_def bit_id_val [of MAX_ID] id_bit_MAX)
    ultimately show ?thesis using trail [of k] n by auto
  qed
  then have "id_val (prefix_last p) = plo p + (2 ^ n - 1)" by (rule bit_eqI)
  then show ?thesis by (simp add: phi_def n_def)
qed

lemma createRandomId_in_prefix:
  assumes "wf_prefix p"
  shows "isPrefixOf p (createRandomId p rnd)"
proof (cases "depth p = -1")
  case True
  then show ?thesis by (simp add: isPrefixOf_def bitsEqual_def)
next
  case False
  with assms have d: "0 \<le> depth p" "depth p < 256" by (auto simp: wf_prefix_def)
  then show ?thesis by (simp add: isPrefixOf_def bitsEqual_bits createRandomId_def id_bit_bitsCopy)
qed

lemma wf_all_prefix: "wf_prefix all_prefix" "plo all_prefix = 0" "phi all_prefix = 2 ^ 256"
  by (simp_all add: wf_prefix_def all_prefix_def plo_def phi_def plen_def)

lemma phi_le: "wf_prefix p \<Longrightarrow> phi p \<le> 2 ^ 256"
proof -
  assume wf: "wf_prefix p"
  have "phi p - 1 < 2 ^ 256" using id_val_less [of "prefix_last p"] by (simp only: id_val_prefix_last [OF wf])
  then show ?thesis by linarith
qed

lemma plo_less_phi: "plo p < phi p"
  by (simp add: phi_def)

section \<open>Correctness\<close>

lemma half_block: "v mod 2 ^ n = 0 \<Longrightarrow> 1 \<le> n \<Longrightarrow> v div 2 ^ n = (v + 2 ^ (n - 1)) div (2 ^ n :: nat)"
  by (metis One_nat_def add_0 div_plus_div_distrib_dvd_left div_less add_0_right dvd_eq_mod_eq_0 one_less_numeral_iff
      power_strict_increasing_iff semiring_norm(76) diff_less zero_less_one less_le_trans)

lemma split_id:
  assumes wf: "wf_prefix p" and sp: "isSplittable p"
  shows "isPrefixOf p i \<longleftrightarrow> isPrefixOf (splitBranch p False) i \<or> isPrefixOf (splitBranch p True) i"
    and "\<not> (isPrefixOf (splitBranch p False) i \<and> isPrefixOf (splitBranch p True) i)"
proof -
  note s = splitBranch_bounds [OF assms] isPrefixOf_iff [OF splitBranch_interval(3) [OF assms]]
  have "plo p \<le> plo (splitBranch p True)" "plo (splitBranch p True) \<le> phi p"
    using plo_less_phi [of "splitBranch p False"] plo_less_phi [of "splitBranch p True"] s(1,2,3) by linarith+
  then show "isPrefixOf p i \<longleftrightarrow> isPrefixOf (splitBranch p False) i \<or> isPrefixOf (splitBranch p True) i"
    by (auto simp: s isPrefixOf_iff [OF wf])
  show "\<not> (isPrefixOf (splitBranch p False) i \<and> isPrefixOf (splitBranch p True) i)" by (auto simp: s)
qed

text \<open>
  Splitting a prefix: each identifier with the prefix has exactly one of the two branches as a prefix and
  no other identifier has either, both branches are siblings, one bit deeper, and \<^verbatim>\<open>getParent\<close> of each is
  the prefix again.
\<close>

theorem split_partition:
  assumes wf: "wf_prefix p" and sp: "isSplittable p"
  shows "(isPrefixOf p i = (isPrefixOf (splitBranch p False) i \<noteq> isPrefixOf (splitBranch p True) i)) \<and>
    isSiblingOf (splitBranch p False) (splitBranch p True) \<and> depth (splitBranch p h) = depth p + 1 \<and>
    getParent (splitBranch p h) = p"
proof (intro conjI)
  show "isPrefixOf p i = (isPrefixOf (splitBranch p False) i \<noteq> isPrefixOf (splitBranch p True) i)"
    using split_id [OF assms] by blast
  have d: "depth p + 1 \<noteq> -1" "plen p \<ge> 1" using wf sp by (auto simp: wf_prefix_def isSplittable_def plen_def)
  have "plo p mod 2 ^ plen p = 0" using wf by (simp add: wf_prefix_def)
  then show "isSiblingOf (splitBranch p False) (splitBranch p True)"
    using splitBranch_interval [OF assms] d half_block by (simp add: isSiblingOf_iff)
  show "depth (splitBranch p h) = depth p + 1" by (rule splitBranch_interval [OF assms])
  show "getParent (splitBranch p h) = p" by (rule split_getParent [OF assms])
qed

theorem split_partition_witness:
  "(isPrefixOf all_prefix zero_id = (isPrefixOf (splitBranch all_prefix False) zero_id \<noteq> isPrefixOf (splitBranch all_prefix True) zero_id)) \<and>
    isSiblingOf (splitBranch all_prefix False) (splitBranch all_prefix True) \<and>
    depth (splitBranch all_prefix True) = depth all_prefix + 1 \<and> getParent (splitBranch all_prefix True) = all_prefix"
  by (rule split_partition) (simp_all add: wf_all_prefix, simp add: isSplittable_def all_prefix_def)

end
