(* ===== verification/KBuckets.thy ===== *)
theory KBuckets
  imports Prefixes Bucket_Entry "HOL-Library.Multiset"
begin

text \<open>
  The k-buckets of \<^verbatim>\<open>src/core/kbucket.h\<close> and \<^verbatim>\<open>kbucket.cc\<close>: a prefix of the key space with the list of
  known nodes in it. The methods that write the list return the new bucket. \<open>bucket_inv\<close> is the invariant
  every operation keeps.
\<close>

record kbucket =
  b_prefix :: prefix
  homeBucket :: bool
  entries :: "kbucket_entry list"
  lastRefresh :: u64

definition mk_bucket :: "prefix \<Rightarrow> bool \<Rightarrow> kbucket" where
  "mk_bucket p isHome = \<lparr>b_prefix = prefix_copy p, homeBucket = isHome, entries = [], lastRefresh = 0\<rparr>"

definition b_isFull :: "kbucket \<Rightarrow> bool" where
  "b_isFull b \<longleftrightarrow> length (entries b) \<ge> MAX_ENTRIES_PER_BUCKET"

definition findAny :: "(kbucket_entry \<Rightarrow> bool) \<Rightarrow> kbucket \<Rightarrow> kbucket_entry option" where
  "findAny P b = find P (entries b)"

definition anyMatch :: "(kbucket_entry \<Rightarrow> bool) \<Rightarrow> kbucket \<Rightarrow> bool" where
  "anyMatch P b \<longleftrightarrow> findAny P b \<noteq> None"

definition b_get :: "id \<Rightarrow> kbucket \<Rightarrow> kbucket_entry option" where
  "b_get i b = findAny (\<lambda>e. e_id e = i) b"

definition b_find :: "id \<Rightarrow> sockaddr \<Rightarrow> kbucket \<Rightarrow> kbucket_entry option" where
  "b_find i a b = findAny (\<lambda>e. e_id e = i \<or> sa_eq (e_addr e) a) b"

definition b_exists :: "id \<Rightarrow> kbucket \<Rightarrow> bool" where
  "b_exists i b = anyMatch (\<lambda>e. e_id e = i) b"

text \<open>\<^verbatim>\<open>KBucket::random\<close>, with the index drawn from \<^verbatim>\<open>[0, size - 1]\<close> as an argument.\<close>

definition b_random :: "nat \<Rightarrow> kbucket \<Rightarrow> kbucket_entry option" where
  "b_random rnd b = (if entries b = [] then None else Some (entries b ! (rnd mod length (entries b))))"

definition b_needsToBeRefreshed :: "u64 \<Rightarrow> kbucket \<Rightarrow> bool" where
  "b_needsToBeRefreshed now b \<longleftrightarrow>
     now - lastRefresh b > word_of_int BUCKET_REFRESH_INTERVAL \<and> anyMatch (needsPing now) b"

definition b_needsReplacement :: "u64 \<Rightarrow> kbucket \<Rightarrow> bool" where
  "b_needsReplacement now b = anyMatch (e_needsReplacement now) b"

definition b_updateRefreshTimer :: "u64 \<Rightarrow> kbucket \<Rightarrow> kbucket" where
  "b_updateRefreshTimer now b = b\<lparr>lastRefresh := now\<rparr>"

definition b_compareTo :: "kbucket \<Rightarrow> kbucket \<Rightarrow> int" where
  "b_compareTo a b = compareTo (pid (b_prefix a)) (pid (b_prefix b))"

text \<open>\<^verbatim>\<open>KBucket::_update(toRemove, toInsert)\<close>; \<^verbatim>\<open>std::list::remove\<close> compares pointers.\<close>

definition b_replace :: "kbucket_entry option \<Rightarrow> kbucket_entry option \<Rightarrow> kbucket \<Rightarrow> kbucket" where
  "b_replace toRemove toInsert b =
     (if (case toInsert of None \<Rightarrow> False | Some n \<Rightarrow> anyMatch (\<lambda>e. e_matches n e) b) then b
      else
        let newEntries = (case toRemove of None \<Rightarrow> entries b
                          | Some r \<Rightarrow> filter (\<lambda>e. e_ref e \<noteq> e_ref r) (entries b));
            removed = (toRemove \<noteq> None);
            (newEntries, added) =
              (case toInsert of None \<Rightarrow> (newEntries, False)
               | Some n \<Rightarrow>
                   let oldSize = length newEntries;
                       wasFull = oldSize \<ge> MAX_ENTRIES_PER_BUCKET;
                       unorderedInsert = (oldSize > 0 \<and> created n < created (last newEntries));
                       added = (\<not> wasFull \<or> unorderedInsert);
                       newEntries = (if added then newEntries @ [n] else newEntries);
                       newEntries = (if unorderedInsert then sort_key created newEntries else newEntries)
                   in (newEntries, added))
        in if added \<or> removed then b\<lparr>entries := newEntries\<rparr> else b)"

definition b_replaceBadEntry :: "u64 \<Rightarrow> kbucket_entry \<Rightarrow> kbucket \<Rightarrow> bool \<times> kbucket" where
  "b_replaceBadEntry now n b =
     (case find (e_needsReplacement now) (entries b) of
        Some e \<Rightarrow> (True, b_replace (Some e) (Some n) b)
      | None \<Rightarrow> (False, b))"

text \<open>The loop of \<^verbatim>\<open>KBucket::_put\<close> over the existing entries; \<open>None\<close> when it runs to the end.\<close>

fun put_existing :: "kbucket_entry \<Rightarrow> kbucket_entry list \<Rightarrow> kbucket_entry list option" where
  "put_existing n [] = None"
| "put_existing n (e # es) =
     (if e_equals e n then Some (e_merge e n # es)
      else if e_matches e n then Some (e # es)
      else map_option ((#) e) (put_existing n es))"

definition b_put :: "u64 \<Rightarrow> kbucket_entry \<Rightarrow> kbucket \<Rightarrow> kbucket" where
  "b_put now n b =
     (case put_existing n (entries b) of
        Some es \<Rightarrow> b\<lparr>entries := es\<rparr>
      | None \<Rightarrow>
          if reachable n then
            if length (entries b) < MAX_ENTRIES_PER_BUCKET then b_replace None (Some n) b
            else (case b_replaceBadEntry now n b of
                    (True, b') \<Rightarrow> b'
                  | (False, b') \<Rightarrow>
                      let youngest = last (entries b') in
                      if created youngest > created n then b_replace (Some youngest) (Some n) b' else b')
          else b)"

definition b_removeIfBad :: "u64 \<Rightarrow> kbucket_entry \<Rightarrow> bool \<Rightarrow> kbucket \<Rightarrow> kbucket" where
  "b_removeIfBad now r force b =
     (if (force \<or> e_needsReplacement now r) \<and> anyMatch (\<lambda>e. e_id e = e_id r) b then b_replace (Some r) None b else b)"

definition b_refresh :: "kbucket_entry \<Rightarrow> kbucket \<Rightarrow> kbucket" where
  "b_refresh toRefresh b = b\<lparr>entries := update_first (\<lambda>e. e_equals e toRefresh) (\<lambda>e. e_merge e toRefresh) (entries b)\<rparr>"

text \<open>
  \<^verbatim>\<open>_notifyOfResponse\<close>: \<open>expected\<close> says that the message is a response with an associated call.
\<close>

definition b_notifyOfResponse :: "u64 \<Rightarrow> bool \<Rightarrow> id \<Rightarrow> kbucket \<Rightarrow> kbucket" where
  "b_notifyOfResponse now expected i b =
     (if \<not> expected then b else b\<lparr>entries := update_first (\<lambda>e. e_id e = i) (signalResponse now) (entries b)\<rparr>)"

definition b_onTimeout :: "u64 \<Rightarrow> id \<Rightarrow> kbucket \<Rightarrow> kbucket" where
  "b_onTimeout now i b =
     (case findAny (\<lambda>e. e_id e = i) b of
        None \<Rightarrow> b
      | Some e \<Rightarrow>
          let b' = b\<lparr>entries := update_first (\<lambda>e. e_id e = i) signalRequestTimeout (entries b)\<rparr>
          in b_removeIfBad now (signalRequestTimeout e) False b')"

definition b_onSend :: "u64 \<Rightarrow> id \<Rightarrow> kbucket \<Rightarrow> kbucket" where
  "b_onSend now i b = b\<lparr>entries := update_first (\<lambda>e. e_id e = i) (signalRequest now) (entries b)\<rparr>"

section \<open>The invariant\<close>

text \<open>
  A bucket holds at most eight reachable nodes of its part of the key space, no two of them with the same
  identifier, the same address or the same object.
\<close>

definition entries_inv :: "prefix \<Rightarrow> kbucket_entry list \<Rightarrow> bool" where
  "entries_inv p es \<longleftrightarrow>
     length es \<le> MAX_ENTRIES_PER_BUCKET \<and> distinct (map e_id es) \<and> distinct (map e_addr es) \<and> distinct (map e_ref es) \<and>
     (\<forall>e \<in> set es. isPrefixOf p (e_id e) \<and> reachable e)"

definition bucket_inv :: "kbucket \<Rightarrow> bool" where
  "bucket_inv b \<longleftrightarrow> wf_prefix (b_prefix b) \<and> entries_inv (b_prefix b) (entries b)"

text \<open>An entry that no object of the bucket aliases.\<close>

definition fresh_in :: "kbucket_entry \<Rightarrow> kbucket \<Rightarrow> bool" where
  "fresh_in n b \<longleftrightarrow> e_ref n \<notin> e_ref ` set (entries b)"

lemma entries_inv_cong:
  assumes "entries_inv p es" and "map e_id es' = map e_id es" and "map e_addr es' = map e_addr es"
    and "map e_ref es' = map e_ref es" and "\<forall>e \<in> set es'. reachable e"
  shows "entries_inv p es'"
proof -
  have "length es' = length es" using assms(2) by (metis length_map)
  moreover have "e_id ` set es' = e_id ` set es" using assms(2) by (metis list.set_map)
  then have "\<forall>e \<in> set es'. isPrefixOf p (e_id e)" using assms(1) by (auto simp: entries_inv_def image_iff) (metis imageI imageE)
  ultimately show ?thesis using assms by (simp add: entries_inv_def)
qed

lemma entries_inv_mset:
  assumes "entries_inv p es" and "mset es' = mset es"
  shows "entries_inv p es'"
proof -
  have "length es' = length es" using assms(2) by (rule mset_eq_length)
  moreover have "set es' = set es" using assms(2) by (rule mset_eq_setD)
  moreover have "distinct (map e_id es') = distinct (map e_id es)" "distinct (map e_addr es') = distinct (map e_addr es)"
    "distinct (map e_ref es') = distinct (map e_ref es)"
    by (rule mset_eq_imp_distinct_iff; simp add: assms(2))+
  ultimately show ?thesis using assms(1) unfolding entries_inv_def by simp
qed

lemma entries_inv_filter: "entries_inv p es \<Longrightarrow> entries_inv p (filter P es)"
  unfolding entries_inv_def
  by (auto simp: distinct_map inj_on_def intro: le_trans [OF length_filter_le])

lemma entries_inv_snoc:
  assumes "entries_inv p es" and "length es < MAX_ENTRIES_PER_BUCKET" and "isPrefixOf p (e_id n)" and "reachable n"
    and "e_ref n \<notin> e_ref ` set es" and "\<forall>e \<in> set es. \<not> e_matches n e"
  shows "entries_inv p (es @ [n])"
  using assms by (auto simp: entries_inv_def matches_iff image_iff)

lemma anyMatch_iff: "anyMatch P b \<longleftrightarrow> (\<exists>e \<in> set (entries b). P e)"
  by (auto simp: anyMatch_def findAny_def find_eq_None)

lemma matches_sym: "e_matches e n = e_matches n e"
  by (auto simp: matches_iff)

lemma b_replace_frame [simp]:
  "b_prefix (b_replace r t b) = b_prefix b" "homeBucket (b_replace r t b) = homeBucket b"
  "lastRefresh (b_replace r t b) = lastRefresh b"
  by (simp_all add: b_replace_def Let_def split: prod.splits)

lemma b_replace_insert:
  assumes "\<forall>e \<in> set (entries b). \<not> e_matches n e"
    and "es = (case r of None \<Rightarrow> entries b | Some x \<Rightarrow> filter (\<lambda>e. e_ref e \<noteq> e_ref x) (entries b))"
    and "length es < MAX_ENTRIES_PER_BUCKET"
  shows "mset (entries (b_replace r (Some n) b)) = mset (es @ [n])"
  using assms by (auto simp: b_replace_def Let_def anyMatch_iff)

lemma b_replace_remove: "entries (b_replace (Some x) None b) = filter (\<lambda>e. e_ref e \<noteq> e_ref x) (entries b)"
  by (simp add: b_replace_def Let_def)

lemma length_filter_ref: "x \<in> set es \<Longrightarrow> length (filter (\<lambda>e. e_ref e \<noteq> e_ref x) es) < length es"
  by (rule length_filter_less) auto

text \<open>Outcome of the scan over the existing entries.\<close>

lemma put_existing_None: "put_existing n es = None \<longleftrightarrow> (\<forall>e \<in> set es. \<not> e_matches n e)"
  by (induction es) (auto simp: matches_iff equals_iff)

lemma put_existing_maps:
  "put_existing n es = Some es' \<Longrightarrow>
     map e_id es' = map e_id es \<and> map e_addr es' = map e_addr es \<and> map e_ref es' = map e_ref es \<and>
     ((\<forall>e \<in> set es. reachable e) \<longrightarrow> (\<forall>e \<in> set es'. reachable e))"
  by (induction es arbitrary: es') (auto simp: entry_frame split: if_splits)

text \<open>What \<^verbatim>\<open>_put\<close> does with a node that conflicts with no entry.\<close>

lemma b_put_new_cases:
  assumes "\<forall>e \<in> set (entries b). \<not> e_matches n e"
  obtains
    (unreachable) "\<not> reachable n" "b_put now n b = b"
  | (room) "reachable n" "length (entries b) < MAX_ENTRIES_PER_BUCKET" "b_put now n b = b_replace None (Some n) b"
  | (bad) x where "reachable n" "\<not> length (entries b) < MAX_ENTRIES_PER_BUCKET" "x \<in> set (entries b)"
      "e_needsReplacement now x" "b_put now n b = b_replace (Some x) (Some n) b"
  | (young) "reachable n" "\<not> length (entries b) < MAX_ENTRIES_PER_BUCKET" "last (entries b) \<in> set (entries b)"
      "\<forall>e \<in> set (entries b). \<not> e_needsReplacement now e"
      "created n < created (last (entries b))" "b_put now n b = b_replace (Some (last (entries b))) (Some n) b"
  | (rejected) "reachable n" "\<not> length (entries b) < MAX_ENTRIES_PER_BUCKET"
      "\<forall>e \<in> set (entries b). \<not> e_needsReplacement now e" "b_put now n b = b"
proof -
  have none: "put_existing n (entries b) = None" using assms by (simp add: put_existing_None)
  show thesis
  proof (cases "reachable n \<and> \<not> length (entries b) < MAX_ENTRIES_PER_BUCKET")
    case False
    then show ?thesis using that(1,2) none by (auto simp: b_put_def)
  next
    case full: True
    show ?thesis
    proof (cases "find (e_needsReplacement now) (entries b)")
      case (Some x)
      then show ?thesis using that(3) [of x] full none find_Some_in [OF Some]
        by (simp add: b_put_def b_replaceBadEntry_def)
    next
      case None
      then have "b_put now n b =
          (if created n < created (last (entries b)) then b_replace (Some (last (entries b))) (Some n) b else b)"
        using full none by (simp add: b_put_def b_replaceBadEntry_def Let_def)
      moreover have "entries b \<noteq> []" using full by auto
      ultimately show ?thesis using that(4,5) full None
        by (cases "created n < created (last (entries b))") (auto simp: find_eq_None)
    qed
  qed
qed

lemma b_put_frame [simp]:
  "b_prefix (b_put now n b) = b_prefix b" "homeBucket (b_put now n b) = homeBucket b" "lastRefresh (b_put now n b) = lastRefresh b"
  by (auto simp: b_put_def b_replaceBadEntry_def Let_def split: option.splits prod.splits bool.splits)

lemma entries_inv_replace:
  assumes inv: "entries_inv p (entries b)" and new: "\<forall>e \<in> set (entries b). \<not> e_matches n e"
    and fresh: "fresh_in n b" and n: "isPrefixOf p (e_id n)" "reachable n"
    and r: "case r of None \<Rightarrow> length (entries b) < MAX_ENTRIES_PER_BUCKET | Some x \<Rightarrow> x \<in> set (entries b)"
  shows "entries_inv p (entries (b_replace r (Some n) b))"
proof -
  define es where "es = (case r of None \<Rightarrow> entries b | Some x \<Rightarrow> filter (\<lambda>e. e_ref e \<noteq> e_ref x) (entries b))"
  have sub: "entries_inv p es" "set es \<subseteq> set (entries b)"
    using inv entries_inv_filter by (auto simp: es_def split: option.splits)
  have len: "length es < MAX_ENTRIES_PER_BUCKET"
    using r inv length_filter_ref by (fastforce simp: es_def entries_inv_def split: option.splits)
  have "entries_inv p (es @ [n])"
    using sub len n fresh new by (intro entries_inv_snoc) (auto simp: fresh_in_def)
  then show ?thesis using b_replace_insert [OF new es_def len] entries_inv_mset by metis
qed

lemma b_put_inv:
  assumes inv: "bucket_inv b" and n: "isPrefixOf (b_prefix b) (e_id n)" and fresh: "fresh_in n b"
  shows "bucket_inv (b_put now n b)"
proof (cases "put_existing n (entries b)")
  case (Some es)
  then show ?thesis using inv put_existing_maps [OF Some] entries_inv_cong [of "b_prefix b" "entries b" es]
    by (auto simp: bucket_inv_def b_put_def entries_inv_def)
next
  case None
  then have new: "\<forall>e \<in> set (entries b). \<not> e_matches n e" by (simp add: put_existing_None)
  have "entries_inv (b_prefix b) (entries (b_put now n b))"
    using inv n fresh new
    by (cases rule: b_put_new_cases [OF new, of now])
      (auto simp: bucket_inv_def intro!: entries_inv_replace)
  then show ?thesis using inv by (simp add: bucket_inv_def)
qed

lemma b_removeIfBad_inv: "bucket_inv b \<Longrightarrow> bucket_inv (b_removeIfBad now r force b)"
  by (simp add: bucket_inv_def b_removeIfBad_def b_replace_remove entries_inv_filter)

lemma update_first_inv:
  assumes "entries_inv p es" and "\<And>e. e_id (f e) = e_id e" "\<And>e. e_addr (f e) = e_addr e" "\<And>e. e_ref (f e) = e_ref e"
    and "\<And>e. reachable e \<Longrightarrow> reachable (f e)"
  shows "entries_inv p (update_first P f es)"
  using assms(1)
proof (rule entries_inv_cong)
  show "\<forall>e \<in> set (update_first P f es). reachable e"
    using assms(1,5) set_update_first [of _ P f es] by (fastforce simp: entries_inv_def)
qed (simp_all add: map_update_first assms)

lemma b_refresh_inv: "bucket_inv b \<Longrightarrow> bucket_inv (b_refresh e b)"
  by (auto simp: bucket_inv_def b_refresh_def entry_frame intro!: update_first_inv)

lemma b_notifyOfResponse_inv: "bucket_inv b \<Longrightarrow> bucket_inv (b_notifyOfResponse now expected i b)"
  by (auto simp: bucket_inv_def b_notifyOfResponse_def entry_frame intro!: update_first_inv)

lemma b_onSend_inv: "bucket_inv b \<Longrightarrow> bucket_inv (b_onSend now i b)"
  by (auto simp: bucket_inv_def b_onSend_def entry_frame intro!: update_first_inv)

lemma b_onTimeout_inv: "bucket_inv b \<Longrightarrow> bucket_inv (b_onTimeout now i b)"
  by (auto simp: bucket_inv_def b_onTimeout_def Let_def entry_frame b_removeIfBad_def b_replace_remove
      intro!: update_first_inv entries_inv_filter split: option.splits)

section \<open>What an insertion does\<close>

text \<open>
  The contract of \<^verbatim>\<open>KBucket::_put\<close> on the multiset of the entries: a known node is merged; a node that
  shares only its identifier or only its address with an entry is refused, as is an unreachable one;
  otherwise the node is added, in a full bucket at the expense of one bad entry or, if there is none, of one
  entry that was created later, or it is rejected.
\<close>

inductive put_spec :: "u64 \<Rightarrow> kbucket_entry \<Rightarrow> kbucket_entry multiset \<Rightarrow> kbucket_entry multiset \<Rightarrow> bool"
  for now n X where
  merged: "x \<in># X \<Longrightarrow> e_equals x n \<Longrightarrow> put_spec now n X (add_mset (e_merge x n) (X - {#x#}))"
| conflict: "x \<in># X \<Longrightarrow> e_matches x n \<Longrightarrow> \<not> e_equals x n \<Longrightarrow> put_spec now n X X"
| unreachable: "\<forall>x \<in># X. \<not> e_matches x n \<Longrightarrow> \<not> reachable n \<Longrightarrow> put_spec now n X X"
| added: "\<forall>x \<in># X. \<not> e_matches x n \<Longrightarrow> reachable n \<Longrightarrow> size X < MAX_ENTRIES_PER_BUCKET \<Longrightarrow>
    put_spec now n X (add_mset n X)"
| bad: "\<forall>x \<in># X. \<not> e_matches x n \<Longrightarrow> reachable n \<Longrightarrow> \<not> size X < MAX_ENTRIES_PER_BUCKET \<Longrightarrow>
    x \<in># X \<Longrightarrow> e_needsReplacement now x \<Longrightarrow> put_spec now n X (add_mset n (X - {#x#}))"
| younger: "\<forall>x \<in># X. \<not> e_matches x n \<and> \<not> e_needsReplacement now x \<Longrightarrow> reachable n \<Longrightarrow>
    \<not> size X < MAX_ENTRIES_PER_BUCKET \<Longrightarrow> x \<in># X \<Longrightarrow> created n < created x \<Longrightarrow> put_spec now n X (add_mset n (X - {#x#}))"
| rejected: "\<forall>x \<in># X. \<not> e_matches x n \<and> \<not> e_needsReplacement now x \<Longrightarrow> reachable n \<Longrightarrow>
    \<not> size X < MAX_ENTRIES_PER_BUCKET \<Longrightarrow> put_spec now n X X"

inductive_cases put_specE: "put_spec now n X X'"

lemma mset_filter_ref:
  assumes "distinct (map e_ref es)" and "x \<in> set es"
  shows "mset (filter (\<lambda>e. e_ref e \<noteq> e_ref x) es) = mset es - {#x#}"
proof -
  have "filter (\<lambda>e. e_ref e \<noteq> e_ref x) es = remove1 x es"
    using assms
  proof (induction es)
    case (Cons a es)
    show ?case
    proof (cases "a = x")
      case True
      then show ?thesis using Cons.prems by (auto simp: filter_id_conv image_iff)
    next
      case False
      then have "e_ref a \<noteq> e_ref x" using Cons.prems by auto
      then show ?thesis using Cons False by auto
    qed
  qed simp
  then show ?thesis by simp
qed

lemma put_existing_spec:
  "put_existing n es = Some es' \<Longrightarrow>
     (\<exists>x \<in> set es. e_equals x n \<and> mset es' = add_mset (e_merge x n) (mset es - {#x#})) \<or>
     (\<exists>x \<in> set es. e_matches x n \<and> \<not> e_equals x n \<and> es' = es)"
proof (induction es arbitrary: es')
  case (Cons e es)
  show ?case
  proof (cases "e_equals e n \<or> e_matches e n")
    case True
    then show ?thesis using Cons.prems by (auto split: if_splits)
  next
    case False
    then obtain es1 where es1: "put_existing n es = Some es1" "es' = e # es1" using Cons.prems by auto
    have "e \<noteq> x" if "e_equals x n" for x using False that by auto
    then show ?thesis using Cons.IH [OF es1(1)] es1(2) by (auto simp: add_mset_commute)
  qed
qed simp

lemma b_put_refines:
  assumes "entries_inv p (entries b)"
  shows "put_spec now n (mset (entries b)) (mset (entries (b_put now n b)))"
proof (cases "put_existing n (entries b)")
  case (Some es)
  then have "entries (b_put now n b) = es" by (simp add: b_put_def)
  then show ?thesis using put_existing_spec [OF Some] put_spec.merged put_spec.conflict
    by (metis set_mset_mset)
next
  case None
  then have new: "\<forall>e \<in> set (entries b). \<not> e_matches n e" by (simp add: put_existing_None)
  have sw: "mset (entries (b_replace (Some x) (Some n) b)) = add_mset n (mset (entries b) - {#x#})"
    if "x \<in> set (entries b)" for x
  proof -
    have "length (filter (\<lambda>e. e_ref e \<noteq> e_ref x) (entries b)) < MAX_ENTRIES_PER_BUCKET"
      using length_filter_ref [OF that] assms by (simp add: entries_inv_def)
    then show ?thesis using b_replace_insert [OF new refl, of "Some x"] mset_filter_ref [OF _ that] assms
      by (simp add: entries_inv_def)
  qed
  from new show ?thesis
  proof (cases rule: b_put_new_cases [where now = now])
    case room
    then show ?thesis using b_replace_insert [OF new refl, of None] new added [of "mset (entries b)" n now]
      by (simp add: matches_sym)
  next
    case (bad x)
    then show ?thesis using sw new put_spec.bad [of "mset (entries b)" n x now] by (simp add: matches_sym)
  next
    case young
    then show ?thesis using sw new put_spec.younger [of "mset (entries b)" n now "last (entries b)"]
      by (simp add: matches_sym)
  qed (use new in \<open>auto simp: matches_sym intro: put_spec.unreachable put_spec.rejected\<close>)
qed

lemma put_spec_refs:
  "put_spec now n X Y \<Longrightarrow> y \<in># Y \<Longrightarrow> y = n \<or> (\<exists>x \<in># X. e_ref y = e_ref x \<and> e_id y = e_id x)"
  by (erule put_spec.cases) (auto simp: entry_frame dest!: in_diffD)

lemma b_put_refs:
  assumes "entries_inv p (entries b)"
  shows "e_ref ` set (entries (b_put now n b)) \<subseteq> e_ref ` set (entries b) \<union> {e_ref n}"
  using put_spec_refs [OF b_put_refines [OF assms]] by fastforce

section \<open>Correctness\<close>

text \<open>
  C3: \<^verbatim>\<open>KBucket::_put\<close> with a new object for a node of the bucket's prefix keeps the invariant of the bucket (at most
  eight reachable nodes, distinct identifiers and addresses) and implements the contract \<open>put_spec\<close>.
\<close>

theorem put_implements_contract:
  assumes "bucket_inv b" and "isPrefixOf (b_prefix b) (e_id n)" and "fresh_in n b"
  shows "bucket_inv (b_put now n b) \<and> put_spec now n (mset (entries b)) (mset (entries (b_put now n b)))"
  using assms b_put_inv b_put_refines by (auto simp: bucket_inv_def)

lemma bucket_inv_mk: "wf_prefix p \<Longrightarrow> bucket_inv (mk_bucket p h)"
  by (simp add: bucket_inv_def mk_bucket_def entries_inv_def prefix_copy_id)

lemma all_bucket [simp]: "b_prefix (mk_bucket all_prefix h) = all_prefix" "entries (mk_bucket p h) = []"
  "isPrefixOf all_prefix i" "bucket_inv (mk_bucket all_prefix h)"
  by (simp_all add: bucket_inv_mk wf_all_prefix) (simp_all add: mk_bucket_def prefix_copy_id wf_all_prefix isPrefixOf_def
      all_prefix_def bitsEqual_def prefix_copy_def mk_prefix_def)

theorem put_implements_contract_witness:
  "bucket_inv (b_put 5 (signalResponse 4 (mk_entry 0 zero_id (Inet 1 1) 0 0)) (mk_bucket all_prefix True)) \<and>
   put_spec 5 (signalResponse 4 (mk_entry 0 zero_id (Inet 1 1) 0 0)) (mset (entries (mk_bucket all_prefix True)))
     (mset (entries (b_put 5 (signalResponse 4 (mk_entry 0 zero_id (Inet 1 1) 0 0)) (mk_bucket all_prefix True))))"
  by (rule put_implements_contract) (simp_all add: fresh_in_def)

end
