(* ===== verification/Routing_Table.thy ===== *)
theory Routing_Table
  imports KBuckets
begin

text \<open>
  The routing table of \<^verbatim>\<open>src/core/routing_table.h\<close> and \<^verbatim>\<open>routing_table.cc\<close>: a sorted list of buckets whose
  prefixes partition the key space. Methods that write through a bucket pointer replace the bucket at its
  index. \<open>self\<close> is the identifier of the local node, \<open>now\<close> the clock. \<^verbatim>\<open>list_removeAll\<close> compares bucket
  pointers in the code and bucket values here; the buckets of a table have different prefixes, so both
  find the same bucket.
\<close>

type_synonym table = "kbucket list"

definition init_table :: table where
  "init_table = [mk_bucket all_prefix True]"

definition bucket_key :: "kbucket \<Rightarrow> id" where
  "bucket_key b = pid (b_prefix b)"

text \<open>\<^verbatim>\<open>RoutingTable::indexOf\<close>: a binary search over the prefixes.\<close>

function indexOf_loop :: "table \<Rightarrow> id \<Rightarrow> int \<Rightarrow> int \<Rightarrow> int \<Rightarrow> int \<Rightarrow> int" where
  "indexOf_loop bs i low high mid cmp =
     (if low \<le> high
      then let mid = drop_bit 1 (low + high);
               cmp = compareTo i (bucket_key (bs ! nat mid))
           in if cmp > 0 then indexOf_loop bs i (mid + 1) high mid cmp
              else if cmp < 0 then indexOf_loop bs i low (mid - 1) mid cmp
              else mid
      else if cmp < 0 then mid - 1 else mid)"
  by pat_completeness auto
termination
  by (relation "measure (\<lambda>(bs, i, low, high, mid, cmp). nat (high - low + 1))")
    (auto simp: drop_bit_eq_div)

declare indexOf_loop.simps [simp del]

definition indexOf :: "table \<Rightarrow> id \<Rightarrow> int" where
  "indexOf bs i = indexOf_loop bs i 0 (int (length bs) - 1) 0 0"

definition getBucket :: "table \<Rightarrow> id \<Rightarrow> kbucket" where
  "getBucket bs i = bs ! nat (indexOf bs i)"

definition setBucket :: "table \<Rightarrow> id \<Rightarrow> kbucket \<Rightarrow> table" where
  "setBucket bs i b = bs[nat (indexOf bs i) := b]"

definition getEntry :: "table \<Rightarrow> id \<Rightarrow> kbucket_entry option" where
  "getEntry bs i = b_get i (getBucket bs i)"

definition getNumBucketEntries :: "table \<Rightarrow> nat" where
  "getNumBucketEntries bs = sum_list (map (\<lambda>b. length (entries b)) bs)"

definition isHomeBucket :: "id \<Rightarrow> prefix \<Rightarrow> bool" where
  "isHomeBucket self p = isPrefixOf p self"

definition rt_refreshOnly :: "kbucket_entry \<Rightarrow> table \<Rightarrow> table" where
  "rt_refreshOnly e bs = setBucket bs (e_id e) (b_refresh e (getBucket bs (e_id e)))"

definition rt_modify :: "table \<Rightarrow> table \<Rightarrow> table \<Rightarrow> table" where
  "rt_modify toRemove toAdd bs =
     (let newBuckets = (if toRemove = [] then bs else list_removeAll bs toRemove);
          newBuckets = (if toAdd = [] then newBuckets else list_addAll newBuckets toAdd)
      in sort_key bucket_key newBuckets)"

definition split_put :: "u64 \<Rightarrow> kbucket_entry \<Rightarrow> kbucket \<times> kbucket \<Rightarrow> kbucket \<times> kbucket" where
  "split_put now e lh =
     (let (l, h) = lh in
      if isPrefixOf (b_prefix l) (e_id e) then (b_put now e l, h) else (l, b_put now e h))"

definition rt_split :: "u64 \<Rightarrow> id \<Rightarrow> kbucket \<Rightarrow> table \<Rightarrow> table" where
  "rt_split now self b bs =
     (let pl = splitBranch (b_prefix b) False;
          l = mk_bucket pl (isHomeBucket self pl);
          ph = splitBranch (b_prefix b) True;
          h = mk_bucket ph (isHomeBucket self ph);
          (l, h) = fold (split_put now) (entries b) (l, h)
      in rt_modify [b] [l, h] bs)"

definition rt_needsSplit :: "u64 \<Rightarrow> kbucket \<Rightarrow> kbucket_entry \<Rightarrow> bool" where
  "rt_needsSplit now b n =
     (if \<not> isSplittable (b_prefix b) \<or> \<not> b_isFull b \<or> \<not> reachable n \<or> b_exists (e_id n) b \<or> b_needsReplacement now b
      then False
      else isPrefixOf (splitBranch (b_prefix b) True) (e_id n))"

text \<open>\<^verbatim>\<open>RoutingTable::_put\<close>; \<open>None\<close> would be a loop that never ends.\<close>

partial_function (option) rt_put :: "u64 \<Rightarrow> id \<Rightarrow> kbucket_entry \<Rightarrow> table \<Rightarrow> table option" where
  "rt_put now self n bs =
     (let b = getBucket bs (e_id n) in
      if rt_needsSplit now b n then rt_put now self n (rt_split now self b bs)
      else Some (setBucket bs (e_id n) (b_put now n b)))"

definition rt_remove :: "u64 \<Rightarrow> id \<Rightarrow> table \<Rightarrow> table" where
  "rt_remove now i bs =
     (let b = getBucket bs i in
      case b_get i b of None \<Rightarrow> bs | Some e \<Rightarrow> setBucket bs i (b_removeIfBad now e True b))"

definition rt_onTimeout :: "u64 \<Rightarrow> id \<Rightarrow> table \<Rightarrow> table" where
  "rt_onTimeout now i bs = setBucket bs i (b_onTimeout now i (getBucket bs i))"

definition rt_onSend :: "u64 \<Rightarrow> id \<Rightarrow> table \<Rightarrow> table" where
  "rt_onSend now i bs = setBucket bs i (b_onSend now i (getBucket bs i))"

definition effectiveSize :: "kbucket \<Rightarrow> nat" where
  "effectiveSize b = length (filter (\<lambda>e. \<not> removableWithoutReplacement e) (entries b))"

definition merged_bucket :: "u64 \<Rightarrow> id \<Rightarrow> kbucket \<Rightarrow> kbucket \<Rightarrow> kbucket" where
  "merged_bucket now self b1 b2 =
     (let parent = getParent (b_prefix b1);
          newBucket = mk_bucket parent (isHomeBucket self parent);
          newBucket = fold (b_put now) (entries b1) newBucket
      in fold (b_put now) (entries b2) newBucket)"

lemma length_modify_two:
  assumes "i < length bs" and "0 < i"
  shows "length (rt_modify [bs ! (i - 1), bs ! i] [b] bs) = length bs - 1"
proof -
  have "bs = take (i - 1) bs @ bs ! (i - 1) # bs ! i # drop (Suc i) bs"
    using assms by (metis Cons_nth_drop_Suc Suc_diff_1 id_take_nth_drop less_imp_diff_less)
  then have "mset bs = add_mset (bs ! (i - 1)) (add_mset (bs ! i) (mset (take (i - 1) bs @ drop (Suc i) bs)))"
    by (metis add_mset_commute mset.simps(2) mset_append union_mset_add_mset_right)
  then have "mset (remove1 (bs ! i) (remove1 (bs ! (i - 1)) bs)) = mset (take (i - 1) bs @ drop (Suc i) bs)"
    by simp
  then have "length (remove1 (bs ! i) (remove1 (bs ! (i - 1)) bs)) = length bs - 2"
    using mset_eq_length assms by fastforce
  then show ?thesis using assms by (simp add: rt_modify_def list_removeAll_def list_addAll_append)
qed

text \<open>\<^verbatim>\<open>RoutingTable::_mergeBuckets\<close>; \<open>i\<close> is the loop variable before its increment.\<close>

function merge_loop :: "u64 \<Rightarrow> id \<Rightarrow> int \<Rightarrow> table \<Rightarrow> table" where
  "merge_loop now self i0 bs =
     (let i = i0 + 1 in
      if i < 1 then merge_loop now self i bs
      else if i \<ge> int (length bs) then bs
      else let b1 = bs ! nat (i - 1); b2 = bs ! nat i in
           if isSiblingOf (b_prefix b1) (b_prefix b2) \<and>
              effectiveSize b1 + effectiveSize b2 \<le> MAX_ENTRIES_PER_BUCKET
           then merge_loop now self (i - 2) (rt_modify [b1, b2] [merged_bucket now self b1 b2] bs)
           else merge_loop now self i bs)"
  by pat_completeness auto
termination
proof (relation "measures [\<lambda>(now, self, i, bs). length bs, \<lambda>(now, self, i, bs). nat (int (length bs) - i)]", goal_cases)
  case (3 now self i0 bs i b1 b2)
  then have "nat i < length bs" "0 < nat i" "nat (i - 1) = nat i - 1" "length bs - 1 < length bs" by auto
  then show ?case using 3 length_modify_two [of "nat i" bs "merged_bucket now self b1 b2"] by simp
qed auto

declare merge_loop.simps [simp del]

definition rt_mergeBuckets :: "u64 \<Rightarrow> id \<Rightarrow> table \<Rightarrow> table" where
  "rt_mergeBuckets now self bs = merge_loop now self 0 bs"

text \<open>
  \<^verbatim>\<open>RoutingTable::_maintenance\<close>. The loop holds an iterator of the bucket list; \<^verbatim>\<open>put\<close> reassigns that list when it
  splits a bucket, which leaves the iterator dangling: this is \<open>None\<close>. The result has the buckets for
  which \<^verbatim>\<open>tryPingMaintenance\<close> is called; that it starts no second task while one for the same bucket object is running
  (its map \<^verbatim>\<open>maintenanceTasks\<close>) is not modelled, so the result is what is asked for and not what is started.
\<close>

definition maint_entry :: "u64 \<Rightarrow> id \<Rightarrow> id list \<Rightarrow> bool \<Rightarrow> nat \<Rightarrow> kbucket_entry \<Rightarrow> table \<Rightarrow> table option" where
  "maint_entry now self bootstrapIds wasFull k e bs =
     (if e_id e = self \<or> (wasFull \<and> e_id e \<in> set bootstrapIds)
      then Some (bs[k := b_removeIfBad now e True (bs ! k)])
      else if \<not> isPrefixOf (b_prefix (bs ! k)) (e_id e)
      then case rt_put now self e (bs[k := b_removeIfBad now e True (bs ! k)]) of
             None \<Rightarrow> None
           | Some bs' \<Rightarrow> if length bs' = length bs then Some bs' else None
      else Some bs)"

definition maint_bucket :: "u64 \<Rightarrow> id \<Rightarrow> id list \<Rightarrow> nat \<Rightarrow> table \<times> prefix list \<Rightarrow> (table \<times> prefix list) option" where
  "maint_bucket now self bootstrapIds k s =
     (let (bs, refreshed) = s;
          es = entries (bs ! k);
          wasFull = length es \<ge> MAX_ENTRIES_PER_BUCKET
      in case ofold (maint_entry now self bootstrapIds wasFull k) es bs of
           None \<Rightarrow> None
         | Some bs' \<Rightarrow> Some (bs', if b_needsToBeRefreshed now (bs' ! k) then refreshed @ [b_prefix (bs' ! k)] else refreshed))"

definition rt_maintenance :: "u64 \<Rightarrow> id \<Rightarrow> id list \<Rightarrow> u64 \<times> table \<Rightarrow> (u64 \<times> table \<times> prefix list) option" where
  "rt_maintenance now self bootstrapIds s =
     (let (timeOfLastPingCheck, bs) = s in
      if now - timeOfLastPingCheck < word_of_int ROUTING_TABLE_MAINTENANCE_INTERVAL then Some (timeOfLastPingCheck, bs, [])
      else let bs1 = rt_mergeBuckets now self bs
           in map_option (\<lambda>(bs', refreshed). (now, bs', refreshed))
                (ofold (maint_bucket now self bootstrapIds) [0..<length bs1] (bs1, [])))"

text \<open>\<^verbatim>\<open>load\<close> puts the stored entries one after the other; \<^verbatim>\<open>save\<close> writes them bucket by bucket.\<close>

definition rt_load :: "u64 \<Rightarrow> id \<Rightarrow> kbucket_entry list \<Rightarrow> table \<Rightarrow> table option" where
  "rt_load now self nodes bs = ofold (rt_put now self) nodes bs"

definition rt_save :: "table \<Rightarrow> kbucket_entry list option" where
  "rt_save bs = (if getNumBucketEntries bs = 0 then None else Some (concat (map entries bs)))"

text \<open>
  \<^verbatim>\<open>pingBuckets\<close> starts one task per nonempty bucket and \<^verbatim>\<open>fillBuckets\<close> one lookup per bucket with room, whose
  refresh timer it sets. The results are the prefixes of the buckets a task is started for.
\<close>

definition pingBuckets :: "table \<Rightarrow> prefix list" where
  "pingBuckets bs = map b_prefix (filter (\<lambda>b. length (entries b) \<noteq> 0) bs)"

definition fillBuckets :: "u64 \<Rightarrow> table \<Rightarrow> table \<times> prefix list" where
  "fillBuckets now bs =
     (map (\<lambda>b. if length (entries b) < MAX_ENTRIES_PER_BUCKET then b_updateRefreshTimer now b else b) bs,
      map b_prefix (filter (\<lambda>b. length (entries b) < MAX_ENTRIES_PER_BUCKET) bs))"

section \<open>The key space is partitioned\<close>

text \<open>The buckets tile the interval \<open>[lo, hi)\<close> without gaps.\<close>

fun tiles :: "nat \<Rightarrow> table \<Rightarrow> nat \<Rightarrow> bool" where
  "tiles lo [] hi \<longleftrightarrow> lo = hi"
| "tiles lo (b # bs) hi \<longleftrightarrow> plo (b_prefix b) = lo \<and> tiles (phi (b_prefix b)) bs hi"

definition table_refs :: "table \<Rightarrow> nat list" where
  "table_refs bs = concat (map (\<lambda>b. map e_ref (entries b)) bs)"

definition rt_inv :: "table \<Rightarrow> bool" where
  "rt_inv bs \<longleftrightarrow> tiles 0 bs (2 ^ 256) \<and> (\<forall>b \<in> set bs. bucket_inv b) \<and> distinct (table_refs bs)"

definition fresh_for :: "kbucket_entry \<Rightarrow> table \<Rightarrow> bool" where
  "fresh_for n bs \<longleftrightarrow> e_ref n \<notin> set (table_refs bs)"

lemma tiles_append: "tiles lo (xs @ ys) hi \<longleftrightarrow> (\<exists>m. tiles lo xs m \<and> tiles m ys hi)"
  by (induction xs arbitrary: lo) auto

lemma tiles_le: "tiles lo bs hi \<Longrightarrow> lo \<le> hi"
proof (induction bs arbitrary: lo)
  case (Cons b bs)
  then show ?case using plo_less_phi [of "b_prefix b"] by fastforce
qed simp

lemma tiles_bounds: "tiles lo bs hi \<Longrightarrow> b \<in> set bs \<Longrightarrow> lo \<le> plo (b_prefix b) \<and> phi (b_prefix b) \<le> hi"
proof (induction bs arbitrary: lo)
  case (Cons c bs)
  then show ?case using plo_less_phi [of "b_prefix c"] tiles_le by fastforce
qed simp

lemma tiles_sorted: "tiles lo bs hi \<Longrightarrow> sorted_wrt (<) (map bucket_key bs)"
proof (induction bs arbitrary: lo)
  case (Cons b bs)
  then have "\<forall>c \<in> set bs. bucket_key b < bucket_key c"
    using tiles_bounds plo_less_phi [of "b_prefix b"]
    by (fastforce simp: id_less_iff bucket_key_def plo_def)
  then show ?case using Cons by auto
qed simp

lemma tiles_nth_next:
  "tiles lo bs hi \<Longrightarrow> Suc k < length bs \<Longrightarrow> phi (b_prefix (bs ! k)) = plo (b_prefix (bs ! Suc k))"
proof (induction bs arbitrary: lo k)
  case (Cons b bs)
  then show ?case by (cases k; cases bs) auto
qed simp

lemma tiles_last: "tiles lo bs hi \<Longrightarrow> bs \<noteq> [] \<Longrightarrow> phi (b_prefix (last bs)) = hi"
  by (induction bs arbitrary: lo) auto

lemma rt_inv_nonempty: "rt_inv bs \<Longrightarrow> bs \<noteq> []"
  by (auto simp: rt_inv_def)

lemma init_table_inv: "rt_inv init_table"
proof -
  have "prefix_copy all_prefix = all_prefix" by (simp add: prefix_copy_id wf_all_prefix)
  then show ?thesis
    by (simp add: rt_inv_def init_table_def mk_bucket_def wf_all_prefix bucket_inv_def entries_inv_def table_refs_def)
qed

section \<open>Binary search\<close>

text \<open>The loop invariant: everything below \<open>low\<close> is smaller, everything above \<open>high\<close> is larger.\<close>

definition search_inv :: "table \<Rightarrow> id \<Rightarrow> int \<Rightarrow> int \<Rightarrow> int \<Rightarrow> int \<Rightarrow> bool" where
  "search_inv bs i low high mid cmp \<longleftrightarrow>
     sorted_wrt (<) (map bucket_key bs) \<and> bs \<noteq> [] \<and> bucket_key (bs ! 0) \<le> i \<and>
     0 \<le> low \<and> high < int (length bs) \<and> low \<le> high + 1 \<and>
     (\<forall>k. int k < low \<longrightarrow> bucket_key (bs ! k) < i) \<and>
     (\<forall>k < length bs. high < int k \<longrightarrow> i < bucket_key (bs ! k)) \<and>
     (cmp > 0 \<longrightarrow> low = mid + 1) \<and> (cmp < 0 \<longrightarrow> high = mid - 1) \<and> (cmp = 0 \<longrightarrow> low \<le> high)"

lemma search_inv_step:
  assumes inv: "search_inv bs i low high mid cmp" and le: "low \<le> high"
    and m: "m = drop_bit 1 (low + high)" and c: "c = compareTo i (bucket_key (bs ! nat m))"
  shows "c > 0 \<Longrightarrow> search_inv bs i (m + 1) high m c" and "c < 0 \<Longrightarrow> search_inv bs i low (m - 1) m c"
    and "low \<le> m \<and> m \<le> high"
proof -
  show mid: "low \<le> m \<and> m \<le> high" using le by (auto simp: m drop_bit_eq_div)
  then have nm: "nat m < length bs" "int (nat m) = m" using inv by (auto simp: search_inv_def)
  have less: "bucket_key (bs ! k) < bucket_key (bs ! l)" if "k < l" "l < length bs" for k l
    using inv sorted_wrt_nth_less [of "(<)" "map bucket_key bs" k l] that by (auto simp: search_inv_def)
  show "search_inv bs i (m + 1) high m c" if "c > 0"
  proof -
    have key: "bucket_key (bs ! nat m) < i" using that c by (simp add: compareTo_greater)
    have "bucket_key (bs ! k) < i" if "int k < m + 1" for k
      using less [of k "nat m"] key that nm by (cases "k = nat m") auto
    then show ?thesis using inv mid that by (auto simp: search_inv_def)
  qed
  show "search_inv bs i low (m - 1) m c" if "c < 0"
  proof -
    have key: "i < bucket_key (bs ! nat m)" using that c by (simp add: compareTo_less)
    have "i < bucket_key (bs ! k)" if "m - 1 < int k" "k < length bs" for k
      using less [of "nat m" k] key that nm by (cases "k = nat m") auto
    then show ?thesis using inv mid that by (auto simp: search_inv_def)
  qed
qed

lemma indexOf_loop_correct:
  assumes "search_inv bs i low high mid cmp"
  shows "\<exists>r. indexOf_loop bs i low high mid cmp = int r \<and> r < length bs \<and> bucket_key (bs ! r) \<le> i \<and>
     (Suc r < length bs \<longrightarrow> i < bucket_key (bs ! Suc r))"
  using assms
proof (induction bs i low high mid cmp rule: indexOf_loop.induct)
  case (1 bs i low high mid cmp)
  note inv = "1.prems"
  show ?case
  proof (cases "low \<le> high")
    case True
    define m where "m = drop_bit 1 (low + high)"
    define c where "c = compareTo i (bucket_key (bs ! nat m))"
    note step = search_inv_step [OF inv True m_def c_def]
    have unfold: "indexOf_loop bs i low high mid cmp =
        (if c > 0 then indexOf_loop bs i (m + 1) high m c
         else if c < 0 then indexOf_loop bs i low (m - 1) m c else m)"
      using True by (simp add: indexOf_loop.simps [of bs i low high mid cmp] Let_def m_def c_def)
    consider "c > 0" | "c < 0" | "c = 0" by linarith
    then show ?thesis
    proof cases
      case 1
      then show ?thesis using "1.IH"(1) [OF True m_def c_def] step(1) unfold by auto
    next
      case 2
      then show ?thesis using "1.IH"(2) [OF True m_def c_def] step(2) unfold by auto
    next
      case 3
      then have "bucket_key (bs ! nat m) = i" by (simp add: c_def compareTo_eq)
      moreover have "nat m < length bs" "int (nat m) = m" using step(3) inv by (auto simp: search_inv_def)
      moreover have "bucket_key (bs ! nat m) < bucket_key (bs ! Suc (nat m))" if "Suc (nat m) < length bs"
        using inv sorted_wrt_nth_less [of "(<)" "map bucket_key bs" "nat m" "Suc (nat m)"] that
        by (auto simp: search_inv_def)
      ultimately show ?thesis using unfold 3 by (intro exI [of _ "nat m"]) auto
    qed
  next
    case False
    then have eq: "low = high + 1" "cmp \<noteq> 0" using inv by (auto simp: search_inv_def)
    have "0 < low"
    proof (rule ccontr)
      assume "\<not> 0 < low"
      then have "i < bucket_key (bs ! 0)" using inv eq by (auto simp: search_inv_def)
      then show False using inv by (auto simp: search_inv_def)
    qed
    then have hi: "int (nat high) = high" "nat high < length bs" "int (nat high) < low" "high < int (Suc (nat high))"
      using eq inv by (auto simp: search_inv_def)
    have "indexOf_loop bs i low high mid cmp = (if cmp < 0 then mid - 1 else mid)"
      using False by (simp add: indexOf_loop.simps [of bs i low high mid cmp])
    moreover have "(if cmp < 0 then mid - 1 else mid) = high" using eq inv by (auto simp: search_inv_def)
    ultimately have "indexOf_loop bs i low high mid cmp = high" by simp
    moreover have "bucket_key (bs ! nat high) < i" using inv hi(3) unfolding search_inv_def by blast
    moreover have "Suc (nat high) < length bs \<longrightarrow> i < bucket_key (bs ! Suc (nat high))"
      using inv hi(4) unfolding search_inv_def by blast
    ultimately show ?thesis using hi by (intro exI [of _ "nat high"]) auto
  qed
qed

text \<open>The bucket found is the one that covers the identifier, and the only one.\<close>

lemma indexOf_covers:
  assumes inv: "rt_inv bs"
  obtains r where "indexOf bs i = int r" "r < length bs" "isPrefixOf (b_prefix (bs ! r)) i"
proof -
  have til: "tiles 0 bs (2 ^ 256)" and bi: "\<And>b. b \<in> set bs \<Longrightarrow> bucket_inv b" using inv by (auto simp: rt_inv_def)
  have ne: "bs \<noteq> []" using inv by (rule rt_inv_nonempty)
  have "bucket_key (bs ! 0) \<le> i"
    using til ne by (cases bs) (auto simp: id_le_iff bucket_key_def plo_def)
  then have "search_inv bs i 0 (int (length bs) - 1) 0 0"
    using tiles_sorted [OF til] ne by (auto simp: search_inv_def Suc_leI)
  from indexOf_loop_correct [OF this] obtain r where
    r: "indexOf bs i = int r" "r < length bs" "bucket_key (bs ! r) \<le> i"
      "Suc r < length bs \<longrightarrow> i < bucket_key (bs ! Suc r)" by (auto simp: indexOf_def)
  have "id_val i < phi (b_prefix (bs ! r))"
  proof (cases "Suc r < length bs")
    case True
    then show ?thesis using r(4) tiles_nth_next [OF til True] by (simp add: id_less_iff bucket_key_def plo_def)
  next
    case False
    then have "bs ! r = last bs" using r(2) ne by (metis Suc_lessI diff_Suc_1 last_conv_nth)
    then show ?thesis using tiles_last [OF til ne] id_val_less [of i] by simp
  qed
  moreover have "wf_prefix (b_prefix (bs ! r))" using bi r(2) by (auto simp: bucket_inv_def)
  ultimately have "isPrefixOf (b_prefix (bs ! r)) i"
    using r(3) by (simp add: isPrefixOf_iff id_le_iff bucket_key_def plo_def)
  with r show thesis using that by blast
qed

lemma cover_unique:
  assumes inv: "rt_inv bs" and "j < length bs" "k < length bs"
    and "isPrefixOf (b_prefix (bs ! j)) i" "isPrefixOf (b_prefix (bs ! k)) i"
  shows "j = k"
proof (rule ccontr)
  assume "j \<noteq> k"
  have less: False if "l < m" "m < length bs" "isPrefixOf (b_prefix (bs ! l)) i" "isPrefixOf (b_prefix (bs ! m)) i" for l m
  proof -
    have til: "tiles 0 (take (Suc l) bs @ drop (Suc l) bs) (2 ^ 256)" using inv by (simp add: rt_inv_def)
    then obtain x where x: "tiles 0 (take (Suc l) bs) x" "tiles x (drop (Suc l) bs) (2 ^ 256)"
      unfolding tiles_append by blast
    have "bs ! l \<in> set (take (Suc l) bs)" using that by (auto simp: in_set_conv_nth intro!: exI [of _ l])
    then have "phi (b_prefix (bs ! l)) \<le> x" using tiles_bounds [OF x(1)] by blast
    moreover have "bs ! m \<in> set (drop (Suc l) bs)"
      using that by (auto simp: in_set_conv_nth intro!: exI [of _ "m - Suc l"])
    then have "x \<le> plo (b_prefix (bs ! m))" using tiles_bounds [OF x(2)] by blast
    moreover have "wf_prefix (b_prefix (bs ! l))" "wf_prefix (b_prefix (bs ! m))"
      using inv that by (auto simp: rt_inv_def bucket_inv_def)
    ultimately show False using that by (simp add: isPrefixOf_iff)
  qed
  show False using less [of j k] less [of k j] \<open>j \<noteq> k\<close> assms by (metis linorder_neqE_nat)
qed

end
