(* ===== verification/Routing_Invariant.thy ===== *)
theory Routing_Invariant
  imports Routing_Table
begin

text \<open>
  The invariant of the routing table under its operations: splitting a full bucket loses no entry, the
  loop of \<^verbatim>\<open>RoutingTable::_put\<close> ends, merging keeps the partition of the key space, and the lookups see
  what the updates stored.
\<close>

section \<open>Replacing a run of buckets\<close>

lemma mset_list_removeAll: "mset (list_removeAll xs rs) = mset xs - mset rs"
  unfolding list_removeAll_def by (induction rs arbitrary: xs) (auto simp: mset_remove1)

lemma sort_key_strict:
  fixes f :: "'a \<Rightarrow> 'b :: linorder"
  assumes "sorted_wrt (<) (map f ys)" and "mset xs = mset ys"
  shows "sort_key f xs = ys"
proof -
  have "sorted (map f ys)" using assms(1) by (simp add: strict_sorted_imp_sorted)
  moreover have "inj_on f (set ys)" using assms(1) by (meson distinct_map strict_sorted_iff)
  ultimately show ?thesis using assms(2) mset_eq_setD [OF assms(2)]
    by (intro sort_key_inj_key_eq) auto
qed

lemma rt_modify_replace:
  assumes "tiles lo A m" and "tiles m R n" and "tiles n C hi" and "tiles m X n" and "R \<noteq> []" and "X \<noteq> []"
  shows "rt_modify R X (A @ R @ C) = A @ X @ C" and "tiles lo (A @ X @ C) hi"
proof -
  show til: "tiles lo (A @ X @ C) hi" using assms by (auto simp: tiles_append)
  have "mset (list_addAll (list_removeAll (A @ R @ C) R) X) = mset (A @ X @ C)"
    by (simp add: list_addAll_append mset_list_removeAll)
  then show "rt_modify R X (A @ R @ C) = A @ X @ C"
    using assms(5,6) sort_key_strict [OF tiles_sorted [OF til]] by (simp add: rt_modify_def)
qed

lemma tiles_at:
  assumes "tiles lo bs hi" and "k < length bs"
  shows "tiles lo (take k bs) (plo (b_prefix (bs ! k)))" and "tiles (phi (b_prefix (bs ! k))) (drop (Suc k) bs) hi"
proof -
  have "bs = take k bs @ bs ! k # drop (Suc k) bs" using assms(2) by (rule id_take_nth_drop)
  then have "\<exists>m. tiles lo (take k bs) m \<and> tiles m (bs ! k # drop (Suc k) bs) hi"
    using assms(1) tiles_append by metis
  then show "tiles lo (take k bs) (plo (b_prefix (bs ! k)))" "tiles (phi (b_prefix (bs ! k))) (drop (Suc k) bs) hi"
    by auto
qed

section \<open>Splitting\<close>

lemma b_put_room:
  assumes "\<forall>e \<in> set (entries b). \<not> e_matches n e" and "reachable n" and "length (entries b) < MAX_ENTRIES_PER_BUCKET"
  shows "mset (entries (b_put now n b)) = add_mset n (mset (entries b))"
  using assms b_replace_insert [OF assms(1) refl, of None]
  by (simp add: b_put_def iffD2 [OF put_existing_None])

lemma split_fold:
  assumes "entries_inv p (ys @ xs)" and "P = (\<lambda>e. isPrefixOf (b_prefix l) (e_id e))"
    and "mset (entries l) = mset (filter P ys)" and "mset (entries h) = mset (filter (\<lambda>e. \<not> P e) ys)"
    and "fold (split_put now) xs (l, h) = (l', h')"
  shows "b_prefix l' = b_prefix l \<and> b_prefix h' = b_prefix h \<and>
    mset (entries l') = mset (filter P (ys @ xs)) \<and> mset (entries h') = mset (filter (\<lambda>e. \<not> P e) (ys @ xs))"
  using assms
proof (induction xs arbitrary: ys l h)
  case (Cons x xs)
  obtain l1 h1 where s: "split_put now x (l, h) = (l1, h1)" by fastforce
  have x: "reachable x" "\<forall>e \<in> set ys. \<not> e_matches x e" "length ys < MAX_ENTRIES_PER_BUCKET"
    using Cons.prems(1) by (auto simp: entries_inv_def matches_iff image_iff)
  have "set (entries l) \<subseteq> set ys" "set (entries h) \<subseteq> set ys"
    using mset_eq_setD [OF Cons.prems(3)] mset_eq_setD [OF Cons.prems(4)] by auto
  moreover have "length (entries l) \<le> length ys" "length (entries h) \<le> length ys"
    using mset_eq_length [OF Cons.prems(3)] mset_eq_length [OF Cons.prems(4)] by simp_all
  ultimately have "mset (entries (b_put now x l)) = add_mset x (mset (entries l))"
    "mset (entries (b_put now x h)) = add_mset x (mset (entries h))"
    using x by (intro b_put_room; auto)+
  then have l1: "b_prefix l1 = b_prefix l" "b_prefix h1 = b_prefix h"
    "mset (entries l1) = mset (filter P (ys @ [x]))" "mset (entries h1) = mset (filter (\<lambda>e. \<not> P e) (ys @ [x]))"
    using s Cons.prems(2-4) by (auto simp: split_put_def split: if_splits)
  have "b_prefix l' = b_prefix l1 \<and> b_prefix h' = b_prefix h1 \<and>
    mset (entries l') = mset (filter P ((ys @ [x]) @ xs)) \<and>
    mset (entries h') = mset (filter (\<lambda>e. \<not> P e) ((ys @ [x]) @ xs))"
  proof (rule Cons.IH)
    show "P = (\<lambda>e. isPrefixOf (b_prefix l1) (e_id e))" using Cons.prems(2) l1(1) by simp
    show "fold (split_put now) xs (l1, h1) = (l', h')" using Cons.prems(5) s by simp
  qed (use Cons.prems(1) l1 in auto)
  then show ?case using l1(1,2) by simp
qed auto

text \<open>
  A split replaces the bucket by the two halves of its prefix and distributes its entries over them.
\<close>

lemma rt_split_spec:
  assumes inv: "rt_inv bs" and k: "k < length bs" and b: "b = bs ! k" and sp: "isSplittable (b_prefix b)"
  obtains l h where
    "rt_split now self b bs = take k bs @ [l, h] @ drop (Suc k) bs"
    "b_prefix l = splitBranch (b_prefix b) False" "b_prefix h = splitBranch (b_prefix b) True"
    "mset (entries b) = mset (entries l) + mset (entries h)"
    "bucket_inv l" "bucket_inv h" "tiles 0 (take k bs @ [l, h] @ drop (Suc k) bs) (2 ^ 256)"
proof -
  define p where "p = b_prefix b"
  have bi: "bucket_inv b" and til: "tiles 0 bs (2 ^ 256)" using inv k b by (auto simp: rt_inv_def)
  then have wf: "wf_prefix p" and ei: "entries_inv p (entries b)" by (auto simp: bucket_inv_def p_def)
  have sp': "isSplittable p" using sp by (simp add: p_def)
  note wfs = splitBranch_interval(3) [OF wf sp'] and bnd = splitBranch_bounds [OF wf sp']
  define l0 where "l0 = mk_bucket (splitBranch p False) (isHomeBucket self (splitBranch p False))"
  define h0 where "h0 = mk_bucket (splitBranch p True) (isHomeBucket self (splitBranch p True))"
  have pre0: "b_prefix l0 = splitBranch p False" "b_prefix h0 = splitBranch p True" "entries l0 = []" "entries h0 = []"
    by (simp_all add: l0_def h0_def mk_bucket_def prefix_copy_id wfs)
  obtain l h where f: "fold (split_put now) (entries b) (l0, h0) = (l, h)" by fastforce
  define P :: "kbucket_entry \<Rightarrow> bool" where "P = (\<lambda>e. isPrefixOf (splitBranch p False) (e_id e))"
  have lh: "b_prefix l = splitBranch p False \<and> b_prefix h = splitBranch p True \<and>
    mset (entries l) = mset (filter P (entries b)) \<and> mset (entries h) = mset (filter (\<lambda>e. \<not> P e) (entries b))"
    using split_fold [of p "[]" "entries b" P l0 h0 now l h] ei f by (simp add: pre0 P_def)
  have "isPrefixOf (splitBranch p True) (e_id e)" if "e \<in> set (entries b)" "\<not> P e" for e
    using that ei isPrefixOf_iff [OF wf] bnd by (fastforce simp: P_def entries_inv_def isPrefixOf_iff [OF wfs])
  then have "entries_inv (splitBranch p False) (filter P (entries b))"
    "entries_inv (splitBranch p True) (filter (\<lambda>e. \<not> P e) (entries b))"
    using entries_inv_filter [OF ei, of P] entries_inv_filter [OF ei, of "\<lambda>e. \<not> P e"] by (auto simp: entries_inv_def P_def)
  then have inv': "bucket_inv l" "bucket_inv h" using lh entries_inv_mset wfs by (auto simp: bucket_inv_def)
  have bs: "bs = take k bs @ [b] @ drop (Suc k) bs" using id_take_nth_drop [OF k] b by simp
  have tb: "tiles (plo p) [b] (phi p)" and tl: "tiles (plo p) [l, h] (phi p)" using lh bnd by (auto simp: p_def)
  note at = tiles_at [OF til k, folded b, folded p_def]
  note mod = rt_modify_replace [OF at(1) tb at(2) tl, simplified, folded bs]
  have "rt_split now self b bs = rt_modify [b] [l, h] bs"
    using f by (simp add: rt_split_def Let_def p_def l0_def h0_def)
  moreover have "rt_modify [b] [l, h] bs = take k bs @ [l, h] @ drop (Suc k) bs" using mod(1) bs by simp
  moreover have "mset (entries b) = mset (entries l) + mset (entries h)" using lh by (simp add: multiset_partition)
  ultimately show ?thesis using that [of l h] lh inv' mod(2) by (simp add: p_def)
qed

section \<open>The entries of a table\<close>

definition all_entries :: "table \<Rightarrow> kbucket_entry list" where
  "all_entries bs = concat (map entries bs)"

lemma table_refs_entries: "table_refs bs = map e_ref (all_entries bs)"
  by (simp add: table_refs_def all_entries_def map_concat comp_def)

lemma all_entries_append [simp]: "all_entries (xs @ ys) = all_entries xs @ all_entries ys"
  by (simp add: all_entries_def)

lemma all_entries_Cons [simp]: "all_entries (b # bs) = entries b @ all_entries bs" "all_entries [] = []"
  by (simp_all add: all_entries_def)

lemma all_entries_at: "k < length bs \<Longrightarrow> mset (all_entries bs) = mset (entries (bs ! k)) + mset (all_entries (take k bs @ drop (Suc k) bs))"
  by (subst id_take_nth_drop [of k bs]) (simp_all add: ac_simps)

lemma distinct_refs_mset:
  "mset (all_entries bs') = mset (all_entries bs) \<Longrightarrow> distinct (table_refs bs') = distinct (table_refs bs)"
  unfolding table_refs_entries by (rule mset_eq_imp_distinct_iff) (metis mset_map)

lemma rt_split_inv:
  assumes "rt_inv bs" and "k < length bs" and "b = bs ! k" and "isSplittable (b_prefix b)"
  shows "rt_inv (rt_split now self b bs)"
    and "mset (all_entries (rt_split now self b bs)) = mset (all_entries bs)"
proof -
  obtain l h where s: "rt_split now self b bs = take k bs @ [l, h] @ drop (Suc k) bs"
    "mset (entries b) = mset (entries l) + mset (entries h)"
    "bucket_inv l" "bucket_inv h" "tiles 0 (take k bs @ [l, h] @ drop (Suc k) bs) (2 ^ 256)"
    using rt_split_spec [OF assms] by metis
  show m: "mset (all_entries (rt_split now self b bs)) = mset (all_entries bs)"
    using all_entries_at [OF assms(2)] s(2) unfolding s(1) by (simp add: assms(3))
  have "\<forall>c \<in> set (rt_split now self b bs). bucket_inv c"
    using s(3,4) assms(1) by (auto simp: s(1) rt_inv_def dest: in_set_takeD in_set_dropD)
  then show "rt_inv (rt_split now self b bs)"
    using s(1,5) distinct_refs_mset [OF m] assms(1) by (simp add: rt_inv_def)
qed

text \<open>Updating the bucket at an index.\<close>

lemma tiles_update: "b_prefix b = b_prefix (bs ! k) \<Longrightarrow> tiles lo (bs[k := b]) hi = tiles lo bs hi"
proof (induction bs arbitrary: lo k)
  case (Cons c bs)
  then show ?case by (cases k) auto
qed simp

lemma rt_update_inv:
  assumes inv: "rt_inv bs" and k: "k < length bs" and b: "b_prefix b = b_prefix (bs ! k)" "bucket_inv b"
    and refs: "e_ref ` set (entries b) \<subseteq> e_ref ` set (entries (bs ! k)) \<union> R" and R: "R \<inter> set (table_refs bs) = {}"
  shows "rt_inv (bs[k := b])"
proof -
  define rest where "rest = take k bs @ drop (Suc k) bs"
  have old: "mset (table_refs bs) = mset (map e_ref (entries (bs ! k))) + mset (map e_ref (all_entries rest))"
    using all_entries_at [OF k] by (simp add: table_refs_entries rest_def)
  have "bs[k := b] = take k bs @ b # drop (Suc k) bs" using k by (rule upd_conv_take_nth_drop)
  then have new: "mset (table_refs (bs[k := b])) = mset (map e_ref (entries b) @ map e_ref (all_entries rest))"
    by (simp add: table_refs_entries rest_def)
  have "distinct (map e_ref (entries (bs ! k)) @ map e_ref (all_entries rest))"
    using inv old by (metis rt_inv_def mset_append mset_eq_imp_distinct_iff)
  moreover have "set (table_refs bs) = e_ref ` set (entries (bs ! k)) \<union> e_ref ` set (all_entries rest)"
    using old mset_eq_setD [of "table_refs bs" "map e_ref (entries (bs ! k)) @ map e_ref (all_entries rest)"] by simp
  ultimately have "distinct (map e_ref (entries b) @ map e_ref (all_entries rest))"
  proof -
    assume "distinct (map e_ref (entries (bs ! k)) @ map e_ref (all_entries rest))"
      and "set (table_refs bs) = e_ref ` set (entries (bs ! k)) \<union> e_ref ` set (all_entries rest)"
    then have "e_ref ` set (entries b) \<inter> e_ref ` set (all_entries rest) = {}" "distinct (map e_ref (all_entries rest))"
      using refs R by auto blast
    then show ?thesis using b(2) by (simp add: bucket_inv_def entries_inv_def)
  qed
  then have "distinct (table_refs (bs[k := b]))" using new mset_eq_imp_distinct_iff by metis
  moreover have "\<forall>c \<in> set (bs[k := b]). bucket_inv c"
    using inv b(2) set_update_subset_insert [of bs k b] by (auto simp: rt_inv_def)
  ultimately show ?thesis using inv b(1) by (simp add: rt_inv_def tiles_update)
qed

text \<open>Reading and writing the bucket of an identifier.\<close>

lemma getBucket_at:
  assumes "rt_inv bs"
  obtains k where "nat (indexOf bs i) = k" "k < length bs" "getBucket bs i = bs ! k" "isPrefixOf (b_prefix (bs ! k)) i"
    "\<And>b. setBucket bs i b = bs[k := b]"
proof -
  obtain r where "indexOf bs i = int r" "r < length bs" "isPrefixOf (b_prefix (bs ! r)) i"
    using indexOf_covers [OF assms] by metis
  then show ?thesis using that [of r] by (simp add: getBucket_def setBucket_def)
qed

lemma getBucket_unique:
  assumes "rt_inv bs" and "b \<in> set bs" and "isPrefixOf (b_prefix b) i"
  shows "getBucket bs i = b"
proof -
  obtain k where k: "k < length bs" "getBucket bs i = bs ! k" "isPrefixOf (b_prefix (bs ! k)) i"
    using getBucket_at [OF assms(1)] by metis
  obtain j where "j < length bs" "bs ! j = b" using assms(2) by (auto simp: in_set_conv_nth)
  then show ?thesis using cover_unique [OF assms(1), of j k i] k assms(3) by metis
qed

lemma getBucket_inv: "rt_inv bs \<Longrightarrow> bucket_inv (getBucket bs i)"
  by (metis getBucket_at nth_mem rt_inv_def)

section \<open>Insertion\<close>

lemma needsSplit_cases:
  assumes "rt_needsSplit now b n"
  shows "isSplittable (b_prefix b)" and "b_isFull b" and "isPrefixOf (splitBranch (b_prefix b) True) (e_id n)"
  using assms by (auto simp: rt_needsSplit_def split: if_splits)

lemma getBucket_split:
  assumes inv: "rt_inv bs" and ns: "rt_needsSplit now (getBucket bs (e_id n)) n"
    and bs1_def: "bs1 = rt_split now self (getBucket bs (e_id n)) bs"
  shows "rt_inv bs1" and "mset (all_entries bs1) = mset (all_entries bs)"
    and "b_prefix (getBucket bs1 (e_id n)) = splitBranch (b_prefix (getBucket bs (e_id n))) True"
proof -
  obtain k where k: "k < length bs" "getBucket bs (e_id n) = bs ! k" using getBucket_at [OF inv] by metis
  note sp = needsSplit_cases [OF ns]
  show inv1: "rt_inv bs1" and "mset (all_entries bs1) = mset (all_entries bs)"
    using rt_split_inv [OF inv k sp(1)] by (simp_all add: bs1_def)
  obtain l h where lh: "bs1 = take k bs @ [l, h] @ drop (Suc k) bs" "b_prefix h = splitBranch (b_prefix (getBucket bs (e_id n))) True"
    unfolding bs1_def using rt_split_spec [OF inv k sp(1)] by metis
  then have "getBucket bs1 (e_id n) = h" using sp(3) by (intro getBucket_unique [OF inv1]) auto
  then show "b_prefix (getBucket bs1 (e_id n)) = splitBranch (b_prefix (getBucket bs (e_id n))) True" using lh(2) by simp
qed

lemma setBucket_put:
  assumes inv: "rt_inv bs" and fresh: "fresh_for n bs"
  defines "b \<equiv> getBucket bs (e_id n)"
  shows "rt_inv (setBucket bs (e_id n) (b_put now n b))"
    and "\<exists>X X' Z. mset (all_entries bs) = X + Z \<and> mset (all_entries (setBucket bs (e_id n) (b_put now n b))) = X' + Z \<and>
           put_spec now n X X'"
proof -
  obtain k where k: "k < length bs" "b = bs ! k" "isPrefixOf (b_prefix (bs ! k)) (e_id n)" "\<And>c. setBucket bs (e_id n) c = bs[k := c]"
    unfolding b_def using getBucket_at [OF inv] by metis
  have bi: "bucket_inv b" unfolding b_def by (rule getBucket_inv [OF inv])
  have "e_ref ` set (entries b) \<subseteq> set (table_refs bs)" using k by (auto simp: table_refs_def intro!: bexI [of _ "bs ! k"])
  then have "fresh_in n b" using fresh by (auto simp: fresh_in_def fresh_for_def)
  then have "bucket_inv (b_put now n b)" using b_put_inv [OF bi] k by simp
  then show "rt_inv (setBucket bs (e_id n) (b_put now n b))"
    using rt_update_inv [OF inv k(1), of "b_put now n b" "{e_ref n}"] bi b_put_refs [of "b_prefix b" b now n] fresh k
    by (simp add: bucket_inv_def fresh_for_def)
  have "mset (all_entries (bs[k := b_put now n b])) =
    mset (entries (b_put now n b)) + mset (all_entries (take k bs @ drop (Suc k) bs))"
    using all_entries_at [of k "bs[k := b_put now n b]"] k(1) by simp
  then show "\<exists>X X' Z. mset (all_entries bs) = X + Z \<and> mset (all_entries (setBucket bs (e_id n) (b_put now n b))) = X' + Z \<and>
           put_spec now n X X'"
    using all_entries_at [OF k(1)] b_put_refines [of "b_prefix b" b now n] bi k(2,4) by (metis bucket_inv_def)
qed

text \<open>
  The loop ends, since every split moves to a longer prefix; what it ends with is one insertion into the bucket of the
  node, in a table that has the entries of the first. A bucket that has room is not split.
\<close>

lemma rt_put_at:
  assumes "rt_inv bs" and "fresh_for n bs"
  obtains bs1 where "rt_put now self n bs = Some (setBucket bs1 (e_id n) (b_put now n (getBucket bs1 (e_id n))))"
    "rt_inv bs1" "fresh_for n bs1" "mset (all_entries bs1) = mset (all_entries bs)" "\<not> rt_needsSplit now (getBucket bs1 (e_id n)) n"
    "\<not> rt_needsSplit now (getBucket bs (e_id n)) n \<Longrightarrow> bs1 = bs"
proof -
  have "\<exists>bs1. rt_put now self n bs = Some (setBucket bs1 (e_id n) (b_put now n (getBucket bs1 (e_id n)))) \<and>
    rt_inv bs1 \<and> fresh_for n bs1 \<and> mset (all_entries bs1) = mset (all_entries bs) \<and> \<not> rt_needsSplit now (getBucket bs1 (e_id n)) n \<and>
    (\<not> rt_needsSplit now (getBucket bs (e_id n)) n \<longrightarrow> bs1 = bs)"
    using assms
  proof (induction "nat (256 - depth (b_prefix (getBucket bs (e_id n))))" arbitrary: bs rule: less_induct)
    case less
    let ?b = "getBucket bs (e_id n)"
    show ?case
    proof (cases "rt_needsSplit now ?b n")
      case False
      then show ?thesis using less.prems by (intro exI [of _ bs]) (simp add: rt_put.simps Let_def)
    next
      case True
      define bs1 where "bs1 = rt_split now self ?b bs"
      note s = getBucket_split [OF less.prems(1) True bs1_def]
      have wf: "wf_prefix (b_prefix ?b)" using getBucket_inv [OF less.prems(1)] by (simp add: bucket_inv_def)
      then have "depth (b_prefix (getBucket bs1 (e_id n))) = depth (b_prefix ?b) + 1" "depth (b_prefix ?b) < 256"
        using s(3) splitBranch_interval(4) [OF wf needsSplit_cases(1) [OF True]] by (auto simp: wf_prefix_def)
      moreover have "fresh_for n bs1"
        using less.prems(2) mset_eq_setD [OF s(2)] by (simp add: fresh_for_def table_refs_entries)
      moreover have "rt_put now self n bs = rt_put now self n bs1"
        using True by (subst rt_put.simps) (simp add: Let_def bs1_def)
      ultimately show ?thesis using less.hyps [OF _ s(1)] s(2) True by auto
    qed
  qed
  then show thesis using that by blast
qed

lemma rt_put_correct:
  assumes "rt_inv bs" and "fresh_for n bs"
  obtains bs' X X' Z where "rt_put now self n bs = Some bs'" "rt_inv bs'"
    "mset (all_entries bs) = X + Z" "mset (all_entries bs') = X' + Z" "put_spec now n X X'"
  using rt_put_at [OF assms, of now self] setBucket_put [of _ n now] by metis

text \<open>The entries of a bucket are those of the table with its prefix.\<close>

definition within :: "prefix \<Rightarrow> kbucket_entry \<Rightarrow> bool" where
  "within p e = isPrefixOf p (e_id e)"

lemma entries_within:
  assumes inv: "rt_inv bs" and k: "k < length bs"
  shows "filter_mset (within (b_prefix (bs ! k))) (mset (all_entries bs)) = mset (entries (bs ! k))"
    and "filter_mset (\<lambda>e. \<not> within (b_prefix (bs ! k)) e) (mset (all_entries bs)) = mset (all_entries (take k bs @ drop (Suc k) bs))"
proof -
  let ?p = "b_prefix (bs ! k)"
  have own: "within (b_prefix b) e" if "b \<in> set bs" "e \<in> set (entries b)" for b e
    using inv that by (auto simp: rt_inv_def bucket_inv_def entries_inv_def within_def)
  have i: "\<forall>e \<in> set (entries (bs ! k)). within ?p e" using own k by simp
  have o: "\<forall>e \<in> set (all_entries (take k bs @ drop (Suc k) bs)). \<not> within ?p e"
  proof
    fix e assume "e \<in> set (all_entries (take k bs @ drop (Suc k) bs))"
    then obtain b where b: "b \<in> set (take k bs) \<union> set (drop (Suc k) bs)" "e \<in> set (entries b)" by (auto simp: all_entries_def)
    have "\<exists>j. j < length bs \<and> j \<noteq> k \<and> bs ! j = b"
    proof (cases "b \<in> set (take k bs)")
      case True
      then obtain j where "j < k" "bs ! j = b" using k by (auto simp: in_set_conv_nth)
      then show ?thesis using k by (intro exI [of _ j]) simp
    next
      case False
      then obtain j where "j < length bs - Suc k" "bs ! (Suc k + j) = b" using b(1) k by (auto simp: in_set_conv_nth)
      then show ?thesis by (intro exI [of _ "Suc k + j"]) auto
    qed
    then obtain j where j: "j < length bs" "j \<noteq> k" "bs ! j = b" by blast
    then show "\<not> within ?p e" using cover_unique [OF inv j(1) k, of "e_id e"] own [of b e] b(2) by (auto simp: within_def)
  qed
  show "filter_mset (within ?p) (mset (all_entries bs)) = mset (entries (bs ! k))"
    "filter_mset (\<lambda>e. \<not> within ?p e) (mset (all_entries bs)) = mset (all_entries (take k bs @ drop (Suc k) bs))"
    unfolding all_entries_at [OF k] using i o by (simp_all add: filter_mset_eq_conv mset_filter [symmetric] filter_id_conv del: mset_filter)
qed

section \<open>Lookups\<close>

lemma b_get_iff:
  assumes "distinct (map e_id (entries b))"
  shows "b_get i b = Some e \<longleftrightarrow> e \<in> set (entries b) \<and> e_id e = i"
proof
  assume "b_get i b = Some e"
  then show "e \<in> set (entries b) \<and> e_id e = i" using find_Some_in by (fastforce simp: b_get_def findAny_def)
next
  assume e: "e \<in> set (entries b) \<and> e_id e = i"
  then obtain f where f: "b_get i b = Some f" "f \<in> set (entries b)" "e_id f = i"
    unfolding b_get_def findAny_def by (metis (mono_tags, lifting) find_Some_in find_eq_None not_None_eq)
  then show "b_get i b = Some e" using assms e by (auto simp: distinct_map inj_on_def)
qed

lemma bucket_of_entry:
  assumes "rt_inv bs" and "b \<in> set bs" and "e \<in> set (entries b)"
  shows "getBucket bs (e_id e) = b"
proof -
  have "bucket_inv b" using assms(1,2) by (simp add: rt_inv_def)
  then have "isPrefixOf (b_prefix b) (e_id e)" using assms(3) by (simp add: bucket_inv_def entries_inv_def)
  then show ?thesis by (rule getBucket_unique [OF assms(1,2)])
qed

lemma getEntry_iff:
  assumes "rt_inv bs"
  shows "getEntry bs i = Some e \<longleftrightarrow> e \<in> set (all_entries bs) \<and> e_id e = i"
proof -
  obtain k where k: "k < length bs" "getBucket bs i = bs ! k" using getBucket_at [OF assms] by metis
  have d: "distinct (map e_id (entries (getBucket bs i)))"
    using getBucket_inv [OF assms] by (simp add: bucket_inv_def entries_inv_def)
  have "e \<in> set (entries (getBucket bs i)) \<longleftrightarrow> e \<in> set (all_entries bs)" if "e_id e = i"
    using that bucket_of_entry [OF assms] k nth_mem [OF k(1)] unfolding all_entries_def by fastforce
  then show ?thesis unfolding getEntry_def b_get_iff [OF d] by blast
qed

lemma getEntry_eqI:
  assumes "rt_inv bs" and "rt_inv bs'" and "\<And>e. e_id e = i \<Longrightarrow> e \<in> set (all_entries bs') \<longleftrightarrow> e \<in> set (all_entries bs)"
  shows "getEntry bs' i = getEntry bs i"
  using assms(3) getEntry_iff [OF assms(1), of i] getEntry_iff [OF assms(2), of i] by (metis not_None_eq)

section \<open>Updates of one bucket\<close>

lemma setBucket_inv:
  assumes inv: "rt_inv bs" and f: "\<And>b. b_prefix (f b) = b_prefix b" "\<And>b. bucket_inv b \<Longrightarrow> bucket_inv (f b)"
    "\<And>b. e_ref ` set (entries (f b)) \<subseteq> e_ref ` set (entries b)"
  shows "rt_inv (setBucket bs i (f (getBucket bs i)))"
proof -
  obtain k where k: "k < length bs" "getBucket bs i = bs ! k" "\<And>c. setBucket bs i c = bs[k := c]"
    using getBucket_at [OF inv] by metis
  show ?thesis unfolding k(2,3)
    using inv k(1) f getBucket_inv [OF inv, of i] by (intro rt_update_inv [where R = "{}"]) (auto simp: k(2))
qed

lemma removeIfBad_refs: "set (entries (b_removeIfBad now e force b)) \<subseteq> set (entries b)"
  by (auto simp: b_removeIfBad_def b_replace_remove)

lemma removeIfBad_prefix [simp]: "b_prefix (b_removeIfBad now e force b) = b_prefix b"
  by (simp add: b_removeIfBad_def)

lemma update_first_refs: "(\<And>e. e_ref (f e) = e_ref e) \<Longrightarrow> e_ref ` set (update_first P f es) = e_ref ` set es"
  by (metis list.set_map map_update_first)

lemma onTimeout_frame:
  "b_prefix (b_onTimeout now i b) = b_prefix b" "e_ref ` set (entries (b_onTimeout now i b)) \<subseteq> e_ref ` set (entries b)"
proof -
  show "b_prefix (b_onTimeout now i b) = b_prefix b" by (simp add: b_onTimeout_def Let_def split: option.splits)
  define b' where "b' = b\<lparr>entries := update_first (\<lambda>e. e_id e = i) signalRequestTimeout (entries b)\<rparr>"
  have "e_ref ` set (entries b') = e_ref ` set (entries b)" by (simp add: b'_def update_first_refs entry_frame)
  moreover have "set (entries (b_onTimeout now i b)) \<subseteq> set (entries b) \<or> set (entries (b_onTimeout now i b)) \<subseteq> set (entries b')"
    using removeIfBad_refs [of now _ False b'] by (simp add: b_onTimeout_def b'_def [symmetric] Let_def split: option.splits)
  ultimately show "e_ref ` set (entries (b_onTimeout now i b)) \<subseteq> e_ref ` set (entries b)" by (metis image_mono)
qed

lemma rt_onTimeout_inv: "rt_inv bs \<Longrightarrow> rt_inv (rt_onTimeout now i bs)"
  unfolding rt_onTimeout_def using onTimeout_frame by (intro setBucket_inv b_onTimeout_inv) auto

lemma rt_onSend_inv: "rt_inv bs \<Longrightarrow> rt_inv (rt_onSend now i bs)"
  unfolding rt_onSend_def
  by (intro setBucket_inv b_onSend_inv) (simp_all add: b_onSend_def update_first_refs entry_frame)

lemma rt_refreshOnly_inv: "rt_inv bs \<Longrightarrow> rt_inv (rt_refreshOnly e bs)"
  unfolding rt_refreshOnly_def
  by (intro setBucket_inv b_refresh_inv) (simp_all add: b_refresh_def update_first_refs entry_frame)

lemma removeIfBad_set:
  assumes "bucket_inv b" and "e \<in> set (entries b)"
  shows "set (entries (b_removeIfBad now e True b)) = set (entries b) - {e}"
  using assms by (auto simp: b_removeIfBad_def anyMatch_iff b_replace_remove bucket_inv_def entries_inv_def distinct_map inj_on_def)

lemma all_entries_update:
  assumes "k < length bs"
  shows "set (all_entries (bs[k := b])) = set (entries b) \<union> set (all_entries (take k bs @ drop (Suc k) bs))"
  using upd_conv_take_nth_drop [OF assms, of b] by auto

lemma rt_remove_spec:
  assumes inv: "rt_inv bs"
  shows "rt_inv (rt_remove now i bs)"
    and "set (all_entries (rt_remove now i bs)) = {e \<in> set (all_entries bs). e_id e \<noteq> i}"
proof -
  obtain k where k: "k < length bs" "getBucket bs i = bs ! k" "\<And>c. setBucket bs i c = bs[k := c]"
    using getBucket_at [OF inv] by metis
  have bi: "bucket_inv (bs ! k)" using getBucket_inv [OF inv, of i] by (simp add: k(2))
  have res: "rt_inv (rt_remove now i bs) \<and> set (all_entries (rt_remove now i bs)) = {e \<in> set (all_entries bs). e_id e \<noteq> i}"
  proof (cases "getEntry bs i")
    case None
    then have "\<forall>e \<in> set (all_entries bs). e_id e \<noteq> i" using getEntry_iff [OF inv] by (metis option.distinct(1))
    then show ?thesis using inv None by (auto simp: rt_remove_def getEntry_def)
  next
    case (Some e)
    have eq: "rt_remove now i bs = bs[k := b_removeIfBad now e True (bs ! k)]"
      using Some k by (simp add: rt_remove_def getEntry_def)
    have e: "e \<in> set (entries (bs ! k))" "e_id e = i"
      using Some bi b_get_iff by (auto simp: getEntry_def k(2) bucket_inv_def entries_inv_def)
    have "rt_inv (bs[k := b_removeIfBad now e True (bs ! k)])"
      using inv k(1) removeIfBad_refs [of now e True "bs ! k"] b_removeIfBad_inv [OF bi]
      by (intro rt_update_inv [where R = "{}"]) auto
    moreover have "f = e" if "f \<in> set (all_entries bs)" "e_id f = i" for f
      using that Some getEntry_iff [OF inv, of i] by (metis option.inject)
    moreover have "distinct (map e_ref (all_entries bs))" using inv by (simp add: rt_inv_def table_refs_entries)
    then have "e \<notin> set (all_entries (take k bs @ drop (Suc k) bs))"
      using all_entries_at [OF k(1)] e(1)
      by (metis disjoint_iff distinct_append distinct_map mset_append mset_eq_imp_distinct_iff set_mset_mset)
    moreover have "set (all_entries bs) = set (entries (bs ! k)) \<union> set (all_entries (take k bs @ drop (Suc k) bs))"
      using all_entries_update [OF k(1), of "bs ! k"] by simp
    ultimately show ?thesis unfolding eq
      using removeIfBad_set [OF bi e(1), of now] all_entries_update [OF k(1)] e(2) by auto
  qed
  show "rt_inv (rt_remove now i bs)" using res by blast
  show "set (all_entries (rt_remove now i bs)) = {e \<in> set (all_entries bs). e_id e \<noteq> i}" using res by blast
qed

lemma getEntry_remove:
  assumes "rt_inv bs"
  shows "getEntry (rt_remove now i bs) j = (if j = i then None else getEntry bs j)"
  using rt_remove_spec [OF assms, of now i] getEntry_iff [of "rt_remove now i bs" j] getEntry_eqI [OF assms, of "rt_remove now i bs" j]
  by (auto simp: set_eq_iff) (metis not_None_eq)

end
