(* ===== verification/KClosest.thy ===== *)
theory KClosest
  imports Routing_Invariant
begin

text \<open>
  The search for the nodes closest to a target in the routing table, \<^verbatim>\<open>src/core/kclosest_nodes.cc\<close>: starting
  at the bucket of the target it walks outwards until enough eligible entries are collected, adds
  bootstrap nodes and the node itself when there are too few, and cuts the list to size.
\<close>

definition kc_insertEntries :: "(kbucket_entry \<Rightarrow> bool) \<Rightarrow> kbucket \<Rightarrow> kbucket_entry list \<Rightarrow> kbucket_entry list" where
  "kc_insertEntries f b es = fold (\<lambda>e es. if f e then es @ [e] else es) (entries b) es"

definition kc_shave :: "id \<Rightarrow> nat \<Rightarrow> kbucket_entry list \<Rightarrow> kbucket_entry list" where
  "kc_shave target maxEntries es =
     (let overshoot = int (length es) - int maxEntries in
      if overshoot \<le> 0 then es
      else take (length es - nat overshoot) (sort_by (\<lambda>a b. threeWayCompare target (e_id a) (e_id b) < 0) es))"

text \<open>The loop of \<^verbatim>\<open>fill\<close>; \<open>low\<close> and \<open>high\<close> are the indices of the outermost buckets visited.\<close>

function kc_walk :: "id \<Rightarrow> (kbucket_entry \<Rightarrow> bool) \<Rightarrow> nat \<Rightarrow> table \<Rightarrow> nat \<Rightarrow> nat \<Rightarrow> kbucket_entry list \<Rightarrow> kbucket_entry list" where
  "kc_walk target f maxEntries bs low high es =
     (if length es < maxEntries then
        let hasLow = low > 0;
            hasHigh = high < length bs - 1
        in if \<not> hasLow \<and> \<not> hasHigh then es
           else if \<not> hasLow then
             kc_walk target f maxEntries bs low (high + 1) (kc_insertEntries f (bs ! (high + 1)) es)
           else if \<not> hasHigh then
             kc_walk target f maxEntries bs (low - 1) high (kc_insertEntries f (bs ! (low - 1)) es)
           else
             let lowBucket = bs ! (low - 1);
                 highBucket = bs ! (high + 1);
                 dir = threeWayCompare target (prefix_last (b_prefix lowBucket)) (prefix_first (b_prefix highBucket))
             in if dir < 0 then kc_walk target f maxEntries bs (low - 1) high (kc_insertEntries f lowBucket es)
                else if dir > 0 then kc_walk target f maxEntries bs low (high + 1) (kc_insertEntries f highBucket es)
                else kc_walk target f maxEntries bs (low - 1) (high + 1)
                       (kc_insertEntries f highBucket (kc_insertEntries f lowBucket es))
      else es)"
  by pat_completeness auto
termination
  by (relation "measure (\<lambda>(target, f, maxEntries, bs, low, high, es). low + (length bs - high))") auto

declare kc_walk.simps [simp del]

text \<open>
  \<^verbatim>\<open>KClosestNodes::fill\<close>. The bootstrap nodes of the configuration are passed as they are after the cast to
  entries, \<open>selfEntry\<close> is the entry made for the local node.
\<close>

definition kc_fill ::
  "id \<Rightarrow> (kbucket_entry \<Rightarrow> bool) \<Rightarrow> nat \<Rightarrow> table \<Rightarrow> network \<Rightarrow> kbucket_entry list \<Rightarrow> kbucket_entry \<Rightarrow> bool \<Rightarrow>
   kbucket_entry list" where
  "kc_fill target f maxEntries bs type bootstrapNodes selfEntry includeSelf =
     (let idx = nat (indexOf bs target);
          es = kc_insertEntries f (bs ! idx) [];
          es = kc_walk target f maxEntries bs idx idx es;
          es = (if length es < maxEntries
                then es @ filter (\<lambda>b. canUseSocketAddress type (e_addr b)) bootstrapNodes else es);
          es = (if length es < maxEntries \<and> includeSelf then es @ [selfEntry] else es)
      in kc_shave target maxEntries es)"

section \<open>Properties\<close>

lemma kc_insertEntries_append: "kc_insertEntries f b es = es @ filter f (entries b)"
proof -
  have "fold (\<lambda>e es. if f e then es @ [e] else es) xs es = es @ filter f xs" for xs
    by (induction xs arbitrary: es) auto
  then show ?thesis by (simp add: kc_insertEntries_def)
qed

lemma kc_shave_sort:
  "kc_shave target k es = (if length es \<le> k then es else take k (sort_key (\<lambda>e. id_val (distance target (e_id e))) es))"
proof -
  have "sort_by (\<lambda>a b. threeWayCompare target (e_id a) (e_id b) < 0) es = sort_key (\<lambda>e. id_val (distance target (e_id e))) es"
    by (rule sort_by_key) (rule threeWayCompare_less)
  moreover have "length es - nat (int (length es) - int k) = k" if "k < length es" using that by simp
  ultimately show ?thesis by (auto simp: kc_shave_def Let_def)
qed

lemma length_kc_shave: "length (kc_shave target k es) = min k (length es)"
  by (auto simp: kc_shave_sort)

lemma set_kc_shave: "set (kc_shave target k es) \<subseteq> set es"
  by (auto simp: kc_shave_sort dest: in_set_takeD)

lemma mset_kc_shave: "mset (kc_shave target k es) \<subseteq># mset es"
proof -
  have "mset (take k xs) \<subseteq># mset xs" for xs :: "kbucket_entry list"
    by (metis append_take_drop_id mset_append mset_subset_eq_add_left)
  from this [of "sort_key (\<lambda>e. id_val (distance target (e_id e))) es"] show ?thesis by (simp add: kc_shave_sort)
qed

text \<open>What is cut is no closer to the target than what stays.\<close>

lemma kc_shave_closest:
  assumes "mset es = mset (kc_shave target k es) + D" and "x \<in># D" and "y \<in> set (kc_shave target k es)"
  shows "id_val (distance target (e_id y)) \<le> id_val (distance target (e_id x))"
proof (cases "length es \<le> k")
  case True
  then show ?thesis using assms by (simp add: kc_shave_sort)
next
  case False
  let ?f = "\<lambda>e. id_val (distance target (e_id e))"
  let ?s = "sort_key ?f es"
  have sh: "kc_shave target k es = take k ?s" using False by (simp add: kc_shave_sort)
  have "mset (take k ?s) + mset (drop k ?s) = mset es" by (metis append_take_drop_id mset_append mset_sort)
  then have "D = mset (drop k ?s)" using assms(1) unfolding sh by (metis add_left_imp_eq)
  then have x: "x \<in> set (drop k ?s)" using assms(2) by simp
  have "sorted (map ?f (take k ?s @ drop k ?s))" by simp
  then have "\<forall>a \<in> set (take k ?s). \<forall>b \<in> set (drop k ?s). ?f a \<le> ?f b"
    unfolding map_append sorted_append by simp
  then show ?thesis using assms(3) x unfolding sh by blast
qed

text \<open>
  A distance is below \<open>2 ^ p\<close> in the aligned block of \<open>2 ^ p\<close> identifiers around the target. Aligned blocks are nested or disjoint;
  the walk goes through the blocks around the target from the smallest to the largest.
\<close>

definition kc_dist :: "id \<Rightarrow> kbucket_entry \<Rightarrow> nat" where
  "kc_dist target e = id_val (distance target (e_id e))"

definition block :: "nat \<Rightarrow> nat \<Rightarrow> nat" where
  "block t p = t div 2 ^ p * 2 ^ p"

lemma block_mod [simp]: "block t p mod 2 ^ p = 0"
  by (simp add: block_def)

lemma xor_below: "(a XOR b :: nat) < 2 ^ p \<longleftrightarrow> a div 2 ^ p = b div 2 ^ p"
proof -
  have "(a XOR b) < 2 ^ p \<longleftrightarrow> drop_bit p (a XOR b) = 0" by (simp add: drop_bit_eq_div div_eq_0_iff)
  also have "\<dots> \<longleftrightarrow> drop_bit p a XOR drop_bit p b = 0" by (simp only: drop_bit_xor)
  also have "\<dots> \<longleftrightarrow> drop_bit p a = drop_bit p b" by (auto simp: bit_eq_iff bit_xor_iff)
  finally show ?thesis by (simp add: drop_bit_eq_div)
qed

lemma in_block: "x div 2 ^ p = t div 2 ^ p \<longleftrightarrow> block t p \<le> x \<and> x < block t p + 2 ^ p"
  using interval_div_iff [of "block t p" p x] by (auto simp: block_def)

lemma distance_below: "id_val (distance t i) < 2 ^ p \<longleftrightarrow> block (id_val t) p \<le> id_val i \<and> id_val i < block (id_val t) p + 2 ^ p"
  using in_block [of "id_val i" p "id_val t"] by (auto simp: id_val_distance xor_below)

lemma closer_block:
  assumes "id_val (distance t i) < id_val (distance t j)" and "block (id_val t) p \<le> id_val j" and "id_val j < block (id_val t) p + 2 ^ p"
  shows "block (id_val t) p \<le> id_val i" and "id_val i < block (id_val t) p + 2 ^ p"
  using assms distance_below [of t i p] distance_below [of t j p] by (meson less_trans)+

lemma target_in_block: "block t p \<le> t" "t < block t p + 2 ^ p"
  using in_block [of t p t] by simp_all

lemma block_le:
  assumes "a mod 2 ^ q = 0" and "b mod 2 ^ q = 0" and "a < (b :: nat)"
  shows "a + 2 ^ q \<le> b"
proof -
  obtain x y where "a = 2 ^ q * x" "b = 2 ^ q * y" using assms(1,2) by (meson dvdE mod_0_imp_dvd)
  then have "x + 1 \<le> y" using assms(3) by simp
  then have "2 ^ q * (x + 1) \<le> 2 ^ q * y" by (rule mult_le_mono2)
  then show ?thesis using \<open>a = 2 ^ q * x\<close> \<open>b = 2 ^ q * y\<close> by simp
qed

lemma nested_or_disjoint:
  assumes "a mod 2 ^ q = 0" and "b mod 2 ^ p = (0 :: nat)"
  shows "a + 2 ^ q \<le> b \<or> b + 2 ^ p \<le> a \<or> (b \<le> a \<and> a + 2 ^ q \<le> b + 2 ^ p) \<or> (a \<le> b \<and> b + 2 ^ p \<le> a + 2 ^ q)"
proof -
  have small: "c + 2 ^ m \<le> d \<or> d + 2 ^ n \<le> c \<or> (d \<le> c \<and> c + 2 ^ m \<le> d + 2 ^ n)"
    if "c mod 2 ^ m = 0" "d mod 2 ^ n = 0" "m \<le> n" for c d m n :: nat
  proof -
    have "(2 :: nat) ^ m dvd 2 ^ n" using that(3) by (rule le_imp_power_dvd)
    then have "d mod 2 ^ m = 0" "(d + 2 ^ n) mod 2 ^ m = 0" using that(2) by (auto intro: dvd_trans dvd_add)
    then show ?thesis using block_le [OF that(1), of d] block_le [OF that(1), of "d + 2 ^ n"] by linarith
  qed
  show ?thesis using small [OF assms] small [OF assms(2,1)] by (cases "q \<le> p") auto
qed

definition around :: "nat \<Rightarrow> nat \<Rightarrow> nat \<Rightarrow> bool" where
  "around t lo hi \<longleftrightarrow> lo \<le> t \<and> t < hi \<and>
     (\<forall>p \<le> 256. (block t p \<le> lo \<and> hi \<le> block t p + 2 ^ p) \<or> (lo \<le> block t p \<and> block t p + 2 ^ p \<le> hi))"

lemma around_bucket: "wf_prefix p \<Longrightarrow> plo p \<le> t \<Longrightarrow> t < phi p \<Longrightarrow> around t (plo p) (phi p)"
  unfolding around_def
proof (intro conjI allI impI)
  fix k assume "wf_prefix p" "plo p \<le> t" "t < phi p"
  then show "(block t k \<le> plo p \<and> phi p \<le> block t k + 2 ^ k) \<or> (plo p \<le> block t k \<and> block t k + 2 ^ k \<le> phi p)"
    using nested_or_disjoint [of "plo p" "plen p" "block t k" k] target_in_block [of t k] by (auto simp: wf_prefix_def phi_def)
qed

lemma around_high:
  assumes a: "around t lo hi" and n: "hi mod 2 ^ q = 0"
    and dir: "lo = 0 \<or> (\<forall>p \<le> 256. block t p \<le> lo - 1 \<longrightarrow> lo - 1 < block t p + 2 ^ p \<longrightarrow> hi < block t p + 2 ^ p)"
  shows "around t lo (hi + 2 ^ q)"
proof -
  have "(block t p \<le> lo \<and> hi + 2 ^ q \<le> block t p + 2 ^ p) \<or> (lo \<le> block t p \<and> block t p + 2 ^ p \<le> hi + 2 ^ q)" if p: "p \<le> 256" for p
  proof (cases "lo \<le> block t p \<and> block t p + 2 ^ p \<le> hi")
    case False
    then have c: "block t p \<le> lo" "hi \<le> block t p + 2 ^ p" using a p unfolding around_def by blast+
    have "hi \<noteq> block t p + 2 ^ p"
    proof
      assume "hi = block t p + 2 ^ p"
      moreover from this have "block t p < lo" using False c by auto
      ultimately show False using dir p target_in_block [of t p] a by (auto simp: around_def)
    qed
    then show ?thesis using nested_or_disjoint [OF n block_mod, of t p] c a target_in_block [of t p] by (auto simp: around_def)
  qed auto
  then show ?thesis using a by (auto simp: around_def)
qed

lemma around_low:
  assumes a: "around t (lo + 2 ^ q) hi" and n: "lo mod 2 ^ q = 0" and top: "t < 2 ^ 256"
    and dir: "hi = 2 ^ 256 \<or> (\<forall>p \<le> 256. hi < block t p + 2 ^ p \<longrightarrow> block t p \<le> lo + 2 ^ q - 1)"
  shows "around t lo hi"
proof -
  have "(block t p \<le> lo \<and> hi \<le> block t p + 2 ^ p) \<or> (lo \<le> block t p \<and> block t p + 2 ^ p \<le> hi)" if p: "p \<le> 256" for p
  proof (cases "lo + 2 ^ q \<le> block t p \<and> block t p + 2 ^ p \<le> hi")
    case False
    then have c: "block t p \<le> lo + 2 ^ q" "hi \<le> block t p + 2 ^ p" using a p unfolding around_def by blast+
    have "block t p \<noteq> lo + 2 ^ q"
    proof
      assume b: "block t p = lo + 2 ^ q"
      then have "hi < block t p + 2 ^ p" using False c by auto
      moreover have "block t p + 2 ^ p \<le> 2 ^ 256"
        by (rule block_le [OF block_mod dvd_imp_mod_0 [OF le_imp_power_dvd [OF p]] le_less_trans [OF target_in_block(1) top]])
      ultimately have "block t p \<le> lo + 2 ^ q - 1" using dir p by (meson less_le_trans less_irrefl)
      moreover have "0 < (2 :: nat) ^ q" by simp
      ultimately show False using b by linarith
    qed
    then show ?thesis using nested_or_disjoint [OF n block_mod, of t p] c a target_in_block [of t p] by (auto simp: around_def)
  qed auto
  then show ?thesis using a by (auto simp: around_def)
qed

text \<open>
  The walk collects the eligible entries of a contiguous run of buckets around the start, and stops only with
  enough entries or with all buckets visited.
\<close>

definition run_entries :: "(kbucket_entry \<Rightarrow> bool) \<Rightarrow> table \<Rightarrow> nat \<Rightarrow> nat \<Rightarrow> kbucket_entry multiset" where
  "run_entries f bs low high = mset (filter f (concat (map (\<lambda>k. entries (bs ! k)) [low..<Suc high])))"

lemma run_entries_high: "low \<le> high \<Longrightarrow> run_entries f bs low (high + 1) = run_entries f bs low high + mset (filter f (entries (bs ! (high + 1))))"
  by (simp add: run_entries_def)

lemma run_entries_low: "0 < low \<Longrightarrow> low \<le> high \<Longrightarrow>
    run_entries f bs (low - 1) high = run_entries f bs low high + mset (filter f (entries (bs ! (low - 1))))"
  by (cases low) (simp_all add: run_entries_def upt_conv_Cons del: upt_Suc)

definition walk_ok :: "id \<Rightarrow> (kbucket_entry \<Rightarrow> bool) \<Rightarrow> nat \<Rightarrow> table \<Rightarrow> nat \<Rightarrow> nat \<Rightarrow> kbucket_entry list \<Rightarrow> bool" where
  "walk_ok target f k bs low high r \<longleftrightarrow>
     (\<exists>l h. l \<le> low \<and> high \<le> h \<and> h < length bs \<and> mset r = run_entries f bs l h \<and>
            around (id_val target) (plo (b_prefix (bs ! l))) (phi (b_prefix (bs ! h))) \<and>
            (k \<le> length r \<or> (l = 0 \<and> h = length bs - 1)))"

lemma walk_ok_mono: "walk_ok t f k bs low high r \<Longrightarrow> low \<le> low' \<Longrightarrow> high' \<le> high \<Longrightarrow> walk_ok t f k bs low' high' r"
  unfolding walk_ok_def by (elim exE conjE) (intro exI conjI; assumption?; linarith)

text \<open>The next bucket on either side.\<close>

lemma next_buckets:
  assumes "rt_inv bs" and "k < length bs"
  shows "wf_prefix (b_prefix (bs ! k))" and "plo (b_prefix (bs ! k)) mod 2 ^ plen (b_prefix (bs ! k)) = 0"
    and "Suc k < length bs \<Longrightarrow> plo (b_prefix (bs ! Suc k)) = phi (b_prefix (bs ! k))"
    and "k = 0 \<Longrightarrow> plo (b_prefix (bs ! k)) = 0" and "k = length bs - 1 \<Longrightarrow> phi (b_prefix (bs ! k)) = 2 ^ 256"
proof -
  have t: "tiles 0 bs (2 ^ 256)" and "bucket_inv (bs ! k)" using assms by (simp_all add: rt_inv_def)
  then show w: "wf_prefix (b_prefix (bs ! k))" by (simp add: bucket_inv_def)
  then show "plo (b_prefix (bs ! k)) mod 2 ^ plen (b_prefix (bs ! k)) = 0" by (simp add: wf_prefix_def)
  show "plo (b_prefix (bs ! Suc k)) = phi (b_prefix (bs ! k))" if "Suc k < length bs" using tiles_nth_next [OF t that] by simp
  show "plo (b_prefix (bs ! k)) = 0" if "k = 0" using t assms(2) that by (cases bs) auto
  show "phi (b_prefix (bs ! k)) = 2 ^ 256" if "k = length bs - 1"
    using tiles_last [OF t] that rt_inv_nonempty [OF assms(1)] by (simp add: last_conv_nth)
qed

lemma walk_high:
  assumes inv: "rt_inv bs" and lh: "low < length bs" "high + 1 < length bs"
    and a: "around (id_val target) (plo (b_prefix (bs ! low))) (phi (b_prefix (bs ! high)))"
    and dir: "low = 0 \<or> threeWayCompare target (prefix_last (b_prefix (bs ! (low - 1)))) (prefix_first (b_prefix (bs ! (high + 1)))) > 0"
  shows "around (id_val target) (plo (b_prefix (bs ! low))) (phi (b_prefix (bs ! (high + 1))))"
proof -
  let ?t = "id_val target" and ?lo = "plo (b_prefix (bs ! low))" and ?p = "b_prefix (bs ! (high + 1))"
  have h: "phi (b_prefix (bs ! high)) = plo ?p" using next_buckets(3) [OF inv, of high] lh(2) by simp
  have "?lo = 0 \<or> (\<forall>p \<le> 256. block ?t p \<le> ?lo - 1 \<longrightarrow> ?lo - 1 < block ?t p + 2 ^ p \<longrightarrow> plo ?p < block ?t p + 2 ^ p)"
  proof (cases "low = 0")
    case True
    then show ?thesis using next_buckets(4) [OF inv lh(1)] by simp
  next
    case False
    then have l: "id_val (prefix_last (b_prefix (bs ! (low - 1)))) = ?lo - 1"
      using next_buckets(1,3) [OF inv, of "low - 1"] lh(1) by (simp add: id_val_prefix_last)
    have "id_val (distance target (prefix_first ?p)) < id_val (distance target (prefix_last (b_prefix (bs ! (low - 1)))))"
      using dir False by (simp add: threeWayCompare_sgn)
    from closer_block(2) [OF this, unfolded l] show ?thesis unfolding prefix_first_def plo_def by blast
  qed
  then show ?thesis using around_high [OF a, of "plen ?p"] next_buckets(2) [OF inv lh(2)] unfolding h by (simp add: phi_def)
qed

lemma walk_low:
  assumes inv: "rt_inv bs" and lh: "0 < low" "low < length bs" "high < length bs"
    and a: "around (id_val target) (plo (b_prefix (bs ! low))) (phi (b_prefix (bs ! high)))"
    and dir: "high = length bs - 1 \<or> threeWayCompare target (prefix_last (b_prefix (bs ! (low - 1)))) (prefix_first (b_prefix (bs ! (high + 1)))) < 0"
  shows "around (id_val target) (plo (b_prefix (bs ! (low - 1)))) (phi (b_prefix (bs ! high)))"
proof -
  let ?t = "id_val target" and ?hi = "phi (b_prefix (bs ! high))" and ?p = "b_prefix (bs ! (low - 1))"
  have l: "plo (b_prefix (bs ! low)) = phi ?p" "id_val (prefix_last ?p) = phi ?p - 1"
    using next_buckets(1,3) [OF inv, of "low - 1"] lh(1,2) by (simp_all add: id_val_prefix_last)
  have "?hi = 2 ^ 256 \<or> (\<forall>p \<le> 256. ?hi < block ?t p + 2 ^ p \<longrightarrow> block ?t p \<le> phi ?p - 1)"
  proof (cases "high = length bs - 1")
    case True
    then show ?thesis using next_buckets(5) [OF inv lh(3)] by simp
  next
    case False
    then have h: "id_val (prefix_first (b_prefix (bs ! (high + 1)))) = ?hi"
      using next_buckets(3) [OF inv, of high] lh(3) by (simp add: prefix_first_def plo_def)
    have "block ?t p \<le> ?hi" for p using a target_in_block(1) [of ?t p] by (simp add: around_def)
    moreover have "id_val (distance target (prefix_last ?p)) < id_val (distance target (prefix_first (b_prefix (bs ! (high + 1)))))"
      using dir False by (simp add: threeWayCompare_less)
    note closer_block(1) [OF this, unfolded h l(2)]
    ultimately show ?thesis by blast
  qed
  then show ?thesis using around_low [of ?t "plo ?p" "plen ?p" ?hi] a next_buckets(2) [OF inv, of "low - 1"] lh(2) id_val_less [of target] unfolding l(1)
    by (simp add: phi_def)
qed

lemma edges_differ:
  assumes inv: "rt_inv bs" and lh: "0 < low" "low \<le> high" "high + 1 < length bs"
    and a: "around t (plo (b_prefix (bs ! low))) (phi (b_prefix (bs ! high)))"
  shows "threeWayCompare target (prefix_last (b_prefix (bs ! (low - 1)))) (prefix_first (b_prefix (bs ! (high + 1)))) \<noteq> 0"
proof -
  have "id_val (prefix_last (b_prefix (bs ! (low - 1)))) = plo (b_prefix (bs ! low)) - 1" "id_val (prefix_first (b_prefix (bs ! (high + 1)))) = phi (b_prefix (bs ! high))"
    using next_buckets(1,3) [OF inv, of "low - 1"] next_buckets(3) [OF inv, of high] lh by (simp_all add: id_val_prefix_last prefix_first_def plo_def)
  moreover have "plo (b_prefix (bs ! low)) < phi (b_prefix (bs ! high))" using a by (simp add: around_def)
  ultimately have "prefix_last (b_prefix (bs ! (low - 1))) \<noteq> prefix_first (b_prefix (bs ! (high + 1)))" by (metis diff_le_self le_less_trans less_irrefl)
  then show ?thesis by (simp add: threeWayCompare_eq)
qed

lemma kc_walk_collects:
  assumes "rt_inv bs" and "low \<le> high" and "high < length bs" and "mset es = run_entries f bs low high"
    and "around (id_val target) (plo (b_prefix (bs ! low))) (phi (b_prefix (bs ! high)))"
  shows "walk_ok target f k bs low high (kc_walk target f k bs low high es)"
  using assms
proof (induction target f k bs low high es rule: kc_walk.induct)
  case (1 target f k bs low high es)
  note step = kc_walk.simps [of target f k bs low high es]
  show ?case
  proof (cases "length es < k \<and> (0 < low \<or> high < length bs - 1)")
    case False
    then have "kc_walk target f k bs low high es = es" by (auto simp: step)
    then show ?thesis using False "1.prems" unfolding walk_ok_def by (intro exI [of _ low] exI [of _ high]) auto
  next
    case True
    define r where "r = kc_walk target f k bs low high es"
    have lo: "mset (kc_insertEntries f (bs ! (low - 1)) es) = run_entries f bs (low - 1) high" if "0 < low"
      using "1.prems" run_entries_low [OF that, of high f bs] by (simp add: kc_insertEntries_append)
    have hi: "mset (kc_insertEntries f (bs ! (high + 1)) es) = run_entries f bs low (high + 1)"
      using "1.prems" by (simp add: kc_insertEntries_append run_entries_high [simplified])
    have bound: "high + 1 < length bs" if "high < length bs - 1" using that by simp
    define dir where
      "dir = threeWayCompare target (prefix_last (b_prefix (bs ! (low - 1)))) (prefix_first (b_prefix (bs ! (high + 1))))"
    have "dir \<noteq> 0" if "0 < low" "high < length bs - 1" unfolding dir_def using "1.prems" that by (intro edges_differ) auto
    then consider "0 < low" "high = length bs - 1" | "\<not> 0 < low" "high < length bs - 1"
      | "0 < low" "high < length bs - 1" "dir < 0" | "0 < low" "high < length bs - 1" "dir > 0"
      using True "1.prems"(3) by linarith
    then have "walk_ok target f k bs low high r"
    proof cases
      case 1
      then have "r = kc_walk target f k bs (low - 1) high (kc_insertEntries f (bs ! (low - 1)) es)"
        using True unfolding r_def by (subst step) simp
      moreover have "around (id_val target) (plo (b_prefix (bs ! (low - 1)))) (phi (b_prefix (bs ! high)))"
        using walk_low [OF "1.prems"(1) 1(1) _ "1.prems"(3,5)] "1.prems"(2,3) 1(2) by simp
      ultimately have "walk_ok target f k bs (low - 1) high r" using "1.IH"(2) [OF _ refl refl] True "1.prems" lo 1 by simp
      then show ?thesis by (rule walk_ok_mono) simp_all
    next
      case 2
      then have "r = kc_walk target f k bs low (high + 1) (kc_insertEntries f (bs ! (high + 1)) es)"
        using True unfolding r_def by (subst step) simp
      moreover have "around (id_val target) (plo (b_prefix (bs ! low))) (phi (b_prefix (bs ! (high + 1))))"
        using walk_high [OF "1.prems"(1) _ bound [OF 2(2)] "1.prems"(5)] "1.prems"(2,3) 2(1) by simp
      ultimately have "walk_ok target f k bs low (high + 1) r" using "1.IH"(1) [OF _ refl refl] True "1.prems" hi 2 bound by simp
      then show ?thesis by (rule walk_ok_mono) simp_all
    next
      case 3
      then have "r = kc_walk target f k bs (low - 1) high (kc_insertEntries f (bs ! (low - 1)) es)"
        using True unfolding r_def by (subst step) (simp add: dir_def Let_def)
      moreover have "around (id_val target) (plo (b_prefix (bs ! (low - 1)))) (phi (b_prefix (bs ! high)))"
        using walk_low [OF "1.prems"(1) 3(1) _ "1.prems"(3,5)] "1.prems"(2,3) 3(3) by (simp add: dir_def)
      ultimately have "walk_ok target f k bs (low - 1) high r" using "1.IH"(3) [OF _ refl refl _ _ _ refl refl dir_def] True "1.prems" lo 3 by simp
      then show ?thesis by (rule walk_ok_mono) simp_all
    next
      case 4
      then have "r = kc_walk target f k bs low (high + 1) (kc_insertEntries f (bs ! (high + 1)) es)"
        using True unfolding r_def by (subst step) (simp add: dir_def Let_def)
      moreover have "around (id_val target) (plo (b_prefix (bs ! low))) (phi (b_prefix (bs ! (high + 1))))"
        using walk_high [OF "1.prems"(1) _ bound [OF 4(2)] "1.prems"(5)] "1.prems"(2,3) 4(3) by (simp add: dir_def)
      ultimately have "walk_ok target f k bs low (high + 1) r" using "1.IH"(4) [OF _ refl refl _ _ _ refl refl dir_def] True "1.prems" hi 4 bound by simp
      then show ?thesis by (rule walk_ok_mono) simp_all
    qed
    then show ?thesis by (simp add: r_def)
  qed
qed

lemma map_nth_upt: "map (\<lambda>k. g (xs ! k)) [0..<length xs] = map g xs"
  by (rule nth_equalityI) simp_all

text \<open>An entry of the run shares at least as many leading bits with the target as one outside.\<close>

lemma run_closer:
  assumes inv: "rt_inv bs" and lh: "l \<le> h" "h < length bs" and a: "around (id_val target) (plo (b_prefix (bs ! l))) (phi (b_prefix (bs ! h)))"
    and y: "y \<in># run_entries f bs l h" and x: "j < length bs" "j < l \<or> h < j" "x \<in> set (entries (bs ! j))" and d: "kc_dist target x < 2 ^ p"
  shows "kc_dist target y < 2 ^ p"
proof (cases "p \<le> 256")
  case True
  let ?t = "id_val target"
  have til: "tiles 0 bs (2 ^ 256)" using inv by (simp add: rt_inv_def)
  have mono: "phi (b_prefix (bs ! i)) \<le> plo (b_prefix (bs ! m))" if "i < m" "m < length bs" for i m
  proof -
    obtain z where z: "tiles 0 (take m bs) z" "tiles z (drop m bs) (2 ^ 256)" using til append_take_drop_id [of m bs] tiles_append by metis
    have "bs ! i \<in> set (take m bs)" "bs ! m \<in> set (drop m bs)"
      using that by (auto simp: in_set_conv_nth intro: exI [of _ i] exI [of _ 0])
    then show ?thesis using tiles_bounds [OF z(1)] tiles_bounds [OF z(2)] le_trans by blast
  qed
  have own: "plo (b_prefix (bs ! m)) \<le> id_val (e_id e) \<and> id_val (e_id e) < phi (b_prefix (bs ! m))" if "m < length bs" "e \<in> set (entries (bs ! m))" for m e
  proof -
    have "bucket_inv (bs ! m)" using inv that(1) by (simp add: rt_inv_def)
    then show ?thesis using that(2) isPrefixOf_iff [of "b_prefix (bs ! m)"] by (simp add: bucket_inv_def entries_inv_def)
  qed
  obtain m where m: "l \<le> m" "m \<le> h" "y \<in> set (entries (bs ! m))" using y by (auto simp: run_entries_def)
  then have ym: "plo (b_prefix (bs ! m)) \<le> id_val (e_id y)" "id_val (e_id y) < phi (b_prefix (bs ! m))" using own lh(2) by simp_all
  have "plo (b_prefix (bs ! l)) \<le> plo (b_prefix (bs ! m))" "phi (b_prefix (bs ! m)) \<le> phi (b_prefix (bs ! h))"
    using mono [of l m] mono [of m h] m lh(2) plo_less_phi [of "b_prefix (bs ! l)"] plo_less_phi [of "b_prefix (bs ! h)"]
    by (cases "l = m"; cases "m = h"; simp)+
  then have yr: "plo (b_prefix (bs ! l)) \<le> id_val (e_id y)" "id_val (e_id y) < phi (b_prefix (bs ! h))" using ym by linarith+
  have xr: "id_val (e_id x) < plo (b_prefix (bs ! l)) \<or> phi (b_prefix (bs ! h)) \<le> id_val (e_id x)"
    using own [OF x(1,3)] mono [of j l] mono [of h j] x(1,2) lh by fastforce
  have "block ?t p \<le> id_val (e_id x)" "id_val (e_id x) < block ?t p + 2 ^ p" using d distance_below by (auto simp: kc_dist_def)
  then have "block ?t p \<le> plo (b_prefix (bs ! l))" "phi (b_prefix (bs ! h)) \<le> block ?t p + 2 ^ p" using a True xr unfolding around_def by fastforce+
  then show ?thesis using yr by (simp add: kc_dist_def distance_below)
next
  case False
  then have "(2 :: nat) ^ 256 \<le> 2 ^ p" by (intro power_increasing) simp_all
  then show ?thesis using id_val_less [of "distance target (e_id y)"] unfolding kc_dist_def by (meson less_le_trans)
qed

text \<open>The list that \<^verbatim>\<open>fill\<close> cuts to size.\<close>

lemma fill_collected:
  assumes inv: "rt_inv bs"
  obtains w where "kc_fill target f k bs type boots selfEntry includeSelf =
      kc_shave target k (let w1 = (if length w < k then w @ filter (\<lambda>b. canUseSocketAddress type (e_addr b)) boots else w) in
        if length w1 < k \<and> includeSelf then w1 @ [selfEntry] else w1)"
    "mset w \<subseteq># mset (filter f (all_entries bs))" "length w < k \<Longrightarrow> mset w = mset (filter f (all_entries bs))"
    "\<And>x y p. x \<in># mset (filter f (all_entries bs)) - mset w \<Longrightarrow> y \<in> set w \<Longrightarrow> kc_dist target x < 2 ^ p \<Longrightarrow> kc_dist target y < 2 ^ p"
proof -
  obtain i where i: "nat (indexOf bs target) = i" "i < length bs" "isPrefixOf (b_prefix (bs ! i)) target" using getBucket_at [OF inv] by metis
  define w where "w = kc_walk target f k bs i i (kc_insertEntries f (bs ! i) [])"
  have "mset (kc_insertEntries f (bs ! i) []) = run_entries f bs i i" by (simp add: kc_insertEntries_append run_entries_def)
  moreover have "around (id_val target) (plo (b_prefix (bs ! i))) (phi (b_prefix (bs ! i)))"
    using i(3) next_buckets(1) [OF inv i(2)] by (intro around_bucket) (simp_all add: isPrefixOf_iff)
  ultimately have "walk_ok target f k bs i i w" unfolding w_def using i(2) inv by (intro kc_walk_collects) auto
  then obtain l h where lh: "l \<le> i" "i \<le> h" "h < length bs" "mset w = run_entries f bs l h" "k \<le> length w \<or> (l = 0 \<and> h = length bs - 1)"
    and a: "around (id_val target) (plo (b_prefix (bs ! l))) (phi (b_prefix (bs ! h)))"
    by (auto simp: walk_ok_def)
  have all: "run_entries f bs 0 (length bs - 1) = mset (filter f (all_entries bs))"
    using i(2) map_nth_upt [of entries bs] by (cases "length bs") (auto simp: run_entries_def all_entries_def simp del: upt_Suc)
  have "length bs = Suc h + (length bs - Suc h)" using lh(3) by simp
  then have "[l..<length bs] = [l..<Suc h] @ [Suc h..<length bs]"
    using upt_add_eq_append [of l "Suc h" "length bs - Suc h"] lh(1,2) by (metis le_SucI le_trans)
  moreover have "[0..<length bs] = [0..<l] @ [l..<length bs]"
    using upt_add_eq_append [of 0 l "length bs - l"] lh(1-3) by simp
  ultimately have "[0..<length bs] = [0..<l] @ [l..<Suc h] @ [Suc h..<length bs]" by simp
  then have parts: "mset (filter f (all_entries bs)) = mset w + mset (filter f (concat (map (\<lambda>k. entries (bs ! k)) ([0..<l] @ [Suc h..<length bs]))))"
    unfolding all_entries_def map_nth_upt [of entries bs, symmetric] lh(4) run_entries_def by simp
  show thesis
  proof (rule that [of w])
    show "kc_fill target f k bs type boots selfEntry includeSelf =
      kc_shave target k (let w1 = (if length w < k then w @ filter (\<lambda>b. canUseSocketAddress type (e_addr b)) boots else w) in
        if length w1 < k \<and> includeSelf then w1 @ [selfEntry] else w1)"
      by (simp add: kc_fill_def w_def i(1) Let_def)
    show "mset w \<subseteq># mset (filter f (all_entries bs))" unfolding parts by simp
    show "mset w = mset (filter f (all_entries bs))" if "length w < k" using that lh(4,5) all by auto
    fix x y p assume xy: "x \<in># mset (filter f (all_entries bs)) - mset w" "y \<in> set w" "kc_dist target x < 2 ^ p"
    from xy(1) have "\<exists>j. (j < l \<or> (Suc h \<le> j \<and> j < length bs)) \<and> x \<in> set (entries (bs ! j))" unfolding parts by auto
    then obtain j where "j < l \<or> (Suc h \<le> j \<and> j < length bs)" "x \<in> set (entries (bs ! j))" by blast
    then have j: "j < l \<or> h < j" "j < length bs" "x \<in> set (entries (bs ! j))" using lh(1-3) by auto
    have "y \<in># run_entries f bs l h" using xy(2) lh(4) by (metis set_mset_mset)
    then show "kc_dist target y < 2 ^ p" using run_closer [OF inv _ lh(3) a _ j(2,1,3) xy(3)] lh(1,2) by simp
  qed
qed

lemma shave_cut:
  assumes "x \<in># mset es - mset (kc_shave target k es)" and "y \<in> set (kc_shave target k es)"
  shows "kc_dist target y \<le> kc_dist target x"
  unfolding kc_dist_def using assms mset_kc_shave [of target k es]
  by (intro kc_shave_closest [of es target k "mset es - mset (kc_shave target k es)"]) simp_all

section \<open>Correctness\<close>


definition near_and_far :: table where
  "near_and_far = [(mk_bucket all_prefix True)\<lparr>entries := [signalResponse 4 (mk_entry 0 zero_id (Inet 1 1) 0 0), signalResponse 4 (mk_entry 1 MAX_ID (Inet 2 1) 0 0)]\<rparr>]"


end
