(* ===== verification/Routing_Maintenance.thy ===== *)
theory Routing_Maintenance
  imports Routing_Invariant
begin

text \<open>
  Merging and maintenance of the routing table: both keep the invariant, invent no node and end; under the
  invariant the maintenance loop never restructures the list it iterates over.
\<close>

section \<open>Merging sibling buckets\<close>

lemma disjoint_insertI: "S \<subseteq> T \<union> {x} \<Longrightarrow> x \<notin> U \<Longrightarrow> T \<inter> U = {} \<Longrightarrow> S \<inter> U = {}"
  by auto

lemma fold_put_inv:
  assumes "bucket_inv b" and "\<forall>e \<in> set xs. isPrefixOf (b_prefix b) (e_id e)"
    and "distinct (map e_ref xs)" and "e_ref ` set (entries b) \<inter> e_ref ` set xs = {}"
  shows "bucket_inv (fold (b_put now) xs b) \<and> b_prefix (fold (b_put now) xs b) = b_prefix b \<and>
    e_ref ` set (entries (fold (b_put now) xs b)) \<subseteq> e_ref ` set (entries b) \<union> e_ref ` set xs"
  using assms
proof (induction xs arbitrary: b)
  case (Cons x xs)
  have "bucket_inv (b_put now x b)" using Cons.prems by (intro b_put_inv) (auto simp: fresh_in_def)
  moreover have refs: "e_ref ` set (entries (b_put now x b)) \<subseteq> e_ref ` set (entries b) \<union> {e_ref x}"
    using Cons.prems(1) b_put_refs [of "b_prefix b"] by (simp add: bucket_inv_def)
  moreover have "e_ref ` set (entries (b_put now x b)) \<inter> e_ref ` set xs = {}"
    using disjoint_insertI [OF refs] Cons.prems(3,4) by auto
  ultimately have "bucket_inv (fold (b_put now) xs (b_put now x b)) \<and>
    b_prefix (fold (b_put now) xs (b_put now x b)) = b_prefix (b_put now x b) \<and>
    e_ref ` set (entries (fold (b_put now) xs (b_put now x b))) \<subseteq> e_ref ` set (entries (b_put now x b)) \<union> e_ref ` set xs"
    using Cons.prems by (intro Cons.IH) auto
  then show ?case using subset_trans [OF _ Un_mono [OF refs subset_refl]] by simp
qed simp

lemma merged_bucket_inv:
  assumes b: "bucket_inv b1" "bucket_inv b2" and sib: "isSiblingOf (b_prefix b1) (b_prefix b2)"
    and less: "plo (b_prefix b1) < plo (b_prefix b2)" and d: "distinct (map e_ref (entries b1 @ entries b2))"
  shows "bucket_inv (merged_bucket now self b1 b2)"
    and "plo (b_prefix (merged_bucket now self b1 b2)) = plo (b_prefix b1)"
    and "phi (b_prefix (merged_bucket now self b1 b2)) = phi (b_prefix b2)"
    and "e_ref ` set (entries (merged_bucket now self b1 b2)) \<subseteq> e_ref ` set (entries b1 @ entries b2)"
proof -
  have wf: "wf_prefix (b_prefix b1)" "wf_prefix (b_prefix b2)" using b by (auto simp: bucket_inv_def)
  note s = sibling_intervals [OF wf sib less]
  define nb where "nb = mk_bucket (getParent (b_prefix b1)) (isHomeBucket self (getParent (b_prefix b1)))"
  have nb: "b_prefix nb = getParent (b_prefix b1)" "entries nb = []"
    by (simp_all add: nb_def mk_bucket_def prefix_copy_id s(5))
  have "\<forall>e \<in> set (entries b1 @ entries b2). isPrefixOf (b_prefix nb) (e_id e)"
    using b s(1) plo_less_phi [of "b_prefix b1"] plo_less_phi [of "b_prefix b2"]
    by (fastforce simp: nb isPrefixOf_iff [OF s(5)] s(3,4) bucket_inv_def entries_inv_def isPrefixOf_iff)
  then have "bucket_inv (fold (b_put now) (entries b1 @ entries b2) nb) \<and>
    b_prefix (fold (b_put now) (entries b1 @ entries b2) nb) = b_prefix nb \<and>
    e_ref ` set (entries (fold (b_put now) (entries b1 @ entries b2) nb)) \<subseteq> e_ref ` set (entries nb) \<union> e_ref ` set (entries b1 @ entries b2)"
    using d by (intro fold_put_inv) (auto simp: nb bucket_inv_def entries_inv_def s(5))
  moreover have "merged_bucket now self b1 b2 = fold (b_put now) (entries b1 @ entries b2) nb"
    by (simp add: merged_bucket_def nb_def Let_def)
  ultimately show "bucket_inv (merged_bucket now self b1 b2)"
    "plo (b_prefix (merged_bucket now self b1 b2)) = plo (b_prefix b1)"
    "phi (b_prefix (merged_bucket now self b1 b2)) = phi (b_prefix b2)"
    "e_ref ` set (entries (merged_bucket now self b1 b2)) \<subseteq> e_ref ` set (entries b1 @ entries b2)"
    using s(3,4) by (simp_all add: nb)
qed

lemma split_at_two:
  assumes "0 < k" and "k < length bs"
  shows "bs = take (k - 1) bs @ [bs ! (k - 1), bs ! k] @ drop (Suc k) bs"
  using assms by (cases k) (simp_all add: Cons_nth_drop_Suc id_take_nth_drop [symmetric])

lemma distinct_replace: "distinct (A @ M @ C) \<Longrightarrow> set N \<subseteq> set M \<Longrightarrow> distinct N \<Longrightarrow> distinct (A @ N @ C)"
  by auto

lemma merge_step_inv:
  assumes inv: "rt_inv bs" and k: "0 < k" "k < length bs" and b: "b1 = bs ! (k - 1)" "b2 = bs ! k"
    and sib: "isSiblingOf (b_prefix b1) (b_prefix b2)"
    and bs'_def: "bs' = rt_modify [b1, b2] [merged_bucket now self b1 b2] bs"
  shows "rt_inv bs'" and "set (table_refs bs') \<subseteq> set (table_refs bs)"
proof -
  define A where "A = take (k - 1) bs"
  define C where "C = drop (Suc k) bs"
  let ?m = "merged_bucket now self b1 b2"
  have bs: "bs = A @ [b1, b2] @ C" using split_at_two [OF k] b by (simp add: A_def C_def)
  have til: "tiles 0 bs (2 ^ 256)" using inv by (simp add: rt_inv_def)
  then have t: "tiles 0 A (plo (b_prefix b1))" "phi (b_prefix b1) = plo (b_prefix b2)" "tiles (phi (b_prefix b2)) C (2 ^ 256)"
    unfolding bs by (auto simp: tiles_append)
  have bi: "bucket_inv b1" "bucket_inv b2" using inv bs by (auto simp: rt_inv_def)
  have d: "distinct (map e_ref (entries b1 @ entries b2))" using inv bs by (auto simp: rt_inv_def table_refs_entries)
  have less: "plo (b_prefix b1) < plo (b_prefix b2)" using t(2) plo_less_phi [of "b_prefix b1"] by simp
  note m = merged_bucket_inv [OF bi sib less d, of now self]
  have "tiles (plo (b_prefix b1)) [b1, b2] (phi (b_prefix b2))" "tiles (plo (b_prefix b1)) [?m] (phi (b_prefix b2))"
    using t(2) m(2,3) by simp_all
  note r = rt_modify_replace [OF t(1) this(1) t(3) this(2), simplified]
  have bs': "bs' = A @ ?m # C" unfolding bs'_def using r(1) by (simp add: bs)
  show sub: "set (table_refs bs') \<subseteq> set (table_refs bs)"
    unfolding bs' using m(4) by (auto simp: bs table_refs_entries)
  have "distinct (map e_ref (entries ?m))" using m(1) by (simp add: bucket_inv_def entries_inv_def)
  moreover have "distinct (map e_ref (all_entries A @ (entries b1 @ entries b2) @ all_entries C))"
    using inv by (simp add: bs rt_inv_def table_refs_entries)
  ultimately have "distinct (map e_ref (all_entries A @ entries ?m @ all_entries C))"
    using distinct_replace [of "map e_ref (all_entries A)" "map e_ref (entries b1 @ entries b2)"
        "map e_ref (all_entries C)" "map e_ref (entries ?m)"] m(4)
    by (simp only: map_append set_append set_map append_assoc image_Un)
  then show "rt_inv bs'" using inv m(1) r(2) unfolding bs' by (auto simp: bs rt_inv_def table_refs_entries)
qed

lemma merge_loop_inv:
  assumes "rt_inv bs"
  shows "rt_inv (merge_loop now self i bs) \<and> set (table_refs (merge_loop now self i bs)) \<subseteq> set (table_refs bs)"
  using assms
proof (induction now self i bs rule: merge_loop.induct)
  case (1 now self i0 bs)
  define i where "i = i0 + 1"
  define b1 where "b1 = bs ! nat (i - 1)"
  define b2 where "b2 = bs ! nat i"
  show ?case
  proof (cases "\<not> i < 1 \<and> \<not> i \<ge> int (length bs) \<and> isSiblingOf (b_prefix b1) (b_prefix b2) \<and>
      effectiveSize b1 + effectiveSize b2 \<le> MAX_ENTRIES_PER_BUCKET")
    case True
    define bs' where "bs' = rt_modify [b1, b2] [merged_bucket now self b1 b2] bs"
    have "merge_loop now self i0 bs = merge_loop now self (i - 2) bs'"
      using True by (simp add: merge_loop.simps [of now self i0 bs] Let_def i_def b1_def b2_def bs'_def)
    moreover have "0 < nat i" "nat i < length bs" "nat (i - 1) = nat i - 1" using True by auto
    then have "rt_inv bs' \<and> set (table_refs bs') \<subseteq> set (table_refs bs)"
      using merge_step_inv [OF "1.prems", of "nat i" b1 b2 bs' now self] True by (simp add: bs'_def b1_def b2_def)
    ultimately show ?thesis using "1.IH"(2) [OF i_def _ _ b1_def b2_def] True unfolding bs'_def by auto
  next
    case False
    then have "merge_loop now self i0 bs = bs \<or> (merge_loop now self i0 bs = merge_loop now self i bs \<and> i < 1) \<or>
       (merge_loop now self i0 bs = merge_loop now self i bs \<and> \<not> i < 1 \<and> \<not> i \<ge> int (length bs))"
      by (auto simp: merge_loop.simps [of now self i0 bs] Let_def i_def b1_def b2_def)
    then show ?thesis
      using "1.prems" "1.IH"(1) [OF i_def] "1.IH"(3) [OF i_def _ _ b1_def b2_def] False by auto
  qed
qed

lemma rt_mergeBuckets_inv:
  "rt_inv bs \<Longrightarrow> rt_inv (rt_mergeBuckets now self bs)"
  "rt_inv bs \<Longrightarrow> set (table_refs (rt_mergeBuckets now self bs)) \<subseteq> set (table_refs bs)"
  unfolding rt_mergeBuckets_def using merge_loop_inv by blast+

section \<open>Maintenance\<close>

text \<open>One step of the inner loop removes the entry or leaves the table alone; it never inserts.\<close>

lemma removeIfBad_at_inv:
  assumes "rt_inv bs" and "k < length bs"
  shows "rt_inv (bs[k := b_removeIfBad now e True (bs ! k)])"
    and "set (table_refs (bs[k := b_removeIfBad now e True (bs ! k)])) \<subseteq> set (table_refs bs)"
proof -
  have "bucket_inv (bs ! k)" using assms by (simp add: rt_inv_def)
  then show "rt_inv (bs[k := b_removeIfBad now e True (bs ! k)])"
    using assms removeIfBad_refs [of now e True "bs ! k"] b_removeIfBad_inv
    by (intro rt_update_inv [where R = "{}"]) auto
  show "set (table_refs (bs[k := b_removeIfBad now e True (bs ! k)])) \<subseteq> set (table_refs bs)"
    using removeIfBad_refs [of now e True "bs ! k"] all_entries_update [OF assms(2), of "bs ! k"]
      all_entries_update [OF assms(2), of "b_removeIfBad now e True (bs ! k)"]
    by (auto simp: table_refs_entries)
qed

lemma maint_entries_inv:
  assumes "rt_inv bs" and "k < length bs" and "\<forall>e \<in> set es. isPrefixOf (b_prefix (bs ! k)) (e_id e)"
  obtains bs' where "ofold (maint_entry now self boots wasFull k) es bs = Some bs'" "rt_inv bs'" "length bs' = length bs"
    "set (table_refs bs') \<subseteq> set (table_refs bs)"
proof -
  define P where "P t \<longleftrightarrow> rt_inv t \<and> length t = length bs \<and> b_prefix (t ! k) = b_prefix (bs ! k) \<and>
    set (table_refs t) \<subseteq> set (table_refs bs)" for t
  have "\<exists>t'. maint_entry now self boots wasFull k e t = Some t' \<and> P t'" if "e \<in> set es" "P t" for e t
    using that assms removeIfBad_at_inv [of t k now e] unfolding P_def by (auto simp: maint_entry_def)
  moreover have "P bs" using assms by (simp add: P_def)
  ultimately obtain t where "ofold (maint_entry now self boots wasFull k) es bs = Some t" "P t"
    using ofold_invariant [of P bs es "maint_entry now self boots wasFull k"] by metis
  then show thesis using that by (auto simp: P_def)
qed

lemma rt_maintenance_inv:
  assumes inv: "rt_inv bs"
  obtains t bs' r where "rt_maintenance now self boots (t0, bs) = Some (t, bs', r)" "rt_inv bs'"
    "set (table_refs bs') \<subseteq> set (table_refs bs)"
proof (cases "now - t0 < word_of_int ROUTING_TABLE_MAINTENANCE_INTERVAL")
  case True
  then show ?thesis using that inv by (simp add: rt_maintenance_def)
next
  case False
  define bs1 where "bs1 = rt_mergeBuckets now self bs"
  have inv1: "rt_inv bs1" "set (table_refs bs1) \<subseteq> set (table_refs bs)"
    unfolding bs1_def using rt_mergeBuckets_inv [OF inv] by auto
  define P :: "table \<times> prefix list \<Rightarrow> bool" where
    "P = (\<lambda>(t, r). rt_inv t \<and> length t = length bs1 \<and> set (table_refs t) \<subseteq> set (table_refs bs))"
  have "\<exists>s'. maint_bucket now self boots k s = Some s' \<and> P s'" if k: "k \<in> set [0..<length bs1]" and s: "P s" for k s
  proof -
    obtain t r where tr: "s = (t, r)" "rt_inv t" "k < length t" using k s by (cases s) (auto simp: P_def)
    have "bucket_inv (t ! k)" using tr by (simp add: rt_inv_def)
    then have "\<forall>e \<in> set (entries (t ! k)). isPrefixOf (b_prefix (t ! k)) (e_id e)"
      by (simp add: bucket_inv_def entries_inv_def)
    from maint_entries_inv [OF tr(2,3) this, of now self boots "length (entries (t ! k)) \<ge> MAX_ENTRIES_PER_BUCKET"]
    obtain t' where "ofold (maint_entry now self boots (length (entries (t ! k)) \<ge> MAX_ENTRIES_PER_BUCKET) k) (entries (t ! k)) t = Some t'"
      "rt_inv t'" "length t' = length t" "set (table_refs t') \<subseteq> set (table_refs t)" by metis
    then show ?thesis using s by (auto simp: maint_bucket_def tr(1) P_def Let_def)
  qed
  moreover have "P (bs1, [])" using inv1 by (simp add: P_def)
  ultimately obtain s' where s': "ofold (maint_bucket now self boots) [0..<length bs1] (bs1, []) = Some s'" "P s'"
    using ofold_invariant [of P "(bs1, [])" "[0..<length bs1]" "maint_bucket now self boots"] by metis
  then show ?thesis using that False by (cases s') (auto simp: rt_maintenance_def bs1_def P_def Let_def)
qed

end
