(* ===== verification/Node_Table.thy ===== *)
theory Node_Table
  imports Routing_Maintenance
begin

text \<open>
  The interface through which the rest of the node uses its routing table (lookup, put, remove), as a
  locale; its interpretation on the model of \<^verbatim>\<open>RoutingTable\<close>; and the states a table goes through when the
  operations are called in any order.
\<close>

locale node_table =
  fixes invar :: "'t \<Rightarrow> bool"
    and lookup :: "'t \<Rightarrow> id \<Rightarrow> kbucket_entry option"
    and refs :: "'t \<Rightarrow> nat set"
    and put :: "u64 \<Rightarrow> kbucket_entry \<Rightarrow> 't \<Rightarrow> 't option"
    and remove :: "u64 \<Rightarrow> id \<Rightarrow> 't \<Rightarrow> 't"
  assumes put_total: "invar t \<Longrightarrow> e_ref n \<notin> refs t \<Longrightarrow> \<exists>t'. put now n t = Some t'"
    and put_invar: "invar t \<Longrightarrow> e_ref n \<notin> refs t \<Longrightarrow> put now n t = Some t' \<Longrightarrow> invar t'"
    and put_refs: "invar t \<Longrightarrow> e_ref n \<notin> refs t \<Longrightarrow> put now n t = Some t' \<Longrightarrow> refs t' \<subseteq> insert (e_ref n) (refs t)"
    and put_other: "invar t \<Longrightarrow> e_ref n \<notin> refs t \<Longrightarrow> put now n t = Some t' \<Longrightarrow> j \<noteq> e_id n \<Longrightarrow>
      lookup t' j = lookup t j \<or> lookup t' j = None"
    and remove_invar: "invar t \<Longrightarrow> invar (remove now i t)"
    and remove_refs: "invar t \<Longrightarrow> refs (remove now i t) \<subseteq> refs t"
    and lookup_remove: "invar t \<Longrightarrow> lookup (remove now i t) j = (if j = i then None else lookup t j)"
begin

lemma put_ok:
  assumes "invar t" and "e_ref n \<notin> refs t"
  obtains t' where "put now n t = Some t'" "invar t'" "refs t' \<subseteq> insert (e_ref n) (refs t)"
    "\<And>j. j \<noteq> e_id n \<Longrightarrow> lookup t' j = lookup t j \<or> lookup t' j = None"
proof -
  obtain t' where t': "put now n t = Some t'" using put_total [OF assms] by blast
  show thesis by (rule that [OF t' put_invar [OF assms t'] put_refs [OF assms t'] put_other [OF assms t']])
qed

text \<open>Loading a list of nodes: every put succeeds, and only the nodes of the list appear.\<close>

lemma load_ok:
  assumes "invar t" and "distinct (map e_ref ns)" and "e_ref ` set ns \<inter> refs t = {}"
  shows "\<exists>t'. ofold (put now) ns t = Some t' \<and> invar t' \<and>
    (\<forall>j. j \<notin> e_id ` set ns \<longrightarrow> lookup t' j = lookup t j \<or> lookup t' j = None)"
  using assms
proof (induction ns arbitrary: t)
  case (Cons n ns)
  have "e_ref n \<notin> refs t" using Cons.prems by auto
  then obtain t1 where t1: "put now n t = Some t1" "invar t1" "refs t1 \<subseteq> insert (e_ref n) (refs t)"
    "\<And>j. j \<noteq> e_id n \<Longrightarrow> lookup t1 j = lookup t j \<or> lookup t1 j = None"
    using put_ok [OF Cons.prems(1)] by metis
  have "e_ref ` set ns \<inter> refs t1 = {}" using disjoint_insertI [of "refs t1" "refs t" "e_ref n" "e_ref ` set ns"] t1(3) Cons.prems(2,3) by auto
  then obtain t2 where "ofold (put now) ns t1 = Some t2" "invar t2"
    "\<forall>j. j \<notin> e_id ` set ns \<longrightarrow> lookup t2 j = lookup t1 j \<or> lookup t2 j = None"
    using Cons.IH [OF t1(2)] Cons.prems(2) by auto
  moreover have "lookup t2 j = lookup t j \<or> lookup t2 j = None" if "j \<notin> e_id ` set (n # ns)" for j
    using calculation(3) t1(4) [of j] that by auto
  ultimately show ?case using t1 by auto
qed simp

text \<open>A node that was removed stays out of the table until it is put again.\<close>

lemma removed_stays_out:
  assumes "invar t" and "distinct (map e_ref ns)" and "e_ref ` set ns \<inter> refs t = {}" and "i \<notin> e_id ` set ns"
  shows "\<exists>t'. ofold (put now) ns (remove now i t) = Some t' \<and> invar t' \<and> lookup t' i = None"
proof -
  have "e_ref ` set ns \<inter> refs (remove now i t) = {}" using assms(1,3) remove_refs by blast
  then show ?thesis
    using load_ok [OF remove_invar [OF assms(1)] assms(2), of now i now] assms(1,4) lookup_remove by fastforce
qed

end

lemma put_spec_other:
  assumes "put_spec now n X Y" and "y \<in># Y" and "e_id y \<noteq> e_id n"
  shows "y \<in># X"
  using assms by (elim put_specE) (auto simp: entry_frame equals_iff dest!: in_diffD)

lemma rt_put_other:
  assumes inv: "rt_inv bs" and fresh: "fresh_for n bs" and put: "rt_put now self n bs = Some bs'"
  shows "rt_inv bs'" and "set (table_refs bs') \<subseteq> insert (e_ref n) (set (table_refs bs))"
    and "j \<noteq> e_id n \<Longrightarrow> getEntry bs' j = getEntry bs j \<or> getEntry bs' j = None"
proof -
  obtain X X' Z where x: "rt_inv bs'" "mset (all_entries bs) = X + Z" "mset (all_entries bs') = X' + Z" "put_spec now n X X'"
    using rt_put_correct [OF inv fresh, of now self] put by (metis option.inject)
  have sets: "set (all_entries bs) = set_mset X \<union> set_mset Z" "set (all_entries bs') = set_mset X' \<union> set_mset Z"
    using x(2,3) by (metis set_mset_mset set_mset_union)+
  show "rt_inv bs'" by (rule x(1))
  show "set (table_refs bs') \<subseteq> insert (e_ref n) (set (table_refs bs))"
    using put_spec_refs [OF x(4)] by (auto simp: table_refs_entries sets)
  assume j: "j \<noteq> e_id n"
  show "getEntry bs' j = getEntry bs j \<or> getEntry bs' j = None"
  proof (cases "getEntry bs' j")
    case (Some e)
    then have "e \<in> set (all_entries bs)" "e_id e = j"
      using getEntry_iff [OF x(1)] put_spec_other [OF x(4), of e] j by (auto simp: sets)
    then show ?thesis using Some getEntry_iff [OF inv] by metis
  qed simp
qed

interpretation rt: node_table rt_inv getEntry "\<lambda>bs. set (table_refs bs)" "\<lambda>now. rt_put now self" rt_remove for self
proof unfold_locales
  fix bs now and n :: kbucket_entry
  assume "rt_inv bs" "e_ref n \<notin> set (table_refs bs)"
  then show "\<exists>bs'. rt_put now self n bs = Some bs'" using rt_put_correct [of bs n now self] by (metis fresh_for_def)
next
  fix bs now i
  assume "rt_inv bs"
  then show "set (table_refs (rt_remove now i bs)) \<subseteq> set (table_refs bs)"
    using rt_remove_spec(2) by (auto simp: table_refs_entries)
qed (use rt_put_other rt_remove_spec getEntry_remove in \<open>auto simp: fresh_for_def\<close>)

section \<open>All states of a table\<close>

text \<open>
  The operations of the table in any order. The second component of the state is the next unused object
  identity: every node that is put is a new object.
\<close>

inductive table_step :: "id \<Rightarrow> table \<times> nat \<Rightarrow> table \<times> nat \<Rightarrow> bool" for self where
  step_put: "rt_put now self (n\<lparr>e_ref := c\<rparr>) bs = Some bs' \<Longrightarrow> table_step self (bs, c) (bs', Suc c)"
| step_remove: "table_step self (bs, c) (rt_remove now i bs, c)"
| step_onTimeout: "table_step self (bs, c) (rt_onTimeout now i bs, c)"
| step_onSend: "table_step self (bs, c) (rt_onSend now i bs, c)"
| step_refreshOnly: "table_step self (bs, c) (rt_refreshOnly n bs, c)"
| step_maintenance: "rt_maintenance now self boots (t0, bs) = Some (t, bs', r) \<Longrightarrow> table_step self (bs, c) (bs', c)"

inductive_cases table_stepE: "table_step self s s'"

definition table_ok :: "table \<times> nat \<Rightarrow> bool" where
  "table_ok s \<longleftrightarrow> rt_inv (fst s) \<and> (\<forall>r \<in> set (table_refs (fst s)). r < snd s)"

lemma setBucket_refs:
  assumes "rt_inv bs" and "e_ref ` set (entries b) \<subseteq> e_ref ` set (entries (getBucket bs i))"
  shows "set (table_refs (setBucket bs i b)) \<subseteq> set (table_refs bs)"
proof -
  obtain k where k: "k < length bs" "getBucket bs i = bs ! k" "\<And>c. setBucket bs i c = bs[k := c]"
    using getBucket_at [OF assms(1)] by metis
  show ?thesis
    using assms(2) all_entries_update [OF k(1), of b] all_entries_update [OF k(1), of "bs ! k"]
    by (simp add: k(2,3) table_refs_entries image_Un) blast
qed

lemma table_step_ok:
  assumes "table_step self s s'" and "table_ok s"
  shows "table_ok s'"
  using assms
proof (cases rule: table_step.cases)
  case (step_put now c n bs bs')
  then have "rt_inv bs" "fresh_for (n\<lparr>e_ref := c\<rparr>) bs" using assms(2) by (auto simp: table_ok_def fresh_for_def)
  from rt_put_other(1,2) [OF this step_put(3)] show ?thesis
    using assms(2) unfolding step_put by (auto simp: table_ok_def less_Suc_eq)
next
  case (step_maintenance now boots t0 bs t bs' r c)
  then have inv: "rt_inv bs" and old: "\<forall>r \<in> set (table_refs bs). r < c" using assms(2) by (auto simp: table_ok_def)
  obtain t1 bs1 r1 where "rt_maintenance now self boots (t0, bs) = Some (t1, bs1, r1)" "rt_inv bs1"
    "set (table_refs bs1) \<subseteq> set (table_refs bs)" using rt_maintenance_inv [OF inv] by metis
  then show ?thesis using step_maintenance old by (auto simp: table_ok_def)
next
  case (step_remove bs c now i)
  then show ?thesis using assms(2) rt.remove_invar [of bs now i] rt.remove_refs [of bs now i] by (auto simp: table_ok_def)
next
  case (step_onTimeout bs c now i)
  then show ?thesis
    using assms(2) rt_onTimeout_inv [of bs now i] setBucket_refs [OF _ onTimeout_frame(2), of bs i now i]
    by (auto simp: table_ok_def rt_onTimeout_def)
next
  case (step_onSend bs c now i)
  then show ?thesis using assms(2) rt_onSend_inv setBucket_refs [of bs "b_onSend now i (getBucket bs i)" i]
    by (auto simp: table_ok_def rt_onSend_def b_onSend_def update_first_refs entry_frame)
next
  case (step_refreshOnly bs c n)
  then show ?thesis using assms(2) rt_refreshOnly_inv setBucket_refs [of bs "b_refresh n (getBucket bs (e_id n))" "e_id n"]
    by (auto simp: table_ok_def rt_refreshOnly_def b_refresh_def update_first_refs entry_frame)
qed

lemma table_reachable_ok: "(table_step self)\<^sup>*\<^sup>* (init_table, 0) s \<Longrightarrow> table_ok s"
proof (induction rule: rtranclp_induct)
  case base
  have "table_refs init_table = []" by (simp add: init_table_def table_refs_def mk_bucket_def)
  then show ?case using init_table_inv by (simp add: table_ok_def)
qed (rule table_step_ok)

section \<open>Correctness\<close>

lemma reachable_inv:
  assumes "(table_step self)\<^sup>*\<^sup>* (init_table, 0) (bs, c)"
  shows "rt_inv bs" and "e_ref n \<notin> set (table_refs bs) \<or> e_ref n < c" and "fresh_for (n\<lparr>e_ref := c\<rparr>) bs"
  using table_reachable_ok [OF assms] by (auto simp: table_ok_def fresh_for_def)

text \<open>
  C1: in every state the operations of the routing table can bring it to, each identifier is covered by exactly one
  bucket, and the binary search of \<^verbatim>\<open>RoutingTable::indexOf\<close> returns the index of that bucket.
\<close>

theorem reachable_indexOf:
  assumes "(table_step self)\<^sup>*\<^sup>* (init_table, 0) (bs, c)"
  shows "(\<exists>!k. k < length bs \<and> isPrefixOf (b_prefix (bs ! k)) i) \<and> 0 \<le> indexOf bs i \<and>
    nat (indexOf bs i) < length bs \<and> isPrefixOf (b_prefix (bs ! nat (indexOf bs i))) i"
proof -
  note inv = reachable_inv(1) [OF assms]
  obtain r where "indexOf bs i = int r" "r < length bs" "isPrefixOf (b_prefix (bs ! r)) i"
    using indexOf_covers [OF inv] by metis
  then show ?thesis using cover_unique [OF inv] by auto
qed

theorem reachable_indexOf_witness:
  "(\<exists>!k. k < length init_table \<and> isPrefixOf (b_prefix (init_table ! k)) MAX_ID) \<and> 0 \<le> indexOf init_table MAX_ID \<and>
    nat (indexOf init_table MAX_ID) < length init_table \<and> isPrefixOf (b_prefix (init_table ! nat (indexOf init_table MAX_ID))) MAX_ID"
  by (rule reachable_indexOf [where c = 0]) (rule rtranclp.rtrancl_refl)

lemma put_in_bucket:
  assumes inv: "rt_inv bs" and fresh: "fresh_for n bs"
  obtains bs' b' where "rt_put now self n bs = Some bs'" "rt_inv bs'" "b' = getBucket bs' (e_id n)" "isPrefixOf (b_prefix b') (e_id n)"
    "put_spec now n (filter_mset (within (b_prefix b')) (mset (all_entries bs))) (mset (entries b'))"
    "filter_mset (within (b_prefix b')) (mset (all_entries bs')) = mset (entries b')"
    "filter_mset (\<lambda>e. \<not> within (b_prefix b') e) (mset (all_entries bs')) = filter_mset (\<lambda>e. \<not> within (b_prefix b') e) (mset (all_entries bs))"
    "\<not> rt_needsSplit now (getBucket bs (e_id n)) n \<longrightarrow> map b_prefix bs' = map b_prefix bs"
proof -
  obtain bs1 where p: "rt_put now self n bs = Some (setBucket bs1 (e_id n) (b_put now n (getBucket bs1 (e_id n))))"
    "rt_inv bs1" "fresh_for n bs1" "mset (all_entries bs1) = mset (all_entries bs)" "\<not> rt_needsSplit now (getBucket bs (e_id n)) n \<Longrightarrow> bs1 = bs"
    using rt_put_at [OF assms, of now self] by metis
  obtain k where k: "k < length bs1" "getBucket bs1 (e_id n) = bs1 ! k" "isPrefixOf (b_prefix (bs1 ! k)) (e_id n)"
    "\<And>b. setBucket bs1 (e_id n) b = bs1[k := b]" using getBucket_at [OF p(2)] by metis
  define b' where "b' = b_put now n (bs1 ! k)"
  have bi: "bucket_inv (bs1 ! k)" using p(2) k(1) by (simp add: rt_inv_def)
  then have f: "b_prefix b' = b_prefix (bs1 ! k)" by (simp add: b'_def)
  have inv': "rt_inv (bs1[k := b'])" using setBucket_put(1) [OF p(2,3), of now] k by (simp add: b'_def)
  have at: "(bs1[k := b']) ! k = b'" "k < length (bs1[k := b'])" using k(1) by simp_all
  have g: "getBucket (bs1[k := b']) (e_id n) = b'" using k(3) f at by (intro getBucket_unique [OF inv']) (auto simp: in_set_conv_nth)
  note w1 = entries_within [OF p(2) k(1), folded f, unfolded p(4)] and w2 = entries_within [OF inv' at(2), unfolded at(1)]
  have "put_spec now n (mset (entries (bs1 ! k))) (mset (entries b'))" using b_put_refines [of "b_prefix (bs1 ! k)"] bi by (simp add: b'_def bucket_inv_def)
  moreover have "map b_prefix (bs1[k := b']) = map b_prefix bs1" using f k(1) by (simp add: map_update list_update_same_conv)
  moreover have "\<not> rt_needsSplit now (getBucket bs (e_id n)) n \<longrightarrow> map b_prefix (bs1[k := b']) = map b_prefix bs" using calculation(2) p(5) by metis
  ultimately show thesis using that [of "bs1[k := b']" b'] p(1) k inv' g w1 w2 f by (simp add: b'_def)
qed

text \<open>
  C2: in every reachable state \<^verbatim>\<open>RoutingTable::_put\<close> of a new object ends although it may split buckets again and again, and
  the table keeps its invariant. The node is put into the one bucket that covers it afterwards, as the contract of a bucket allows for the
  entries the table had with the prefix of this bucket; all other entries stay as they are, and a table whose bucket of the node is not full
  keeps its buckets.
\<close>

theorem put_ends_and_refines:
  assumes "(table_step self)\<^sup>*\<^sup>* (init_table, 0) (bs, c)"
  shows "\<exists>bs' b'. rt_put now self (n\<lparr>e_ref := c\<rparr>) bs = Some bs' \<and> rt_inv bs' \<and> b' = getBucket bs' (e_id n) \<and> isPrefixOf (b_prefix b') (e_id n) \<and>
    put_spec now (n\<lparr>e_ref := c\<rparr>) (filter_mset (within (b_prefix b')) (mset (all_entries bs))) (mset (entries b')) \<and>
    filter_mset (within (b_prefix b')) (mset (all_entries bs')) = mset (entries b') \<and>
    filter_mset (\<lambda>e. \<not> within (b_prefix b') e) (mset (all_entries bs')) = filter_mset (\<lambda>e. \<not> within (b_prefix b') e) (mset (all_entries bs)) \<and>
    (\<not> b_isFull (getBucket bs (e_id n)) \<longrightarrow> map b_prefix bs' = map b_prefix bs)"
proof -
  have "fresh_for (n\<lparr>e_ref := c\<rparr>) bs" "rt_inv bs" using reachable_inv [OF assms] by simp_all
  then obtain bs' b' where "rt_put now self (n\<lparr>e_ref := c\<rparr>) bs = Some bs'" "rt_inv bs'" "b' = getBucket bs' (e_id n)" "isPrefixOf (b_prefix b') (e_id n)"
    "put_spec now (n\<lparr>e_ref := c\<rparr>) (filter_mset (within (b_prefix b')) (mset (all_entries bs))) (mset (entries b'))"
    "filter_mset (within (b_prefix b')) (mset (all_entries bs')) = mset (entries b')"
    "filter_mset (\<lambda>e. \<not> within (b_prefix b') e) (mset (all_entries bs')) = filter_mset (\<lambda>e. \<not> within (b_prefix b') e) (mset (all_entries bs))"
    "\<not> rt_needsSplit now (getBucket bs (e_id n)) (n\<lparr>e_ref := c\<rparr>) \<longrightarrow> map b_prefix bs' = map b_prefix bs"
    using put_in_bucket [of bs "n\<lparr>e_ref := c\<rparr>" now self] by (simp, blast)
  moreover have "\<not> rt_needsSplit now (getBucket bs (e_id n)) (n\<lparr>e_ref := c\<rparr>)" if "\<not> b_isFull (getBucket bs (e_id n))"
    using that by (simp add: rt_needsSplit_def)
  ultimately show ?thesis by blast
qed

theorem put_ends_and_refines_witness:
  "\<exists>bs'. rt_put 7 zero_id ((signalResponse 4 (mk_entry 0 MAX_ID (Inet 1 1) 0 0))\<lparr>e_ref := 0\<rparr>) init_table = Some bs' \<and> rt_inv bs' \<and>
     mset (all_entries bs') = {#(signalResponse 4 (mk_entry 0 MAX_ID (Inet 1 1) 0 0))\<lparr>e_ref := 0\<rparr>#} \<and> map b_prefix bs' = [all_prefix]"
proof -
  let ?n = "signalResponse 4 (mk_entry 0 MAX_ID (Inet 1 1) 0 0)"
  obtain bs' b' where b': "b' = getBucket bs' (e_id ?n)" "isPrefixOf (b_prefix b') (e_id ?n)" and p: "rt_put 7 zero_id (?n\<lparr>e_ref := 0\<rparr>) init_table = Some bs'" "rt_inv bs'"
    "put_spec 7 (?n\<lparr>e_ref := 0\<rparr>) (filter_mset (within (b_prefix b')) (mset (all_entries init_table))) (mset (entries b'))"
    "filter_mset (within (b_prefix b')) (mset (all_entries bs')) = mset (entries b')"
    "filter_mset (\<lambda>e. \<not> within (b_prefix b') e) (mset (all_entries bs')) = filter_mset (\<lambda>e. \<not> within (b_prefix b') e) (mset (all_entries init_table))"
    "\<not> b_isFull (getBucket init_table (e_id ?n)) \<longrightarrow> map b_prefix bs' = map b_prefix init_table"
    using put_ends_and_refines [where self = zero_id and now = 7 and n = ?n, OF rtranclp.rtrancl_refl] by (elim exE conjE) (rule that)
  have e: "all_entries init_table = []" by (simp add: init_table_def mk_bucket_def)
  have "reachable ?n" by (simp add: signalResponse_def mk_entry_def)
  then have "mset (entries b') = {#?n\<lparr>e_ref := 0\<rparr>#}" using p(3) unfolding e by (auto elim: put_specE)
  then have "mset (all_entries bs') = {#?n\<lparr>e_ref := 0\<rparr>#}" using multiset_partition [of "mset (all_entries bs')" "within (b_prefix b')"] p(4,5) e by simp
  moreover have "map b_prefix init_table = [all_prefix]" "\<not> b_isFull (getBucket init_table (e_id ?n))"
    using wf_all_prefix(1) getBucket_unique [OF init_table_inv, of "mk_bucket all_prefix True" "e_id ?n"]
    by (simp_all add: init_table_def mk_bucket_def b_isFull_def prefix_copy_id getBucket_def)
  ultimately show ?thesis using p(1,2,6) by auto
qed

text \<open>
  C5: in every reachable state \<^verbatim>\<open>getEntry\<close> finds a node exactly if the table holds it; \<^verbatim>\<open>_remove\<close> removes the node
  with the identifier and nothing else; and a removed node stays out while other nodes are loaded.
\<close>

theorem remove_then_load:
  assumes reach: "(table_step self)\<^sup>*\<^sup>* (init_table, 0) (bs, c)"
    and new: "distinct (map e_ref ns)" "e_ref ` set ns \<inter> set (table_refs bs) = {}" "i \<notin> e_id ` set ns"
  shows "(getEntry bs j = Some e) = (e \<in> set (all_entries bs) \<and> e_id e = j) \<and>
    getEntry (rt_remove now i bs) j = (if j = i then None else getEntry bs j) \<and>
    (\<exists>bs'. rt_load now self ns (rt_remove now i bs) = Some bs' \<and> rt_inv bs' \<and> getEntry bs' i = None)"
  using reachable_inv(1) [OF reach] rt.removed_stays_out [OF _ new]
  by (auto simp: getEntry_iff getEntry_remove rt_load_def)

theorem remove_then_load_witness:
  "(getEntry init_table zero_id = Some (mk_entry 0 zero_id Unspec 0 0)) =
     (mk_entry 0 zero_id Unspec 0 0 \<in> set (all_entries init_table) \<and> e_id (mk_entry 0 zero_id Unspec 0 0) = zero_id) \<and>
    getEntry (rt_remove 5 MAX_ID init_table) zero_id = (if zero_id = MAX_ID then None else getEntry init_table zero_id) \<and>
    (\<exists>bs'. rt_load 5 zero_id [signalResponse 4 (mk_entry 0 zero_id (Inet 1 1) 0 0)] (rt_remove 5 MAX_ID init_table) = Some bs' \<and>
       rt_inv bs' \<and> getEntry bs' MAX_ID = None)"
proof (rule remove_then_load)
  show "(table_step zero_id)\<^sup>*\<^sup>* (init_table, 0) (init_table, 0)" by simp
  show "MAX_ID \<notin> e_id ` set [signalResponse 4 (mk_entry 0 zero_id (Inet 1 1) 0 0)]"
    by (simp add: entry_frame mk_entry_def)
qed (simp_all add: init_table_def table_refs_def)

text \<open>
  C4: in every reachable state \<^verbatim>\<open>_maintenance\<close> ends with a table that keeps the invariant and holds no object the old
  one did not hold; the loop over the buckets never inserts while it iterates, so no iterator is invalidated
  (that would be \<open>None\<close>).
\<close>

theorem maintenance_safe:
  assumes "(table_step self)\<^sup>*\<^sup>* (init_table, 0) (bs, c)"
  shows "\<exists>t bs' r. rt_maintenance now self boots (t0, bs) = Some (t, bs', r) \<and> rt_inv bs' \<and>
    set (table_refs bs') \<subseteq> set (table_refs bs)"
  using rt_maintenance_inv [OF reachable_inv(1) [OF assms], of now self boots t0] by metis

theorem maintenance_safe_witness:
  "\<exists>t bs' r. rt_maintenance 1000000 zero_id [] (0, init_table) = Some (t, bs', r) \<and> rt_inv bs' \<and>
    set (table_refs bs') \<subseteq> set (table_refs init_table)"
  by (rule maintenance_safe [where c = 0]) (rule rtranclp.rtrancl_refl)

end
