(* ===== verification/Dht.thy ===== *)
theory Dht
  imports Storage Rpc_Server Tokens KClosest Node_Table
begin

text \<open>
  The DHT of one address family, \<^verbatim>\<open>src/core/dht.cc\<close>: what a node does with the messages the server hands to it. The
  state of a node is its two DHTs, the server, the token manager and the store, which both DHTs share; a handler
  belongs to the DHT of the network it gets. The result of a handler is \<open>None\<close> when the code dereferences a
  null pointer; otherwise it is the new state and whether an exception leaves the handler, with the changes made before.
  Objects of the routing table have numbers as identities, \<open>d_nextRef\<close> is the next one. Tasks that the DHT starts
  to ping a bucket are recorded by the prefix of the bucket. \<^verbatim>\<open>isBogon\<close> is the test of the normal build
  (without \<^verbatim>\<open>BOSON_DEVELOPMENT\<close>).
\<close>

datatype connection_status = Disconnected | Connecting | Connected | Profound

datatype completion_status = Pending | Canceled | Completed

record dht =
  d_type :: network
  d_status :: connection_status
  d_addr :: sockaddr
  routingTable :: table
  d_nextRef :: nat
  bootstrapNodes :: "node_info list"
  knownNodes :: "sockaddr \<rightharpoonup> id"
  needUpdateBootstrap :: bool
  lastBootstrap :: u64
  stageHome :: completion_status
  stageAll :: completion_status
  d_running :: bool
  pingTasks :: "prefix list"
  statusEvents :: "(connection_status \<times> connection_status) list" \<comment> \<open>new and old status, as reported to the listeners\<close>

record node =
  dht4 :: "dht option"
  dht6 :: "dht option"
  nd_server :: server
  nd_tokens :: token_manager
  nd_storage :: storage
  nd_config :: "kbucket_entry list" \<comment> \<open>the bootstrap nodes of the configuration\<close>

type_synonym handled = "(node \<times> bool) option"

definition getDHT :: "network \<Rightarrow> node \<Rightarrow> dht option" where
  "getDHT net nd = (case net of IPv4 \<Rightarrow> dht4 nd | IPv6 \<Rightarrow> dht6 nd)"

definition setDHT :: "network \<Rightarrow> dht \<Rightarrow> node \<Rightarrow> node" where
  "setDHT net d nd = (case net of IPv4 \<Rightarrow> nd\<lparr>dht4 := Some d\<rparr> | IPv6 \<Rightarrow> nd\<lparr>dht6 := Some d\<rparr>)"

section \<open>Connection status\<close>

definition mk_dht :: "network \<Rightarrow> sockaddr \<Rightarrow> dht" where
  "mk_dht type addr =
     \<lparr>d_type = type, d_status = Disconnected, d_addr = addr, routingTable = init_table, d_nextRef = 0, bootstrapNodes = [],
      knownNodes = Map.empty, needUpdateBootstrap = False, lastBootstrap = 0, stageHome = Pending, stageAll = Pending,
      d_running = False, pingTasks = [], statusEvents = []\<rparr>"

definition setStatus :: "connection_status \<Rightarrow> connection_status \<Rightarrow> dht \<Rightarrow> dht" where
  "setStatus expected newStatus d =
     (if d_status d \<noteq> expected then d
      else d\<lparr>d_status := newStatus, statusEvents := statusEvents d @ [(newStatus, d_status d)]\<rparr>)"

definition updateConnectionStatus :: "dht \<Rightarrow> dht" where
  "updateConnectionStatus d =
     (if getNumBucketEntries (routingTable d) = 0 then d
      else if stageAll d \<noteq> Pending then setStatus Connected Profound d
      else if stageHome d \<noteq> Pending then setStatus Connecting Connected d
      else d)"

definition stage_fillHomeBucket :: "completion_status \<Rightarrow> dht \<Rightarrow> dht" where
  "stage_fillHomeBucket status d = (if stageHome d = status then d else updateConnectionStatus (d\<lparr>stageHome := status\<rparr>))"

definition stage_fillAllBuckets :: "completion_status \<Rightarrow> dht \<Rightarrow> dht" where
  "stage_fillAllBuckets status d = (if stageAll d = status then d else updateConnectionStatus (d\<lparr>stageAll := status\<rparr>))"

definition clearBootstrapStatus :: "dht \<Rightarrow> dht" where
  "clearBootstrapStatus d = d\<lparr>stageHome := Pending, stageAll := Pending\<rparr>"

text \<open>\<^verbatim>\<open>bootstrap(nis)\<close>: nodes of this network that are not known yet; nodes are equal when identifier and address are.\<close>

definition bootstrap_node :: "id \<Rightarrow> node_info \<Rightarrow> dht \<times> nat \<Rightarrow> dht \<times> nat" where
  "bootstrap_node self ni s =
     (let (d, added) = s in
      if \<not> canUseSocketAddress (d_type d) (n_addr ni) then s
      else if n_id ni = self then s
      else if \<exists>b \<in> set (bootstrapNodes d). n_id b = n_id ni \<and> n_addr b = n_addr ni then s
      else (d\<lparr>bootstrapNodes := bootstrapNodes d @ [ni]\<rparr>, added + 1))"

definition bootstrap_nodes :: "id \<Rightarrow> node_info list \<Rightarrow> dht \<Rightarrow> dht" where
  "bootstrap_nodes self nis d =
     (let (d, added) = fold (bootstrap_node self) nis (d, 0)
      in if added > 0 then d\<lparr>lastBootstrap := 0, needUpdateBootstrap := True\<rparr> else d)"

section \<open>Answers\<close>

definition send :: "env \<Rightarrow> received \<Rightarrow> body \<Rightarrow> node \<Rightarrow> node \<times> bool" where
  "send E m b nd =
     (let (sv, acts, thrown) = sendMessage E \<lparr>m_txid = m_txid (rm_msg m), m_version = 0, m_body = b\<rparr> (rm_id m) (rm_origin m) (nd_server nd)
      in (nd\<lparr>nd_server := sv\<rparr>, thrown))"

definition dht_sendError :: "env \<Rightarrow> received \<Rightarrow> int \<Rightarrow> string \<Rightarrow> node \<Rightarrow> node \<times> bool" where
  "dht_sendError E m code err nd =
     (let (sv, acts, thrown) = sendError E m code err (nd_server nd) in (nd\<lparr>nd_server := sv\<rparr>, thrown))"

definition as_node :: "kbucket_entry \<Rightarrow> node_info" where
  "as_node e = \<lparr>n_id = e_id e, n_addr = e_addr e, n_version = e_version e\<rparr>"

text \<open>The closest nodes of one network; the DHT of the other network may not exist.\<close>

definition closest_of :: "env \<Rightarrow> network \<Rightarrow> network \<Rightarrow> id \<Rightarrow> nat \<Rightarrow> node \<Rightarrow> node_info list option" where
  "closest_of E this net target n nd =
     (case getDHT net nd of
        None \<Rightarrow> None
      | Some d \<Rightarrow> Some (map as_node (kc_fill target isEligibleForNodesList n (routingTable d) (d_type d) (nd_config nd)
          (mk_entry 0 (env_id E) (d_addr d) 0 (env_now E)) (this = net))))"

definition populateClosestNodes ::
  "env \<Rightarrow> network \<Rightarrow> id \<Rightarrow> nat \<Rightarrow> nat \<Rightarrow> node \<Rightarrow> lookup_response \<Rightarrow> lookup_response option" where
  "populateClosestNodes E this target v4 v6 nd r =
     Option.bind (if v4 > 0 then map_option (\<lambda>ns. r\<lparr>nodes4 := ns\<rparr>) (closest_of E this IPv4 target v4 nd) else Some r)
       (\<lambda>r. if v6 > 0 then map_option (\<lambda>ns. r\<lparr>nodes6 := ns\<rparr>) (closest_of E this IPv6 target v6 nd) else Some r)"

definition wanted :: "bool \<Rightarrow> nat" where
  "wanted w = (if w then MAX_ENTRIES_PER_BUCKET else 0)"

definition onPing :: "env \<Rightarrow> received \<Rightarrow> node \<Rightarrow> handled" where
  "onPing E m nd = Some (send E m PingResponse nd)"

definition onFindNode :: "env \<Rightarrow> network \<Rightarrow> lookup_request \<Rightarrow> received \<Rightarrow> node \<Rightarrow> handled" where
  "onFindNode E this q m nd =
     (case populateClosestNodes E this (lr_target q) (wanted (want4 q)) (wanted (want6 q)) nd empty_response of
        None \<Rightarrow> None
      | Some r \<Rightarrow>
          let (r, tm) = (if wantToken q
                then let (token, tm) = generateToken (c_sha256 (env_crypto E)) (env_now E) (rm_id m) (rm_origin m) (lr_target q) (nd_tokens nd)
                     in (r\<lparr>res_token := token\<rparr>, tm)
                else (r, nd_tokens nd))
          in Some (send E m (FindNodeResponse r) (nd\<lparr>nd_tokens := tm\<rparr>)))"

definition onFindValue :: "env \<Rightarrow> network \<Rightarrow> lookup_request \<Rightarrow> int \<Rightarrow> received \<Rightarrow> node \<Rightarrow> handled" where
  "onFindValue E this q seq m nd =
     (let (token, tm) = generateToken (c_sha256 (env_crypto E)) (env_now E) (rm_id m) (rm_origin m) (env_id E) (nd_tokens nd);
          nd = nd\<lparr>nd_tokens := tm\<rparr>;
          r = empty_response\<lparr>res_token := token\<rparr>
      in case st_getValue (env_now E) (lr_target q) (nd_storage nd) of
           Inl _ \<Rightarrow> Some (nd, True)
         | Inr v \<Rightarrow>
             (case Option.bind v (\<lambda>v. if seq < 0 \<or> v_sequenceNumber v < 0 \<or> seq \<le> v_sequenceNumber v then Some v else None) of
                Some v \<Rightarrow> Some (send E m (FindValueResponse r (setValue v)) nd)
              | None \<Rightarrow>
                  map_option (\<lambda>r. send E m (FindValueResponse r empty_fields) nd)
                    (populateClosestNodes E this (lr_target q) (wanted (want4 q)) (wanted (want6 q)) nd r)))"

definition onStoreValue :: "env \<Rightarrow> int \<Rightarrow> value_fields \<Rightarrow> int \<Rightarrow> received \<Rightarrow> node \<Rightarrow> handled" where
  "onStoreValue E token f expected m nd =
     (case getValue f of
        Inl _ \<Rightarrow> Some (nd, True)
      | Inr v \<Rightarrow>
          (case v_getId (env_crypto E) v of
             None \<Rightarrow> Some (nd, True)
           | Some valueId \<Rightarrow>
               let (ok, tm) = verifyToken (c_sha256 (env_crypto E)) (env_now E) token (rm_id m) (rm_origin m) valueId (nd_tokens nd);
                   nd = nd\<lparr>nd_tokens := tm\<rparr>
               in if \<not> ok then Some (dht_sendError E m ProtocolError ''Invalid token for STORE VALUE request'' nd)
                  else if \<not> v_isValid (env_crypto E) v then Some (dht_sendError E m ProtocolError ''Invalid value'' nd)
                  else (case st_putValue (env_crypto E) (env_now E) v expected False False (nd_storage nd) of
                          Inl _ \<Rightarrow> Some (nd, True)
                        | Inr (_, st) \<Rightarrow> Some (send E m StoreValueResponse (nd\<lparr>nd_storage := st\<rparr>)))))"

text \<open>\<open>shuffle\<close> is the random order of the store.\<close>

definition onFindPeers ::
  "env \<Rightarrow> (((id \<times> id \<times> id) \<times> peer_row) list \<Rightarrow> ((id \<times> id \<times> id) \<times> peer_row) list) \<Rightarrow> network \<Rightarrow> lookup_request \<Rightarrow> received \<Rightarrow> node \<Rightarrow> handled" where
  "onFindPeers E shuffle this q m nd =
     (let (token, tm) = generateToken (c_sha256 (env_crypto E)) (env_now E) (rm_id m) (rm_origin m) (lr_target q) (nd_tokens nd);
          nd = nd\<lparr>nd_tokens := tm\<rparr>;
          r = empty_response\<lparr>res_token := token\<rparr>
      in case st_getPeers (env_crypto E) (env_now E) shuffle (lr_target q) 8 (nd_storage nd) of
           Inl _ \<Rightarrow> Some (nd, True)
         | Inr ps \<Rightarrow>
             if ps \<noteq> [] then Some (send E m (FindPeerResponse r ps) nd)
             else map_option (\<lambda>r. send E m (FindPeerResponse r []) nd)
                    (populateClosestNodes E this (lr_target q) (wanted (want4 q)) (wanted (want6 q)) nd r))"

definition onAnnouncePeer :: "env \<Rightarrow> announce_request \<Rightarrow> received \<Rightarrow> node \<Rightarrow> handled" where
  "onAnnouncePeer E a m nd =
     (case isBogon (rm_origin m) of
        None \<Rightarrow> Some (nd, True)
      | Some bogon \<Rightarrow>
          if bogon then Some (nd, False)
          else
            let (ok, tm) = verifyToken (c_sha256 (env_crypto E)) (env_now E) (a_token a) (rm_id m) (rm_origin m) (a_peerId a) (nd_tokens nd);
                nd = nd\<lparr>nd_tokens := tm\<rparr>
            in if \<not> ok then Some (dht_sendError E m ProtocolError ''Invalid token for ANNOUNCE PEER request'' nd)
               else (case getPeer (env_crypto E) (rm_id m) a of
                       Inl _ \<Rightarrow> Some (nd, True)
                     | Inr p \<Rightarrow> Some (send E m AnnouncePeerResponse (nd\<lparr>nd_storage := st_putPeer (env_now E) p False False (nd_storage nd)\<rparr>))))"

text \<open>\<^verbatim>\<open>onRequest\<close>, \<^verbatim>\<open>onResponse\<close> and \<^verbatim>\<open>onError\<close>: only requests have an effect.\<close>

definition onRequest ::
  "env \<Rightarrow> (((id \<times> id \<times> id) \<times> peer_row) list \<Rightarrow> ((id \<times> id \<times> id) \<times> peer_row) list) \<Rightarrow> network \<Rightarrow> received \<Rightarrow> node \<Rightarrow> handled" where
  "onRequest E shuffle this m nd =
     (case m_body (rm_msg m) of
        PingRequest \<Rightarrow> onPing E m nd
      | FindNodeRequest q \<Rightarrow> onFindNode E this q m nd
      | FindValueRequest q seq \<Rightarrow> onFindValue E this q seq m nd
      | StoreValueRequest token f expected \<Rightarrow> onStoreValue E token f expected m nd
      | FindPeerRequest q \<Rightarrow> onFindPeers E shuffle this q m nd
      | AnnouncePeerRequest a \<Rightarrow> onAnnouncePeer E a m nd
      | _ \<Rightarrow> Some (nd, False))"
section \<open>Keeping the routing table\<close>

definition dht_onSend :: "env \<Rightarrow> id \<Rightarrow> dht \<Rightarrow> dht" where
  "dht_onSend E i d = (if \<not> d_running d then d else d\<lparr>routingTable := rt_onSend (env_now E) i (routingTable d)\<rparr>)"

definition dht_onTimeout :: "env \<Rightarrow> bool \<Rightarrow> id \<Rightarrow> dht \<Rightarrow> dht" where
  "dht_onTimeout E serverReachable i d =
     (if \<not> d_running d \<or> \<not> serverReachable then d else d\<lparr>routingTable := rt_onTimeout (env_now E) i (routingTable d)\<rparr>)"

text \<open>The call that verifies a new node.\<close>

definition verify_call :: "kbucket_entry \<Rightarrow> rpc_call" where
  "verify_call e = mk_call (as_node e) (reachable e) \<lparr>m_txid = 0, m_version = 0, m_body = PingRequest\<rparr>"

text \<open>The last part of \<^verbatim>\<open>received\<close>: the sender becomes a new entry that is put into the table.\<close>

definition register_sender :: "env \<Rightarrow> received \<Rightarrow> rpc_call option \<Rightarrow> dht \<times> server \<Rightarrow> (dht \<times> server \<times> bool) option" where
  "register_sender E m call s =
     (let (d, sv) = s;
          old = getEntry (routingTable d) (rm_id m);
          e = mk_entry (d_nextRef d) (rm_id m) (rm_origin m) (m_version (rm_msg m)) (env_now E);
          d = d\<lparr>knownNodes := (knownNodes d)(rm_origin m \<mapsto> rm_id m), d_nextRef := d_nextRef d + 1\<rparr>;
          (e, d, sv, thrown) =
            (case call of
               Some c \<Rightarrow> (mergeRequestTime (sentTime c) (signalResponse (env_now E) e), d, sv, False)
             | None \<Rightarrow>
                 if old = None
                 then let (sv, acts, thrown) = sendCall E (verify_call e) sv in (e, if DhtSend (rm_id m) \<in> set acts then dht_onSend E (rm_id m) d else d, sv, thrown)
                 else (e, d, sv, False))
      in if thrown then Some (d, sv, True)
         else map_option (\<lambda>bs. (d\<lparr>routingTable := bs\<rparr>, sv, False)) (rt_put (env_now E) (env_id E) e (routingTable d)))"

definition received_from :: "env \<Rightarrow> received \<Rightarrow> rpc_call option \<Rightarrow> dht \<times> server \<Rightarrow> (dht \<times> server \<times> bool) option" where
  "received_from E m call s =
     (let (d, sv) = s; addr = rm_origin m; i = rm_id m; bs = routingTable d in
      case isBogon addr of
        None \<Rightarrow> Some (d, sv, True)
      | Some bogon \<Rightarrow>
          if bogon then Some (d, sv, False)
          else if (case call of Some c \<Rightarrow> \<not> matchesAddress c \<or> \<not> matchesId c | None \<Rightarrow> False) then Some (d, sv, False)
          else if (case getEntry bs i of Some old \<Rightarrow> \<not> sa_eq (e_addr old) addr | None \<Rightarrow> False) then Some (d, sv, False)
          else
            (case knownNodes d addr of
               Some knownId \<Rightarrow>
                 if knownId = i then register_sender E m call (d, sv)
                 else if getEntry bs knownId \<noteq> None
                 then let bs = rt_remove (env_now E) knownId bs
                      in Some (d\<lparr>routingTable := bs, pingTasks := pingTasks d @ [b_prefix (getBucket bs knownId)],
                                 knownNodes := (knownNodes d)(addr \<mapsto> i)\<rparr>, sv, False)
                 else register_sender E m call (d\<lparr>knownNodes := (knownNodes d)(addr := None)\<rparr>, sv)
             | None \<Rightarrow> register_sender E m call (d, sv)))"

text \<open>\<^verbatim>\<open>onMessage\<close>: the handler for the type of the message, then \<^verbatim>\<open>received\<close>.\<close>

definition onMessage ::
  "env \<Rightarrow> (((id \<times> id \<times> id) \<times> peer_row) list \<Rightarrow> ((id \<times> id \<times> id) \<times> peer_row) list) \<Rightarrow> network \<Rightarrow> received \<Rightarrow> rpc_call option \<Rightarrow> node \<Rightarrow> handled" where
  "onMessage E shuffle this m call nd =
     (case getDHT this nd of
        None \<Rightarrow> None
      | Some d \<Rightarrow>
          if \<not> d_running d then Some (nd, False)
          else if rm_id m = env_id E \<or> sa_eq (d_addr d) (rm_origin m) then Some (nd, False)
          else
            (case (if body_type (m_body (rm_msg m)) = REQUEST then onRequest E shuffle this m nd else Some (nd, False)) of
               None \<Rightarrow> None
             | Some (nd, thrown) \<Rightarrow>
                 if thrown then Some (nd, True)
                 else map_option (\<lambda>(d, sv, thrown). (setDHT this d (nd\<lparr>nd_server := sv\<rparr>), thrown)) (received_from E m call (d, nd_server nd))))"

section \<open>Packets\<close>

text \<open>
  What the server reports is handed to the DHT of the address family: \<^verbatim>\<open>RPCServer::handleMessage\<close>, and \<^verbatim>\<open>onSend\<close>
  and \<^verbatim>\<open>onTimeout\<close> of the DHT a call belongs to. The handlers of a call belong to its task.
\<close>

definition family_net :: "sockaddr \<Rightarrow> network" where
  "family_net a = (if sa_family_of a = AF_INET then IPv4 else IPv6)"

fun perform ::
  "env \<Rightarrow> (((id \<times> id \<times> id) \<times> peer_row) list \<Rightarrow> ((id \<times> id \<times> id) \<times> peer_row) list) \<Rightarrow> action list \<Rightarrow> node \<Rightarrow> handled" where
  "perform E shuffle [] nd = Some (nd, False)"
| "perform E shuffle (DhtMessage m call # acts) nd =
     (case onMessage E shuffle (family_net (rm_origin m)) m call nd of
        None \<Rightarrow> None
      | Some (nd, thrown) \<Rightarrow> if thrown then Some (nd, True) else perform E shuffle acts nd)"
| "perform E shuffle (_ # acts) nd = perform E shuffle acts nd"

text \<open>One packet of the receive loop; an exception ends the loop.\<close>

definition node_packet ::
  "env \<Rightarrow> (((id \<times> id \<times> id) \<times> peer_row) list \<Rightarrow> ((id \<times> id \<times> id) \<times> peer_row) list) \<Rightarrow> u8 list \<Rightarrow> sockaddr \<Rightarrow> node \<Rightarrow> handled" where
  "node_packet E shuffle buf from_addr nd =
     (case handlePacket E buf from_addr (nd_server nd) of
        None \<Rightarrow> None
      | Some (sv, acts, thrown) \<Rightarrow>
          (case perform E shuffle acts (nd\<lparr>nd_server := sv\<rparr>) of
             None \<Rightarrow> None
           | Some (nd, thrown') \<Rightarrow> Some (nd, thrown' \<or> thrown)))"
section \<open>The table only knows verified nodes\<close>

text \<open>The nodes of a table as pairs of identifier and address.\<close>

definition known :: "table \<Rightarrow> (id \<times> sockaddr) set" where
  "known bs = (\<lambda>e. (e_id e, e_addr e)) ` set (all_entries bs)"

lemma put_spec_known:
  "put_spec now n X Y \<Longrightarrow> y \<in># Y \<Longrightarrow> (\<exists>x \<in># X. e_id y = e_id x \<and> e_addr y = e_addr x) \<or> (y = n \<and> reachable n)"
  by (erule put_spec.cases) (auto simp: entry_frame dest!: in_diffD)

lemma rt_put_known:
  assumes inv: "rt_inv bs" and fresh: "fresh_for n bs" and put: "rt_put now self n bs = Some bs'"
  shows "known bs' \<subseteq> known bs \<union> (if reachable n then {(e_id n, e_addr n)} else {})"
proof -
  obtain X X' Z where x: "mset (all_entries bs) = X + Z" "mset (all_entries bs') = X' + Z" "put_spec now n X X'"
    using rt_put_correct [OF inv fresh, of now self] put by (metis option.inject)
  have sets: "set (all_entries bs) = set_mset X \<union> set_mset Z" "set (all_entries bs') = set_mset X' \<union> set_mset Z"
    using x(1,2) by (metis set_mset_mset set_mset_union)+
  have "(e_id y, e_addr y) \<in> known bs \<or> (y = n \<and> reachable n)" if "y \<in># X'" for y
    using put_spec_known [OF x(3) that] by (auto simp: known_def sets)
  then show ?thesis by (force simp: known_def sets)
qed

lemma rt_onSend_absent:
  assumes "rt_inv bs" and "getEntry bs i = None"
  shows "rt_onSend now i bs = bs"
proof -
  have u: "update_first (\<lambda>e. e_id e = i) f xs = xs" if "find (\<lambda>e. e_id e = i) xs = None" for f and xs :: "kbucket_entry list"
    using that by (induction xs) (auto split: if_splits)
  have "find (\<lambda>e. e_id e = i) (entries (getBucket bs i)) = None" using assms(2) by (simp add: getEntry_def b_get_def findAny_def)
  from u [OF this] have "b_onSend now i (getBucket bs i) = getBucket bs i" by (simp add: b_onSend_def)
  then show ?thesis by (simp add: rt_onSend_def setBucket_def getBucket_def)
qed

text \<open>Identities of the table's objects are below the next one.\<close>

definition dht_ok :: "dht \<Rightarrow> bool" where
  "dht_ok d \<longleftrightarrow> table_ok (routingTable d, d_nextRef d)"

lemma dht_ok_inv: "dht_ok d \<Longrightarrow> rt_inv (routingTable d)"
  by (simp add: dht_ok_def table_ok_def)

lemma dht_put:
  assumes ok: "dht_ok d" and e: "e_ref e = d_nextRef d"
  obtains bs where "rt_put now self e (routingTable d) = Some bs" "table_ok (bs, Suc (d_nextRef d))"
    "known bs \<subseteq> known (routingTable d) \<union> (if reachable e then {(e_id e, e_addr e)} else {})"
proof -
  have inv: "rt_inv (routingTable d)" and new: "e_ref e \<notin> set (table_refs (routingTable d))" using ok e by (auto simp: dht_ok_def table_ok_def)
  obtain bs where bs: "rt_put now self e (routingTable d) = Some bs" using rt.put_total [OF inv new] by blast
  have "e\<lparr>e_ref := d_nextRef d\<rparr> = e" using e by (cases e) simp
  then have "table_step self (routingTable d, d_nextRef d) (bs, Suc (d_nextRef d))" using bs table_step.step_put [of now self "d_nextRef d" e] by metis
  then have "table_ok (bs, Suc (d_nextRef d))" using table_step_ok ok dht_ok_def by blast
  then show thesis using that bs rt_put_known [OF inv _ bs] new by (simp add: fresh_for_def)
qed
text \<open>
  What a message does to the table: new pairs come from answered calls only, under the identifier and the address of
  the sender; the table stays in order, and no put runs forever.
\<close>

definition sender_effect :: "received \<Rightarrow> rpc_call option \<Rightarrow> dht \<Rightarrow> dht \<Rightarrow> bool" where
  "sender_effect m call d d' \<longleftrightarrow> dht_ok d' \<and> d_type d' = d_type d \<and> d_addr d' = d_addr d \<and>
     known (routingTable d') \<subseteq> known (routingTable d) \<union> (if call = None then {} else {(rm_id m, rm_origin m)})"

lemma register_effect:
  assumes ok: "dht_ok d"
  shows "\<exists>d' sv' thrown. register_sender E m call (d, sv) = Some (d', sv', thrown) \<and> sender_effect m call d d'"
proof -
  define e where "e = mk_entry (d_nextRef d) (rm_id m) (rm_origin m) (m_version (rm_msg m)) (env_now E)"
  define d1 where "d1 = d\<lparr>knownNodes := (knownNodes d)(rm_origin m \<mapsto> rm_id m), d_nextRef := d_nextRef d + 1\<rparr>"
  have e: "e_ref e = d_nextRef d" "e_id e = rm_id m" "e_addr e = rm_origin m" "\<not> reachable e" by (simp_all add: e_def mk_entry_def)
  have d1: "dht_ok d1" "routingTable d1 = routingTable d" "d_type d1 = d_type d" "d_addr d1 = d_addr d"
    using ok by (auto simp: d1_def dht_ok_def table_ok_def less_SucI)
  have put: "\<exists>bs. rt_put (env_now E) (env_id E) n (routingTable d) = Some bs \<and> sender_effect m call d (d1\<lparr>routingTable := bs\<rparr>)"
    if n: "e_ref n = d_nextRef d" "reachable n \<longrightarrow> call \<noteq> None" "e_id n = rm_id m" "e_addr n = rm_origin m" for n
  proof -
    obtain bs where "rt_put (env_now E) (env_id E) n (routingTable d) = Some bs" "table_ok (bs, Suc (d_nextRef d))"
      "known bs \<subseteq> known (routingTable d) \<union> (if reachable n then {(e_id n, e_addr n)} else {})" using dht_put [OF ok n(1)] by metis
    then show ?thesis using n d1 by (auto simp: sender_effect_def dht_ok_def d1_def split: if_splits)
  qed
  show ?thesis
  proof (cases call)
    case (Some c)
    define n where "n = mergeRequestTime (sentTime c) (signalResponse (env_now E) e)"
    obtain bs where "rt_put (env_now E) (env_id E) n (routingTable d) = Some bs" "sender_effect m call d (d1\<lparr>routingTable := bs\<rparr>)"
      using put [of n] Some e by (auto simp: n_def mergeRequestTime_def entry_frame)
    moreover from this have "register_sender E m call (d, sv) = Some (d1\<lparr>routingTable := bs\<rparr>, sv, False)"
      using Some by (simp add: register_sender_def e_def [symmetric] n_def [symmetric] d1_def Let_def)
    ultimately show ?thesis by blast
  next
    case None
    have same: "dht_onSend E (rm_id m) d1 = d1" if "getEntry (routingTable d) (rm_id m) = None"
      using rt_onSend_absent [OF dht_ok_inv [OF ok] that] d1(2) by (simp add: dht_onSend_def d1_def)
    obtain bs where bs: "rt_put (env_now E) (env_id E) e (routingTable d) = Some bs" "sender_effect m call d (d1\<lparr>routingTable := bs\<rparr>)"
      using put [of e] e by auto
    have "sender_effect m call d d1" using d1 by (simp add: sender_effect_def)
    moreover have "\<exists>sv' thrown. register_sender E m call (d, sv) = Some (if thrown then d1 else d1\<lparr>routingTable := bs\<rparr>, sv', thrown)"
      using None bs(1) same unfolding register_sender_def e_def [symmetric] d1_def [symmetric] Let_def case_prod_conv
      by (cases "sendCall E (verify_call e) sv") (auto simp: d1(2))
    ultimately show ?thesis using bs(2) by (metis (full_types))
  qed
qed

lemma received_effect:
  assumes ok: "dht_ok d"
  shows "\<exists>d' sv' thrown. received_from E m call (d, sv) = Some (d', sv', thrown) \<and> sender_effect m call d d' \<and>
    (known (routingTable d') \<subseteq> known (routingTable d) \<or>
      (\<exists>c. call = Some c \<and> matchesAddress c \<and> matchesId c) \<and> isBogon (rm_origin m) = Some False \<and>
      (\<forall>old. getEntry (routingTable d) (rm_id m) = Some old \<longrightarrow> e_addr old = rm_origin m))"
proof -
  define good where "good \<longleftrightarrow> (\<exists>c. call = Some c \<and> matchesAddress c \<and> matchesId c) \<and> isBogon (rm_origin m) = Some False \<and>
      (\<forall>old. getEntry (routingTable d) (rm_id m) = Some old \<longrightarrow> e_addr old = rm_origin m)"
  define P where "P r \<longleftrightarrow> (\<exists>d' sv' thrown. r = Some (d', sv', thrown) \<and> sender_effect m call d d' \<and>
      (known (routingTable d') \<subseteq> known (routingTable d) \<or> good))" for r :: "(dht \<times> server \<times> bool) option"
  have same: "P (Some (d, sv, t))" for t using ok by (auto simp: P_def sender_effect_def)
  have reg: "P (register_sender E m call (d\<lparr>knownNodes := k\<rparr>, sv))" if "call = None \<or> good" for k
  proof -
    have "dht_ok (d\<lparr>knownNodes := k\<rparr>)" using ok by (simp add: dht_ok_def)
    from register_effect [OF this, of E m call sv] show ?thesis using that by (auto simp: P_def sender_effect_def)
  qed
  have reg0: "P (register_sender E m call (d, sv))" if "call = None \<or> good" using reg [OF that, of "knownNodes d"] by simp
  have rem: "P (Some (d\<lparr>routingTable := rt_remove now i (routingTable d), pingTasks := p, knownNodes := k\<rparr>, sv, False))" for now i p k
  proof -
    have "table_ok (rt_remove now i (routingTable d), d_nextRef d)"
      using table_step_ok [OF table_step.step_remove] ok by (simp add: dht_ok_def)
    moreover have "known (rt_remove now i (routingTable d)) \<subseteq> known (routingTable d)"
      using rt_remove_spec(2) [OF dht_ok_inv [OF ok], of now i] by (auto simp: known_def)
    ultimately show ?thesis by (auto simp: P_def sender_effect_def dht_ok_def)
  qed
  have "P (received_from E m call (d, sv))"
    using same rem reg reg0 unfolding received_from_def Let_def case_prod_conv sa_eq_iff good_def
    by (auto split: option.split)
  then show ?thesis unfolding P_def good_def .
qed
section \<open>The whole node\<close>

text \<open>Both tables are in order, and the store holds authentic values.\<close>

definition node_ok :: "crypto \<Rightarrow> node \<Rightarrow> bool" where
  "node_ok C nd \<longleftrightarrow> (\<forall>net d. getDHT net nd = Some d \<longrightarrow> dht_ok d) \<and> values_inv C (nd_storage nd)"

lemma getDHT_set [simp]: "getDHT net (setDHT net' d nd) = (if net = net' then Some d else getDHT net nd)"
  by (cases net; cases net') (simp_all add: getDHT_def setDHT_def)

lemma setDHT_frame [simp]: "nd_storage (setDHT net d nd) = nd_storage nd" "nd_tokens (setDHT net d nd) = nd_tokens nd"
  "nd_server (setDHT net d nd) = nd_server nd"
  by (cases net; simp add: setDHT_def)+

lemma getDHT_frame [simp]: "getDHT net (nd\<lparr>nd_server := sv\<rparr>) = getDHT net nd" "getDHT net (nd\<lparr>nd_tokens := tm\<rparr>) = getDHT net nd"
  "getDHT net (nd\<lparr>nd_storage := st\<rparr>) = getDHT net nd"
  by (cases net; simp add: getDHT_def)+

lemma send_frame [simp]:
  "nd_storage (fst (send E m b nd)) = nd_storage nd" "getDHT net (fst (send E m b nd)) = getDHT net nd"
  "nd_storage (fst (dht_sendError E m c e nd)) = nd_storage nd" "getDHT net (fst (dht_sendError E m c e nd)) = getDHT net nd"
  by (auto simp: send_def dht_sendError_def split: prod.splits)

lemma closest_total: "getDHT net nd \<noteq> None \<Longrightarrow> closest_of E this net target n nd \<noteq> None"
  by (auto simp: closest_of_def)

lemma populate_total:
  assumes "want4 q \<longrightarrow> dht4 nd \<noteq> None" and "want6 q \<longrightarrow> dht6 nd \<noteq> None"
  shows "populateClosestNodes E this target (wanted (want4 q)) (wanted (want6 q)) nd r \<noteq> None"
proof -
  have "\<exists>r1. (if wanted (want4 q) > 0 then map_option (\<lambda>ns. r\<lparr>nodes4 := ns\<rparr>) (closest_of E this IPv4 target (wanted (want4 q)) nd) else Some r) = Some r1"
    using closest_total [of IPv4 nd E this target "wanted (want4 q)"] assms(1) by (auto simp: getDHT_def wanted_def)
  then obtain r1 where 1: "(if wanted (want4 q) > 0 then map_option (\<lambda>ns. r\<lparr>nodes4 := ns\<rparr>) (closest_of E this IPv4 target (wanted (want4 q)) nd) else Some r) = Some r1" ..
  have "closest_of E this IPv6 target (wanted (want6 q)) nd \<noteq> None" if "wanted (want6 q) > 0"
    using that assms(2) by (intro closest_total) (simp add: getDHT_def wanted_def split: if_splits)
  then show ?thesis unfolding populateClosestNodes_def 1 by auto
qed

text \<open>How a request can change the store.\<close>

definition store_change :: "env \<Rightarrow> received \<Rightarrow> node \<Rightarrow> storage \<Rightarrow> bool" where
  "store_change E m nd st \<longleftrightarrow>
     st = nd_storage nd \<or>
     (\<exists>token f e v i old. m_body (rm_msg m) = StoreValueRequest token f e \<and> getValue f = Inr v \<and> v_getId (env_crypto E) v = Some i \<and>
        fst (verifyToken (c_sha256 (env_crypto E)) (env_now E) token (rm_id m) (rm_origin m) i (nd_tokens nd)) \<and> v_isValid (env_crypto E) v \<and>
        st_putValue (env_crypto E) (env_now E) v e False False (nd_storage nd) = Inr (old, st)) \<or>
     (\<exists>a p. m_body (rm_msg m) = AnnouncePeerRequest a \<and> isBogon (rm_origin m) = Some False \<and> getPeer (env_crypto E) (rm_id m) a = Inr p \<and>
        fst (verifyToken (c_sha256 (env_crypto E)) (env_now E) (a_token a) (rm_id m) (rm_origin m) (a_peerId a) (nd_tokens nd)) \<and>
        st = st_putPeer (env_now E) p False False (nd_storage nd))"

lemma onStoreValue_change:
  assumes "onStoreValue E token f e m nd = Some r" and "m_body (rm_msg m) = StoreValueRequest token f e"
  shows "getDHT net (fst r) = getDHT net nd" and "store_change E m nd (nd_storage (fst r))"
  using assms by (auto simp: onStoreValue_def store_change_def Let_def split: sum.splits option.splits prod.splits if_splits)

lemma onAnnouncePeer_change:
  assumes "onAnnouncePeer E a m nd = Some r" and "m_body (rm_msg m) = AnnouncePeerRequest a"
  shows "getDHT net (fst r) = getDHT net nd" and "store_change E m nd (nd_storage (fst r))"
  using assms by (auto simp: onAnnouncePeer_def store_change_def Let_def split: sum.splits option.splits prod.splits if_splits)

lemma lookups_change:
  "onFindNode E this q m nd = Some r \<Longrightarrow> getDHT net (fst r) = getDHT net nd \<and> nd_storage (fst r) = nd_storage nd"
  "onFindValue E this q seq m nd = Some r \<Longrightarrow> getDHT net (fst r) = getDHT net nd \<and> nd_storage (fst r) = nd_storage nd"
  "onFindPeers E shuffle this q m nd = Some r \<Longrightarrow> getDHT net (fst r) = getDHT net nd \<and> nd_storage (fst r) = nd_storage nd"
  by (auto simp: onFindNode_def onFindValue_def onFindPeers_def Let_def split: option.splits sum.splits prod.splits if_splits)

lemma onRequest_change:
  assumes "onRequest E shuffle this m nd = Some r"
  shows "getDHT net (fst r) = getDHT net nd" and "store_change E m nd (nd_storage (fst r))"
proof -
  have "getDHT net (fst r) = getDHT net nd \<and> store_change E m nd (nd_storage (fst r))"
  proof (cases "m_body (rm_msg m)")
    case (StoreValueRequest token f e)
    then show ?thesis using assms onStoreValue_change by (simp add: onRequest_def)
  next
    case (AnnouncePeerRequest a)
    then show ?thesis using assms onAnnouncePeer_change by (simp add: onRequest_def)
  qed (use assms lookups_change in \<open>auto simp: onRequest_def onPing_def store_change_def\<close>)
  then show "getDHT net (fst r) = getDHT net nd" "store_change E m nd (nd_storage (fst r))" by blast+
qed

lemma getValue_owned:
  assumes "getValue f = Inr v"
  shows "wf_owned v"
proof -
  have wf: "wf_value v" using assms value_of_wf by (simp add: getValue_def)
  then have p: "v_privateKey v = None" by (simp add: wf_value_def)
  then have e: "v\<lparr>v_privateKey := None\<rparr> = v" by (cases v) simp
  show ?thesis unfolding wf_owned_def e using wf p by simp
qed

lemma store_change_inv:
  assumes "store_change E m nd st" and "values_inv (env_crypto E) (nd_storage nd)"
  shows "values_inv (env_crypto E) st"
proof -
  consider "st = nd_storage nd" | f v e old where "getValue f = Inr v" "st_putValue (env_crypto E) (env_now E) v e False False (nd_storage nd) = Inr (old, st)"
    | p where "st = st_putPeer (env_now E) p False False (nd_storage nd)" using assms(1) unfolding store_change_def by blast
  then show ?thesis
  proof cases
    case 1
    then show ?thesis using assms(2) by simp
  next
    case (2 f v e old)
    then show ?thesis using put_inv [OF assms(2) getValue_owned] by blast
  next
    case (3 p)
    then show ?thesis using assms(2) by (simp add: st_putPeer_def values_inv_def)
  qed
qed

text \<open>The stages of \<^verbatim>\<open>onMessage\<close>.\<close>

lemma onMessage_cases:
  assumes "onMessage E shuffle this m call nd = Some (nd', thrown)" and "getDHT this nd = Some d" and "dht_ok d"
  obtains (ignored) "nd' = nd" "\<not> thrown"
  | (aborted) r where "onRequest E shuffle this m nd = Some r" "nd' = fst r" "thrown" "body_type (m_body (rm_msg m)) = REQUEST"
  | (handled) nd1 d' sv where "nd1 = nd \<or> (body_type (m_body (rm_msg m)) = REQUEST \<and> (\<exists>r. onRequest E shuffle this m nd = Some r \<and> nd1 = fst r))"
      "nd' = setDHT this d' (nd1\<lparr>nd_server := sv\<rparr>)" "received_from E m call (d, nd_server nd1) = Some (d', sv, thrown)"
  using assms by (auto simp: onMessage_def split: if_splits option.splits prod.splits)
lemma onMessage_ok:
  assumes ok: "node_ok (env_crypto E) nd" and m: "onMessage E shuffle this m call nd = Some (nd', thrown)"
  shows "node_ok (env_crypto E) nd'"
proof -
  obtain d where d: "getDHT this nd = Some d" using m by (auto simp: onMessage_def split: option.splits)
  then have dok: "dht_ok d" using ok by (simp add: node_ok_def)
  have request: "node_ok (env_crypto E) (fst r)" if "onRequest E shuffle this m nd = Some r" for r
    using ok onRequest_change [OF that] store_change_inv unfolding node_ok_def by metis
  from m d dok show ?thesis
  proof (cases rule: onMessage_cases)
    case (handled nd1 d' sv)
    have nd1: "node_ok (env_crypto E) nd1" using handled(1) ok request by blast
    have "sender_effect m call d d'" using received_effect [OF dok, of E m call "nd_server nd1"] handled(3) by auto
    then have "dht_ok d'" by (simp add: sender_effect_def)
    then show ?thesis using nd1 unfolding handled(2) node_ok_def by simp
  qed (use ok request in auto)
qed

lemma perform_ok: "node_ok (env_crypto E) nd \<Longrightarrow> perform E shuffle acts nd = Some (nd', thrown) \<Longrightarrow> node_ok (env_crypto E) nd'"
  by (induction E shuffle acts nd rule: perform.induct) (auto split: option.splits prod.splits if_splits dest: onMessage_ok)

text \<open>The events of a node: packets, calls that are sent or time out, maintenance of the tables, and the work of the store.\<close>

inductive node_step :: "crypto \<Rightarrow> id \<Rightarrow> node \<Rightarrow> node \<Rightarrow> bool" for C self where
  ns_packet: "env_crypto E = C \<Longrightarrow> env_id E = self \<Longrightarrow> node_packet E shuffle buf from_addr nd = Some (nd', thrown) \<Longrightarrow> node_step C self nd nd'"
| ns_send: "getDHT net nd = Some d \<Longrightarrow> node_step C self nd (setDHT net (dht_onSend E i d) nd)"
| ns_timeout: "getDHT net nd = Some d \<Longrightarrow> node_step C self nd (setDHT net (dht_onTimeout E (isReachable (nd_server nd)) i d) nd)"
| ns_maintenance: "getDHT net nd = Some d \<Longrightarrow> rt_maintenance now self boots (t0, routingTable d) = Some (t, bs, r) \<Longrightarrow>
    node_step C self nd (setDHT net (d\<lparr>routingTable := bs\<rparr>) nd)"
| ns_status: "getDHT net nd = Some d \<Longrightarrow> routingTable d' = routingTable d \<Longrightarrow> d_nextRef d' = d_nextRef d \<Longrightarrow> node_step C self nd (setDHT net d' nd)"
| ns_server: "node_step C self nd (nd\<lparr>nd_server := sv\<rparr>)"
| ns_store: "storage_step C (nd_storage nd) st \<Longrightarrow> node_step C self nd (nd\<lparr>nd_storage := st\<rparr>)"

lemma node_ok_set: "node_ok C nd \<Longrightarrow> dht_ok d \<Longrightarrow> node_ok C (setDHT net d nd)"
  by (simp add: node_ok_def)

lemma dht_step_ok:
  assumes "dht_ok d" and "table_step self (routingTable d, d_nextRef d) (bs, d_nextRef d)"
  shows "dht_ok (d\<lparr>routingTable := bs\<rparr>)"
  using table_step_ok [OF assms(2)] assms(1) by (simp add: dht_ok_def)

lemma node_step_ok:
  assumes "node_step C self nd nd'" and ok: "node_ok C nd"
  shows "node_ok C nd'"
  using assms(1)
proof (cases rule: node_step.cases)
  case (ns_packet E shuffle buf from_addr thrown)
  obtain sv acts t0 t1 where "handlePacket E buf from_addr (nd_server nd) = Some (sv, acts, t0)"
    and p: "perform E shuffle acts (nd\<lparr>nd_server := sv\<rparr>) = Some (nd', t1)"
    using ns_packet(3) by (auto simp: node_packet_def split: option.splits prod.splits)
  have "node_ok (env_crypto E) (nd\<lparr>nd_server := sv\<rparr>)" using ok ns_packet(1) by (simp add: node_ok_def)
  from perform_ok [OF this p] show ?thesis using ns_packet(1) by simp
next
  case (ns_send net d E i)
  then have "dht_ok d" using ok by (simp add: node_ok_def)
  then have "dht_ok (dht_onSend E i d)" using dht_step_ok [OF _ table_step.step_onSend] by (simp add: dht_onSend_def)
  then show ?thesis using ns_send ok node_ok_set by blast
next
  case (ns_timeout net d E i)
  then have "dht_ok d" using ok by (simp add: node_ok_def)
  then have "dht_ok (dht_onTimeout E (isReachable (nd_server nd)) i d)" using dht_step_ok [OF _ table_step.step_onTimeout] by (simp add: dht_onTimeout_def)
  then show ?thesis using ns_timeout ok node_ok_set by blast
next
  case (ns_maintenance net d now boots t0 t bs r)
  then have "dht_ok d" using ok by (simp add: node_ok_def)
  then have "dht_ok (d\<lparr>routingTable := bs\<rparr>)" using dht_step_ok [OF _ table_step.step_maintenance [OF ns_maintenance(3)]] by blast
  then show ?thesis using ns_maintenance ok node_ok_set by blast
next
  case (ns_status net d d')
  then have "dht_ok d'" using ok by (simp add: node_ok_def dht_ok_def)
  then show ?thesis using ns_status ok node_ok_set by blast
next
  case (ns_server sv)
  then show ?thesis using ok by (simp add: node_ok_def)
next
  case (ns_store st)
  then show ?thesis using ok storage_step_values by (simp add: node_ok_def)
qed

definition fresh_node :: "node \<Rightarrow> bool" where
  "fresh_node nd \<longleftrightarrow> nd_storage nd = empty_storage \<and> (\<forall>net d. getDHT net nd = Some d \<longrightarrow> routingTable d = init_table)"

lemma fresh_node_ok: "fresh_node nd \<Longrightarrow> node_ok C nd"
  by (auto simp: fresh_node_def node_ok_def dht_ok_def table_ok_def init_table_inv values_inv_def empty_storage_def)
    (auto simp: init_table_def table_refs_def mk_bucket_def)

lemma node_reachable_ok:
  "(node_step C self)\<^sup>*\<^sup>* nd0 nd \<Longrightarrow> fresh_node nd0 \<Longrightarrow> node_ok C nd"
  by (induction rule: rtranclp_induct) (auto intro: fresh_node_ok node_step_ok)
section \<open>Correctness\<close>

text \<open>
  C27: in every state a node reaches, whatever packets it gets and from whomever, the buckets of both routing tables partition
  the identifiers and \<^verbatim>\<open>getBucket\<close> finds the one of each identifier, and everything the store returns has the
  identifier asked for and a good signature.
\<close>

theorem reachable_node:
  assumes "(node_step C self)\<^sup>*\<^sup>* nd0 nd" and "fresh_node nd0"
  shows "(\<forall>net d. getDHT net nd = Some d \<longrightarrow> (\<exists>!k. k < length (routingTable d) \<and> isPrefixOf (b_prefix (routingTable d ! k)) i) \<and>
      isPrefixOf (b_prefix (getBucket (routingTable d) i)) i) \<and>
    (\<exists>r. st_getValue now i (nd_storage nd) = Inr r \<and> (\<forall>v. r = Some v \<longrightarrow> v_getId C v = Some i \<and> v_isValid C v))"
proof -
  have ok: "node_ok C nd" by (rule node_reachable_ok [OF assms])
  have "(\<exists>!k. k < length (routingTable d) \<and> isPrefixOf (b_prefix (routingTable d ! k)) i) \<and> isPrefixOf (b_prefix (getBucket (routingTable d) i)) i"
    if "getDHT net nd = Some d" for net d
  proof -
    have inv: "rt_inv (routingTable d)" using that ok dht_ok_inv by (auto simp: node_ok_def)
    obtain k where "indexOf (routingTable d) i = int k" "k < length (routingTable d)" "isPrefixOf (b_prefix (routingTable d ! k)) i"
      using indexOf_covers [OF inv] by metis
    then show ?thesis using cover_unique [OF inv] by (auto simp: getBucket_def)
  qed
  moreover have "\<exists>r. st_getValue now i (nd_storage nd) = Inr r \<and> (\<forall>v. r = Some v \<longrightarrow> v_getId C v = Some i \<and> v_isValid C v)"
    using get_ok ok unfolding node_ok_def by metis
  ultimately show ?thesis by blast
qed

text \<open>A node with an IPv4 network only, and a message from outside.\<close>

definition v4_dht :: dht where
  "v4_dht = (mk_dht IPv4 (Inet 9 9))\<lparr>d_running := True\<rparr>"

definition v4_node :: node where
  "v4_node = \<lparr>dht4 = Some v4_dht, dht6 = None, nd_server = mk_server 7,
     nd_tokens = \<lparr>tm_timestamp = 0, previousTimestamp = 0, sessionSecret = []\<rparr>, nd_storage = empty_storage, nd_config = []\<rparr>"

definition from_outside :: "body \<Rightarrow> received" where
  "from_outside b = \<lparr>rm_id = MAX_ID, rm_origin = Inet 0x08080808 53, rm_msg = \<lparr>m_txid = 3, m_version = 0, m_body = b\<rparr>\<rparr>"

lemma v4_node_simps [simp]: "getDHT IPv4 v4_node = Some v4_dht" "d_running v4_dht" "d_addr v4_dht = Inet 9 9" "dht6 v4_node = None"
  "routingTable v4_dht = init_table" "nd_storage v4_node = empty_storage" "rm_id (from_outside b) = MAX_ID"
  "rm_origin (from_outside b) = Inet 0x08080808 53" "m_body (rm_msg (from_outside b)) = b"
  by (simp_all add: getDHT_def v4_node_def v4_dht_def mk_dht_def from_outside_def)

lemma v4_node_fresh: "fresh_node v4_node"
  by (auto simp: fresh_node_def getDHT_def v4_node_def v4_dht_def mk_dht_def split: network.splits)

theorem reachable_node_witness:
  "(\<exists>!k. k < length (routingTable v4_dht) \<and> isPrefixOf (b_prefix (routingTable v4_dht ! k)) MAX_ID) \<and>
    isPrefixOf (b_prefix (getBucket (routingTable v4_dht) MAX_ID)) MAX_ID \<and>
    st_getValue 5000 note_id one_note = Inr (Some (note_value 5)) \<and> v_getId plain_crypto (note_value 5) = Some note_id \<and> v_isValid plain_crypto (note_value 5)"
proof -
  let ?nd = "v4_node\<lparr>nd_storage := one_note\<rparr>"
  have "storage_step plain_crypto (nd_storage v4_node) one_note" using ss_put [OF _ one_note_put] note_ok(1) [of 5] by simp
  then have "node_step plain_crypto zero_id v4_node ?nd" by (rule ns_store)
  then have reach: "(node_step plain_crypto zero_id)\<^sup>*\<^sup>* v4_node ?nd" by simp
  have "alive_at 1000 5000" by (simp add: alive_at_def)
  then have g: "st_getValue 5000 note_id one_note = Inr (Some (note_value 5))" using put_get(1) [OF _ one_note_put note_ok(2)] note_ok(1) [of 5] by simp
  have d: "getDHT IPv4 ?nd = Some v4_dht" by simp
  note r = reachable_node [OF reach v4_node_fresh]
  from r [of MAX_ID 5000] d have "(\<exists>!k. k < length (routingTable v4_dht) \<and> isPrefixOf (b_prefix (routingTable v4_dht ! k)) MAX_ID) \<and>
    isPrefixOf (b_prefix (getBucket (routingTable v4_dht) MAX_ID)) MAX_ID" by blast
  moreover from r [of note_id 5000] g have "v_getId plain_crypto (note_value 5) = Some note_id \<and> v_isValid plain_crypto (note_value 5)" by simp
  ultimately show ?thesis using g by blast
qed

text \<open>
  C28: a node enters the routing table only by answering. When a message brings a new pair of identifier and address into the
  table, it is the answer to a call of this node, from the node and the address that were asked, the address is not a bogon, the pair
  is the sender's, and no other address was known for this identifier. So no message makes the
  table forget the address of a node in favour of another one.
\<close>

theorem only_verified_nodes_enter:
  assumes ok: "node_ok (env_crypto E) nd" and "getDHT this nd = Some d" and m: "onMessage E shuffle this m call nd = Some (nd', thrown)"
    and "getDHT this nd' = Some d'" and new: "e' \<in> set (all_entries (routingTable d'))"
    and "\<not> (\<exists>e \<in> set (all_entries (routingTable d)). e_id e = e_id e' \<and> e_addr e = e_addr e')"
  shows "e_id e' = rm_id m \<and> e_addr e' = rm_origin m \<and> isBogon (rm_origin m) = Some False \<and>
    (\<exists>c. call = Some c \<and> matchesId c \<and> matchesAddress c) \<and> getEntry (routingTable d) (rm_id m) = None"
proof -
  have dok: "dht_ok d" using ok assms(2) by (simp add: node_ok_def)
  have e': "(e_id e', e_addr e') \<in> known (routingTable d')" "(e_id e', e_addr e') \<notin> known (routingTable d)"
    using assms(5,6) by (auto simp: known_def)
  from m assms(2) dok show ?thesis
  proof (cases rule: onMessage_cases)
    case (handled nd1 d1 sv)
    then have "d' = d1" using assms(4) by simp
    then have eff: "sender_effect m call d d'" and good: "(\<exists>c. call = Some c \<and> matchesAddress c \<and> matchesId c) \<and> isBogon (rm_origin m) = Some False \<and>
        (\<forall>old. getEntry (routingTable d) (rm_id m) = Some old \<longrightarrow> e_addr old = rm_origin m)"
      using received_effect [OF dok, of E m call "nd_server nd1"] handled(3) e' by auto
    have pair: "e_id e' = rm_id m" "e_addr e' = rm_origin m" using eff e' by (auto simp: sender_effect_def split: if_splits)
    have "getEntry (routingTable d) (rm_id m) = None"
    proof (rule ccontr)
      assume "getEntry (routingTable d) (rm_id m) \<noteq> None"
      then obtain old where "getEntry (routingTable d) (rm_id m) = Some old" by blast
      moreover from this have "old \<in> set (all_entries (routingTable d))" "e_id old = rm_id m" using getEntry_iff [OF dht_ok_inv [OF dok]] by auto
      ultimately show False using good e'(2) pair by (force simp: known_def)
    qed
    then show ?thesis using good pair by blast
  next
    case ignored
    then show ?thesis using assms(2,4) e' by simp
  next
    case (aborted r)
    then show ?thesis using assms(2,4) e' onRequest_change(1) [OF aborted(1), of this] by simp
  qed
qed

text \<open>An answered ping that brings in its sender.\<close>

definition answered_call :: rpc_call where
  "answered_call = (mk_call \<lparr>n_id = MAX_ID, n_addr = Inet 0x08080808 53, n_version = 0\<rparr> False \<lparr>m_txid = 3, m_version = 0, m_body = PingRequest\<rparr>)
     \<lparr>k_response := Some (from_outside PingResponse), sentTime := 4000, k_state := RESPONDED\<rparr>"
lemma init_put:
  assumes "reachable n"
  obtains bs where "rt_put now self n init_table = Some bs" "set (all_entries bs) = {n}"
proof -
  have "fresh_for n init_table" by (simp add: fresh_for_def init_table_def table_refs_def mk_bucket_def)
  then obtain bs X X' Z where x: "rt_put now self n init_table = Some bs" "mset (all_entries init_table) = X + Z"
    "mset (all_entries bs) = X' + Z" "put_spec now n X X'" using rt_put_correct [OF init_table_inv] by metis
  have e: "X = {#}" "Z = {#}" using x(2) by (simp_all add: init_table_def mk_bucket_def)
  have "X' = {#n#}" using x(4) assms unfolding e by (cases rule: put_spec.cases) auto
  then have "mset (all_entries bs) = {#n#}" using x(3) e by simp
  then have "set (all_entries bs) = {n}" by (metis set_mset_mset set_mset_single set_mset_add_mset_insert set_mset_empty)
  then show thesis using that x(1) by blast
qed

lemma outside_not_bogon: "isBogon (Inet 0x08080808 53) = Some False"
  by code_simp

lemma init_lookup [simp]: "getEntry init_table i = None"
  using getEntry_iff [OF init_table_inv, of i] by (cases "getEntry init_table i") (simp_all add: init_table_def mk_bucket_def)

theorem only_verified_nodes_enter_witness:
  "\<exists>nd' d' e'. onMessage silent_env rev IPv4 (from_outside PingResponse) (Some answered_call) v4_node = Some (nd', False) \<and>
    getDHT IPv4 nd' = Some d' \<and> e' \<in> set (all_entries (routingTable d')) \<and> e_id e' = MAX_ID \<and> e_addr e' = Inet 0x08080808 53"
proof -
  let ?m = "from_outside PingResponse"
  define n where "n = mergeRequestTime (sentTime answered_call) (signalResponse (env_now silent_env)
    (mk_entry 0 MAX_ID (Inet 0x08080808 53) (m_version (rm_msg ?m)) (env_now silent_env)))"
  obtain bs where bs: "rt_put (env_now silent_env) (env_id silent_env) n init_table = Some bs" "set (all_entries bs) = {n}"
    using init_put [of n] by (auto simp: n_def mergeRequestTime_def signalResponse_def)
  have call: "matchesAddress answered_call" "matchesId answered_call"
    by (simp_all add: answered_call_def mk_call_def matchesAddress_def matchesId_def sa_eq_iff)
  define d1 where "d1 = v4_dht\<lparr>knownNodes := (knownNodes v4_dht)(Inet 0x08080808 53 \<mapsto> MAX_ID), d_nextRef := d_nextRef v4_dht + 1, routingTable := bs\<rparr>"
  have "received_from silent_env ?m (Some answered_call) (v4_dht, nd_server v4_node) = Some (d1, nd_server v4_node, False)"
    using bs(1) call outside_not_bogon
    by (simp add: received_from_def register_sender_def n_def [symmetric] d1_def v4_dht_def mk_dht_def [of IPv4] Let_def)
  then have m: "onMessage silent_env rev IPv4 ?m (Some answered_call) v4_node = Some (setDHT IPv4 d1 (v4_node\<lparr>nd_server := nd_server v4_node\<rparr>), False)"
    by (simp add: onMessage_def silent_env_def sa_eq_iff)
  have "node_ok (env_crypto silent_env) v4_node" by (rule fresh_node_ok [OF v4_node_fresh])
  moreover have "n \<in> set (all_entries (routingTable d1))" using bs(2) by (simp add: d1_def)
  moreover have "\<not> (\<exists>e \<in> set (all_entries (routingTable v4_dht)). e_id e = e_id n \<and> e_addr e = e_addr n)"
    by (simp add: init_table_def mk_bucket_def)
  ultimately have "e_id n = rm_id ?m \<and> e_addr n = rm_origin ?m"
    using only_verified_nodes_enter [OF _ v4_node_simps(1) m, of d1 n] by simp
  then show ?thesis using m bs(2) by (intro exI conjI) (auto simp: d1_def)
qed

text \<open>
  C29: the store changes in answer to a message only for a store request with a token that was issued to this node at this
  address for this value, and a valid value that the store accepts; or for an announcement from a routable address with
  such a token for the peer. Every other message leaves the store as it is.
\<close>

theorem store_guarded:
  assumes ok: "node_ok (env_crypto E) nd" and m: "onMessage E shuffle this m call nd = Some (nd', thrown)"
    and changed: "nd_storage nd' \<noteq> nd_storage nd"
  shows "(\<exists>token f e v i old. m_body (rm_msg m) = StoreValueRequest token f e \<and> getValue f = Inr v \<and> v_getId (env_crypto E) v = Some i \<and>
      fst (verifyToken (c_sha256 (env_crypto E)) (env_now E) token (rm_id m) (rm_origin m) i (nd_tokens nd)) \<and> v_isValid (env_crypto E) v \<and>
      st_putValue (env_crypto E) (env_now E) v e False False (nd_storage nd) = Inr (old, nd_storage nd')) \<or>
    (\<exists>a p. m_body (rm_msg m) = AnnouncePeerRequest a \<and> isBogon (rm_origin m) = Some False \<and> getPeer (env_crypto E) (rm_id m) a = Inr p \<and>
      fst (verifyToken (c_sha256 (env_crypto E)) (env_now E) (a_token a) (rm_id m) (rm_origin m) (a_peerId a) (nd_tokens nd)) \<and>
      nd_storage nd' = st_putPeer (env_now E) p False False (nd_storage nd))"
proof -
  obtain d where d: "getDHT this nd = Some d" using m by (auto simp: onMessage_def split: option.splits)
  then have dok: "dht_ok d" using ok by (simp add: node_ok_def)
  from m d dok have "store_change E m nd (nd_storage nd')"
  proof (cases rule: onMessage_cases)
    case (handled nd1 d1 sv)
    then have "nd_storage nd' = nd_storage nd1" by simp
    moreover have "store_change E m nd (nd_storage nd)" by (simp add: store_change_def)
    ultimately show ?thesis using handled(1) onRequest_change(2) by metis
  next
    case ignored
    then show ?thesis by (simp add: store_change_def)
  next
    case (aborted r)
    then show ?thesis using onRequest_change(2) by blast
  qed
  then show ?thesis using changed unfolding store_change_def by blast
qed
definition store_note :: body where
  "store_note = StoreValueRequest (fst (generateToken (c_sha256 plain_crypto) 5000 MAX_ID (Inet 0x08080808 53) note_id (nd_tokens v4_node)))
     (setValue (note_value 5)) (-1)"

lemma note_fields: "0 \<le> n \<Longrightarrow> getValue (setValue (note_value n)) = Inr (note_value n)"
  by (simp add: getValue_def setValue_def note_value_def isMutable_def isEncrypted_def value_of_def blob_of_def bytes_of_def opt_bytes_def)

lemma note_valid: "v_isValid plain_crypto (note_value n)"
  by (simp add: v_isValid_def note_value_def plain_crypto_def)

lemma fresh_token_verified:
  "fst (verifyToken sha now (fst (generateToken sha now i a t tm)) i a t tm)"
  by (simp add: verifyToken_def generateToken_def Let_def)
lemma onStoreValue_accepts:
  assumes "getValue f = Inr v" and "v_getId (env_crypto E) v = Some i"
    and "verifyToken (c_sha256 (env_crypto E)) (env_now E) token (rm_id m) (rm_origin m) i (nd_tokens nd) = (True, tm)"
    and "v_isValid (env_crypto E) v" and "st_putValue (env_crypto E) (env_now E) v e False False (nd_storage nd) = Inr (old, st)"
  shows "onStoreValue E token f e m nd = Some (send E m StoreValueResponse (nd\<lparr>nd_tokens := tm, nd_storage := st\<rparr>))"
  using assms by (simp add: onStoreValue_def)

lemma onMessage_request:
  assumes "getDHT this nd = Some d" and "dht_ok d" and "d_running d" and "rm_id m \<noteq> env_id E" and "d_addr d \<noteq> rm_origin m"
    and "body_type (m_body (rm_msg m)) = REQUEST"
  shows "onRequest E shuffle this m nd = None \<Longrightarrow> onMessage E shuffle this m call nd = None"
    and "onRequest E shuffle this m nd = Some (nd1, True) \<Longrightarrow> onMessage E shuffle this m call nd = Some (nd1, True)"
    and "onRequest E shuffle this m nd = Some (nd1, False) \<Longrightarrow>
      \<exists>nd' thrown. onMessage E shuffle this m call nd = Some (nd', thrown) \<and> nd_storage nd' = nd_storage nd1 \<and> nd_tokens nd' = nd_tokens nd1"
proof -
  show "onRequest E shuffle this m nd = None \<Longrightarrow> onMessage E shuffle this m call nd = None"
    "onRequest E shuffle this m nd = Some (nd1, True) \<Longrightarrow> onMessage E shuffle this m call nd = Some (nd1, True)"
    using assms by (simp_all add: onMessage_def sa_eq_iff)
  obtain d' sv' t where "received_from E m call (d, nd_server nd1) = Some (d', sv', t)" using received_effect [OF assms(2)] by metis
  then show "onRequest E shuffle this m nd = Some (nd1, False) \<Longrightarrow>
      \<exists>nd' thrown. onMessage E shuffle this m call nd = Some (nd', thrown) \<and> nd_storage nd' = nd_storage nd1 \<and> nd_tokens nd' = nd_tokens nd1"
    using assms by (simp add: onMessage_def sa_eq_iff)
qed

lemma send_quiet: "snd (send silent_env (from_outside b) b' nd) = False"
  by (simp add: send_def sendMessage_def sendData_def silent_env_def from_outside_def sa_empty_def Let_def split: prod.splits)

theorem store_guarded_witness:
  "\<exists>nd' thrown. onMessage silent_env rev IPv4 (from_outside store_note) None v4_node = Some (nd', thrown) \<and>
    nd_storage nd' \<noteq> nd_storage v4_node \<and>
    (\<exists>token f e v i old. store_note = StoreValueRequest token f e \<and> getValue f = Inr v \<and> v_getId plain_crypto v = Some i \<and>
      fst (verifyToken (c_sha256 plain_crypto) 5000 token MAX_ID (Inet 0x08080808 53) i (nd_tokens v4_node)) \<and> v_isValid plain_crypto v \<and>
      st_putValue plain_crypto 5000 v e False False empty_storage = Inr (old, nd_storage nd'))"
proof -
  let ?m = "from_outside store_note"
  define token where "token = fst (generateToken (c_sha256 plain_crypto) 5000 MAX_ID (Inet 0x08080808 53) note_id (nd_tokens v4_node))"
  have env: "env_crypto silent_env = plain_crypto" "env_now silent_env = 5000" "env_id silent_env = zero_id" by (simp_all add: silent_env_def)
  obtain tm where tm: "verifyToken (c_sha256 plain_crypto) 5000 token MAX_ID (Inet 0x08080808 53) note_id (nd_tokens v4_node) = (True, tm)"
    using fresh_token_verified unfolding token_def by (metis prod.collapse)
  obtain st where st: "st_putValue plain_crypto 5000 (note_value 5) (-1) False False empty_storage = Inr (None, st)" "valores st \<noteq> []"
    using note_ok(2,3) note_valid
    by (auto simp: st_putValue_def st_getValue_def empty_storage_def put_check_def upsert_def)
  have "onRequest silent_env rev IPv4 ?m v4_node = Some (send silent_env ?m StoreValueResponse (v4_node\<lparr>nd_tokens := tm, nd_storage := st\<rparr>))"
    using onStoreValue_accepts [of "setValue (note_value 5)" "note_value 5" silent_env note_id token ?m v4_node tm "-1" None st]
      note_fields [of 5] note_ok(2) note_valid tm st env by (simp add: onRequest_def store_note_def token_def)
  then have r: "onRequest silent_env rev IPv4 ?m v4_node = Some (fst (send silent_env ?m StoreValueResponse (v4_node\<lparr>nd_tokens := tm, nd_storage := st\<rparr>)), False)"
    using send_quiet by (metis prod.collapse)
  have ok: "node_ok (env_crypto silent_env) v4_node" by (rule fresh_node_ok [OF v4_node_fresh])
  then have d: "dht_ok v4_dht" using v4_node_simps(1) unfolding node_ok_def by blast
  have g: "rm_id ?m \<noteq> env_id silent_env" "d_addr v4_dht \<noteq> rm_origin ?m" "body_type (m_body (rm_msg ?m)) = REQUEST"
    by (simp_all add: env store_note_def)
  obtain nd' t where nd': "onMessage silent_env rev IPv4 ?m None v4_node = Some (nd', t)" "nd_storage nd' = st"
    using onMessage_request(3) [OF v4_node_simps(1) d v4_node_simps(2) g r, of None] by (metis send_frame(1) node.select_convs(5) node.surjective node.update_convs(4,5))
  have "nd_storage nd' \<noteq> nd_storage v4_node" using st(2) nd'(2) by (auto simp: empty_storage_def)
  from store_guarded [OF ok nd'(1) this] nd'(1) this show ?thesis by (auto simp: env store_note_def)
qed

text \<open>
  A node that runs only one of the two networks can be crashed by one packet: a find-node request that
  wants nodes of the network without a DHT makes \<^verbatim>\<open>populateClosestNodes\<close> dereference a null pointer, whoever sends it.
  A node with both networks handles every message.
\<close>

theorem missing_network_crash:
  assumes "node_ok (env_crypto E) nd" and "getDHT this nd = Some d" and "d_running d" and "rm_id m \<noteq> env_id E" and "d_addr d \<noteq> rm_origin m"
  shows "(m_body (rm_msg m) = FindNodeRequest q \<and> want6 q \<and> dht6 nd = None \<longrightarrow> onMessage E shuffle this m call nd = None) \<and>
    (dht4 nd \<noteq> None \<and> dht6 nd \<noteq> None \<longrightarrow> onMessage E shuffle this m call nd \<noteq> None)"
proof (intro conjI impI)
  have d: "dht_ok d" using assms(1,2) by (simp add: node_ok_def)
  note req = onMessage_request [OF assms(2) d assms(3-5)]
  show "onMessage E shuffle this m call nd = None" if "m_body (rm_msg m) = FindNodeRequest q \<and> want6 q \<and> dht6 nd = None"
  proof -
    have "populateClosestNodes E this (lr_target q) (wanted (want4 q)) (wanted (want6 q)) nd r = None" for r
      using that by (simp add: populateClosestNodes_def wanted_def closest_of_def getDHT_def split: option.splits)
    then show ?thesis using that by (intro req(1)) (simp_all add: onRequest_def onFindNode_def)
  qed
  assume both: "dht4 nd \<noteq> None \<and> dht6 nd \<noteq> None"
  have pop: "populateClosestNodes E this target (wanted (want4 q)) (wanted (want6 q)) (nd\<lparr>nd_tokens := tm\<rparr>) r \<noteq> None"
    "populateClosestNodes E this target (wanted (want4 q)) (wanted (want6 q)) nd r \<noteq> None" for target q tm r
    using both by (simp_all add: populate_total)
  then have pop': "\<exists>y. populateClosestNodes E this target (wanted (want4 q)) (wanted (want6 q)) (nd\<lparr>nd_tokens := tm\<rparr>) r = Some y" for target q tm r
    by blast
  have "onFindNode E this q m nd \<noteq> None" for q
    using pop(2) [of "lr_target q" q empty_response] by (auto simp: onFindNode_def split: prod.splits)
  moreover have "onFindValue E this q seq m nd \<noteq> None" for q seq
    using pop' by (auto simp: onFindValue_def Let_def simp del: not_None_eq split: prod.splits sum.splits option.splits)
  moreover have "onFindPeers E shuffle this q m nd \<noteq> None" for q
    using pop' by (auto simp: onFindPeers_def Let_def simp del: not_None_eq split: prod.splits sum.splits)
  moreover have "onStoreValue E token f e m nd \<noteq> None" "onAnnouncePeer E a m nd \<noteq> None" for token f e a
    by (auto simp: onStoreValue_def onAnnouncePeer_def Let_def split: prod.splits sum.splits option.splits)
  ultimately have "onRequest E shuffle this m nd \<noteq> None" by (auto simp: onRequest_def onPing_def split: body.splits)
  moreover have "\<exists>d' sv' t. received_from E m call (d, nd_server nd) = Some (d', sv', t)" using received_effect [OF d] by metis
  ultimately show "onMessage E shuffle this m call nd \<noteq> None"
    using req(2,3) assms by (cases "body_type (m_body (rm_msg m)) = REQUEST") (fastforce simp: onMessage_def sa_eq_iff)+
qed

theorem missing_network_crash_witness:
  "onMessage silent_env rev IPv4 (from_outside (FindNodeRequest (empty_request\<lparr>want6 := True\<rparr>))) None v4_node = None"
proof -
  have "node_ok (env_crypto silent_env) v4_node" by (rule fresh_node_ok [OF v4_node_fresh])
  moreover have "rm_id (from_outside b) \<noteq> env_id silent_env" for b by (simp add: silent_env_def)
  ultimately show ?thesis
    using missing_network_crash [of silent_env v4_node IPv4 v4_dht "from_outside (FindNodeRequest (empty_request\<lparr>want6 := True\<rparr>))"
      "empty_request\<lparr>want6 := True\<rparr>" rev None] by simp
qed

text \<open>
  A store request for a value that is older than the stored one ends the receive loop of the server: the exception of
  \<^verbatim>\<open>putValue\<close> is not caught by \<^verbatim>\<open>onStoreValue\<close>, leaves \<^verbatim>\<open>handlePacket\<close>, and no answer is sent.
\<close>

theorem stale_store_throws:
  assumes "node_ok (env_crypto E) nd" and "getDHT this nd = Some d" and "d_running d" and "rm_id m \<noteq> env_id E" and "d_addr d \<noteq> rm_origin m"
    and "m_body (rm_msg m) = StoreValueRequest token f e" and "getValue f = Inr v" and "v_getId (env_crypto E) v = Some i"
    and "fst (verifyToken (c_sha256 (env_crypto E)) (env_now E) token (rm_id m) (rm_origin m) i (nd_tokens nd))"
    and "v_isValid (env_crypto E) v" and "st_getValue (env_now E) i (nd_storage nd) = Inr (Some w)"
    and "isMutable w" and "v_sequenceNumber v < v_sequenceNumber w"
  shows "\<exists>nd'. onMessage E shuffle this m call nd = Some (nd', True) \<and> nd_storage nd' = nd_storage nd \<and> nd_server nd' = nd_server nd"
proof -
  have d: "dht_ok d" using assms(1,2) by (simp add: node_ok_def)
  have "\<exists>x. st_putValue (env_crypto E) (env_now E) v e False False (nd_storage nd) = Inl x"
    using assms(8,11-13) by (auto simp: st_putValue_def put_check_def)
  moreover obtain tm where "verifyToken (c_sha256 (env_crypto E)) (env_now E) token (rm_id m) (rm_origin m) i (nd_tokens nd) = (True, tm)"
    using assms(9) by (metis prod.collapse)
  ultimately have "onStoreValue E token f e m nd = Some (nd\<lparr>nd_tokens := tm\<rparr>, True)"
    using assms(7,8,10) by (auto simp: onStoreValue_def)
  then have "onRequest E shuffle this m nd = Some (nd\<lparr>nd_tokens := tm\<rparr>, True)" using assms(6) by (simp add: onRequest_def)
  then have "onMessage E shuffle this m call nd = Some (nd\<lparr>nd_tokens := tm\<rparr>, True)"
    using onMessage_request(2) [OF assms(2) d assms(3-5)] assms(6) by simp
  then show ?thesis by auto
qed
definition stale_note :: body where
  "stale_note = StoreValueRequest (fst (generateToken (c_sha256 plain_crypto) 5000 MAX_ID (Inet 0x08080808 53) note_id (nd_tokens v4_node)))
     (setValue (note_value 3)) (-1)"

theorem stale_store_throws_witness:
  "\<exists>nd'. onMessage silent_env rev IPv4 (from_outside stale_note) None (v4_node\<lparr>nd_storage := one_note\<rparr>) = Some (nd', True) \<and> nd_storage nd' = one_note"
proof -
  let ?nd = "v4_node\<lparr>nd_storage := one_note\<rparr>"
  have env: "env_crypto silent_env = plain_crypto" "env_now silent_env = 5000" "env_id silent_env = zero_id" by (simp_all add: silent_env_def)
  have "values_inv plain_crypto one_note" using storage_reachable_inv [OF one_note_reached] by blast
  then have ok: "node_ok (env_crypto silent_env) ?nd" using fresh_node_ok [OF v4_node_fresh, of plain_crypto] by (simp add: node_ok_def env)
  have "alive_at 1000 5000" by (simp add: alive_at_def)
  then have old: "st_getValue 5000 note_id one_note = Inr (Some (note_value 5))" using put_get(1) [OF _ one_note_put note_ok(2)] note_ok(1) [of 5] by simp
  have d: "getDHT IPv4 ?nd = Some v4_dht" by simp
  have "v_sequenceNumber (note_value 3) < v_sequenceNumber (note_value 5)" by (simp add: note_value_def)
  from stale_store_throws [OF ok d, of "from_outside stale_note" _ "setValue (note_value 3)" "-1" "note_value 3" note_id "note_value 5" rev None, OF _ _ _ _ _ _ _ _ _ _ this]
  show ?thesis using old note_fields [of 3] note_ok(2,3) note_valid fresh_token_verified by (auto simp: env stale_note_def)
qed

end
