(* ===== verification/Dht_Jobs.thy ===== *)
theory Dht_Jobs
  imports Dht Tasks
begin

text \<open>
  The jobs of a DHT, \<^verbatim>\<open>src/core/dht.cc\<close>: start and stop, the regular update, bootstrapping; and the task that pings the entries of a
  bucket, \<^verbatim>\<open>task/ping_refresh_task.cc\<close>. The closures of the code are kept with the state they capture: a round of bootstrap calls with the number of answers
  it waits for, those it has got and the nodes they named; a round of lookups that fill buckets with its total and count. The entries of
  the persisted table are \<open>jb_file\<close>; the format of the file is not modelled. The random choice of entries is an argument, and
  \<^verbatim>\<open>compare_exchange_weak\<close> does not fail spuriously.
\<close>

definition DHT_UPDATE_INTERVAL :: int where [simp]: "DHT_UPDATE_INTERVAL = 1000"
definition RANDOM_LOOKUP_INTERVAL :: int where [simp]: "RANDOM_LOOKUP_INTERVAL = 600000"
definition RANDOM_PING_INTERVAL :: int where [simp]: "RANDOM_PING_INTERVAL = 10000"

datatype job_kind = DequeueTasks | UpdateDht | PingRandom | LookupRandom

record boot_round =
  br_len :: nat
  br_count :: nat
  br_nodes :: "node_info list"

record fill_round =
  fr_total :: nat
  fr_completion :: nat

record jobs =
  jb_dht :: dht
  bootstrapping :: bool
  lastSave :: u64
  persistFile :: string
  jb_file :: "kbucket_entry list"
  lastPingCheck :: u64
  jb_rounds :: "boot_round list"
  jb_homes :: "node_info list list" \<comment> \<open>the candidates of the home bucket lookups that were queued\<close>
  jb_fills :: "fill_round list"
  jb_timers :: "(job_kind \<times> int \<times> int) list"

section \<open>Bootstrapping\<close>

definition updateBootstrap :: "u64 \<Rightarrow> node_info list \<Rightarrow> jobs \<Rightarrow> jobs \<times> node_info list" where
  "updateBootstrap now randomEntries j =
     (let d = jb_dht j;
          bns = (if bootstrapNodes d \<noteq> [] then bootstrapNodes d else randomEntries)
      in if \<not> d_running d \<or> now - lastBootstrap d < word_of_int BOOTSTRAP_MIN_INTERVAL then (j, [])
         else if bns = [] then (j, [])
         else if bootstrapping j then (j, [])
         else (j\<lparr>bootstrapping := True, jb_dht := clearBootstrapStatus d,
                 jb_rounds := jb_rounds j @ [\<lparr>br_len = length (bootstrapNodes d), br_count = 0, br_nodes = []\<rparr>]\<rparr>, bns))"

definition fillHomeBucket :: "node_info list \<Rightarrow> jobs \<Rightarrow> jobs" where
  "fillHomeBucket nodes j =
     (if getNumBucketEntries (routingTable (jb_dht j)) = 0 \<and> nodes = [] then j\<lparr>bootstrapping := False\<rparr>
      else j\<lparr>jb_homes := jb_homes j @ [nodes]\<rparr>)"

text \<open>The handler of the calls of round \<open>k\<close>; \<open>answer\<close> is \<open>None\<close> for an error or a time-out.\<close>

definition boot_call_ended :: "u64 \<Rightarrow> nat \<Rightarrow> node_info list option \<Rightarrow> jobs \<Rightarrow> jobs" where
  "boot_call_ended now k answer j =
     (let r = jb_rounds j ! k;
          r = (case answer of Some ns \<Rightarrow> r\<lparr>br_nodes := br_nodes r @ ns\<rparr> | None \<Rightarrow> r);
          r = r\<lparr>br_count := br_count r + 1\<rparr>;
          j = j\<lparr>jb_rounds := (jb_rounds j)[k := r]\<rparr>
      in if br_count r = br_len r then fillHomeBucket (br_nodes r) (j\<lparr>jb_dht := (jb_dht j)\<lparr>lastBootstrap := now\<rparr>\<rparr>) else j)"

text \<open>The listener of the lookup that fills the home bucket, and the handler of the lookups of \<^verbatim>\<open>fillBuckets\<close>.\<close>

definition home_filled :: "u64 \<Rightarrow> jobs \<Rightarrow> jobs" where
  "home_filled now j =
     (let j = j\<lparr>bootstrapping := False\<rparr> in
      if \<not> d_running (jb_dht j) then j
      else
        let d = stage_fillHomeBucket Completed (jb_dht j) in
        if getNumBucketEntries (routingTable d) > MAX_ENTRIES_PER_BUCKET + 2
        then let (bs, prefixes) = fillBuckets now (routingTable d) in
             if prefixes = [] then j\<lparr>jb_dht := stage_fillAllBuckets Completed d\<rparr>
             else j\<lparr>jb_dht := d\<lparr>routingTable := bs\<rparr>, jb_fills := jb_fills j @ [\<lparr>fr_total = length prefixes, fr_completion = 0\<rparr>]\<rparr>
        else j\<lparr>jb_dht := stage_fillAllBuckets Canceled d\<rparr>)"

definition bucket_filled :: "nat \<Rightarrow> jobs \<Rightarrow> jobs" where
  "bucket_filled k j =
     (let r = (jb_fills j ! k)\<lparr>fr_completion := fr_completion (jb_fills j ! k) + 1\<rparr>;
          j = j\<lparr>jb_fills := (jb_fills j)[k := r]\<rparr>
      in if fr_completion r \<ge> fr_total r then j\<lparr>jb_dht := stage_fillAllBuckets Completed (jb_dht j)\<rparr> else j)"

section \<open>Regular work\<close>

text \<open>\<^verbatim>\<open>RoutingTable::save\<close> opens the file before it looks at the table: an empty table leaves an empty file.\<close>

definition save_table :: "jobs \<Rightarrow> jobs" where
  "save_table j = j\<lparr>jb_file := (case rt_save (routingTable (jb_dht j)) of None \<Rightarrow> [] | Some es \<Rightarrow> es)\<rparr>"

definition dht_update :: "u64 \<Rightarrow> id \<Rightarrow> node_info list \<Rightarrow> jobs \<times> server \<Rightarrow> (jobs \<times> server \<times> node_info list) option" where
  "dht_update now self randomEntries s =
     (let (j, sv) = s; d = jb_dht j in
      if \<not> d_running d then Some (j, sv, [])
      else
        let sv = updateReachability now sv in
        case rt_maintenance now self (map n_id (bootstrapNodes d)) (lastPingCheck j, routingTable d) of
          None \<Rightarrow> None
        | Some (t, bs, refreshed) \<Rightarrow>
            let d = d\<lparr>routingTable := bs, pingTasks := pingTasks d @ refreshed\<rparr>;
                j = j\<lparr>lastPingCheck := t, jb_dht := d\<rparr>;
                (j, asked) =
                  (if needUpdateBootstrap d \<or> getNumBucketEntries (routingTable d) < BOOTSTRAP_IF_LESS_THAN_X_PEERS \<or>
                      now - lastBootstrap d > word_of_int SELF_LOOKUP_INTERVAL
                   then updateBootstrap now randomEntries (j\<lparr>jb_dht := d\<lparr>needUpdateBootstrap := False\<rparr>\<rparr>)
                   else (j, []));
                j = (if persistFile j \<noteq> [] \<and> now - lastSave j > word_of_int ROUTING_TABLE_PERSIST_INTERVAL
                     then (save_table j)\<lparr>lastSave := now\<rparr> else j)
            in Some (j, sv, asked))"

text \<open>The entries read from the file get new identities, as every object does.\<close>

definition load_table :: "u64 \<Rightarrow> id \<Rightarrow> jobs \<Rightarrow> jobs option" where
  "load_table now self j =
     (let d = jb_dht j; es = map (\<lambda>(e, r). e\<lparr>e_ref := r\<rparr>) (zip (jb_file j) [d_nextRef d..<d_nextRef d + length (jb_file j)]) in
      map_option (\<lambda>bs. j\<lparr>jb_dht := d\<lparr>routingTable := bs, d_nextRef := d_nextRef d + length es\<rparr>\<rparr>) (rt_load now self es (routingTable d)))"

definition dht_start :: "u64 \<Rightarrow> id \<Rightarrow> node_info list \<Rightarrow> jobs \<Rightarrow> jobs option" where
  "dht_start now self nodes j =
     (if d_running (jb_dht j) then Some j
      else
        case (if persistFile j \<noteq> [] then load_table now self j else Some j) of
          None \<Rightarrow> None
        | Some j \<Rightarrow>
            let d = jb_dht j;
                d = d\<lparr>bootstrapNodes := bootstrapNodes d @ filter (\<lambda>n. canUseSocketAddress (d_type d) (n_addr n)) nodes, d_running := True\<rparr>;
                d = setStatus Disconnected Connecting d;
                d = (if bootstrapNodes d \<noteq> [] then d\<lparr>needUpdateBootstrap := True\<rparr>
                     else stage_fillAllBuckets Canceled (stage_fillHomeBucket Canceled d))
            in Some (j\<lparr>jb_dht := d, lastSave := now - word_of_int ROUTING_TABLE_PERSIST_INTERVAL + word_of_int (120 * 1000),
                       jb_timers := jb_timers j @ [(DequeueTasks, 5000, DHT_UPDATE_INTERVAL), (UpdateDht, 100, DHT_UPDATE_INTERVAL),
                         (PingRandom, RANDOM_PING_INTERVAL, RANDOM_PING_INTERVAL), (LookupRandom, RANDOM_LOOKUP_INTERVAL, RANDOM_LOOKUP_INTERVAL)]\<rparr>))"

definition dht_stop :: "jobs \<times> manager \<Rightarrow> jobs \<times> manager" where
  "dht_stop s =
     (let (j, m) = s in
      if \<not> d_running (jb_dht j) then s
      else let j = j\<lparr>jb_dht := (jb_dht j)\<lparr>d_running := False\<rparr>\<rparr>;
               j = (if persistFile j \<noteq> [] then save_table j else j)
           in (j, cancelAll m))"

text \<open>The jobs that ping a random entry, when no call is pending, and that look up a random identifier as task \<open>t\<close>.\<close>

definition ping_random :: "env \<Rightarrow> kbucket_entry option \<Rightarrow> server \<Rightarrow> server \<times> action list \<times> bool" where
  "ping_random E entry sv =
     (if calls sv \<noteq> Map.empty then (sv, [], False)
      else case entry of None \<Rightarrow> (sv, [], False) | Some e \<Rightarrow> sendCall E (verify_call e) sv)"

definition lookup_random :: "nat \<Rightarrow> manager \<Rightarrow> manager" where
  "lookup_random t m = tm_add t False m"

section \<open>Pinging a bucket\<close>

record ping_options =
  checkAll :: bool
  removeOnTimeout :: bool

definition ping_addBucket :: "u64 \<Rightarrow> ping_options \<Rightarrow> kbucket \<Rightarrow> kbucket \<times> kbucket_entry announce" where
  "ping_addBucket now opts b =
     (b_updateRefreshTimer now b, mk_announce (filter (\<lambda>e. needsPing now e \<or> checkAll opts \<or> removeOnTimeout opts) (entries b)))"

text \<open>\<open>skip\<close> says which entries no longer need a ping at this time.\<close>

definition ping_skips :: "u64 \<Rightarrow> ping_options \<Rightarrow> (kbucket_entry \<Rightarrow> kbucket_entry) \<Rightarrow> kbucket_entry \<Rightarrow> bool" where
  "ping_skips now opts current e \<longleftrightarrow> \<not> checkAll opts \<and> \<not> needsPing now (current e)"

function ping_update :: "('a \<Rightarrow> bool) \<Rightarrow> 'a announce \<Rightarrow> 'a announce" where
  "ping_update skip t =
     (if an_todo t \<noteq> [] \<and> an_canDoRequest t
      then let e = hd (an_todo t); t1 = t\<lparr>an_todo := tl (an_todo t)\<rparr> in
           if skip e then ping_update skip t1
           else ping_update skip (t1\<lparr>an_inFlight := an_inFlight t @ [e], an_asked := an_asked t @ [e]\<rparr>)
      else t)"
  by pat_completeness auto
termination by (relation "measure (\<lambda>(skip, t). length (an_todo t))") auto

declare ping_update.simps [simp del]

definition ping_serializedUpdate :: "('a \<Rightarrow> bool) \<Rightarrow> u64 \<Rightarrow> 'a announce \<Rightarrow> 'a announce" where
  "ping_serializedUpdate skip now t =
     (let t1 = (if an_isDone ValueAnnounce t then an_finish now t else t) in
      if an_canDoRequest t1 \<and> \<not> an_isFinished t1
      then let t2 = ping_update skip t1 in if an_isDone ValueAnnounce t2 then an_finish now t2 else t2
      else t1)"

definition ping_start :: "('a \<Rightarrow> bool) \<Rightarrow> u64 \<Rightarrow> 'a announce \<Rightarrow> 'a announce" where
  "ping_start skip now t =
     (if an_state t \<in> {INITIAL, QUEUED} then ping_serializedUpdate skip now (t\<lparr>an_state := RUNNING, an_startTime := now\<rparr>) else t)"

text \<open>The end of a call: a time-out removes the target from the routing table when the task was asked to.\<close>

definition ping_callEnded ::
  "(kbucket_entry \<Rightarrow> bool) \<Rightarrow> u64 \<Rightarrow> ping_options \<Rightarrow> bool \<Rightarrow> kbucket_entry \<Rightarrow> kbucket_entry announce \<times> table \<Rightarrow> kbucket_entry announce \<times> table" where
  "ping_callEnded skip now opts timedOut e s =
     (let (t, bs) = s;
          t = t\<lparr>an_inFlight := remove1 e (an_inFlight t)\<rparr>;
          bs = (if timedOut \<and> \<not> an_isFinished t \<and> removeOnTimeout opts then rt_remove now (e_id e) bs else bs)
      in (ping_serializedUpdate skip now t, bs))"

section \<open>A round of bootstrapping\<close>

definition answered :: "(u64 \<times> node_info list option) list \<Rightarrow> node_info list" where
  "answered evs = concat (map (\<lambda>(t, a). case a of Some ns \<Rightarrow> ns | None \<Rightarrow> []) evs)"

definition boot_calls :: "nat \<Rightarrow> (u64 \<times> node_info list option) list \<Rightarrow> jobs \<Rightarrow> jobs" where
  "boot_calls k evs j = fold (\<lambda>(t, a). boot_call_ended t k a) evs j"

lemma answered_snoc: "answered (evs @ [(t, a)]) = answered evs @ (case a of Some ns \<Rightarrow> ns | None \<Rightarrow> [])"
  by (simp add: answered_def)

text \<open>As long as the count has not reached the number waited for, only the round itself changes.\<close>

lemma boot_calls_open:
  assumes "k < length (jb_rounds j)" and "br_count (jb_rounds j ! k) = 0" and "br_nodes (jb_rounds j ! k) = []"
    and "br_len (jb_rounds j ! k) = 0 \<or> length evs < br_len (jb_rounds j ! k)"
  shows "boot_calls k evs j =
    j\<lparr>jb_rounds := (jb_rounds j)[k := \<lparr>br_len = br_len (jb_rounds j ! k), br_count = length evs, br_nodes = answered evs\<rparr>]\<rparr>"
  using assms(4)
proof (induction evs rule: rev_induct)
  case Nil
  have "jb_rounds j ! k = \<lparr>br_len = br_len (jb_rounds j ! k), br_count = 0, br_nodes = []\<rparr>" using assms(2,3) by simp
  then show ?case by (simp add: boot_calls_def answered_def)
next
  case (snoc ev evs)
  obtain t a where ev: "ev = (t, a)" by (metis surj_pair)
  let ?r = "\<lparr>br_len = br_len (jb_rounds j ! k), br_count = length evs, br_nodes = answered evs\<rparr>"
  have "boot_calls k evs j = j\<lparr>jb_rounds := (jb_rounds j)[k := ?r]\<rparr>" using snoc by auto
  then have "boot_calls k (evs @ [ev]) j = boot_call_ended t k a (j\<lparr>jb_rounds := (jb_rounds j)[k := ?r]\<rparr>)" by (simp add: boot_calls_def ev)
  moreover have "Suc (length evs) \<noteq> br_len (jb_rounds j ! k)" using snoc.prems by auto
  ultimately show ?case using assms(1) by (simp add: boot_call_ended_def Let_def ev answered_snoc split: option.splits)
qed

lemma boot_calls_last:
  assumes "k < length (jb_rounds j)" and "br_count (jb_rounds j ! k) = 0" and "br_nodes (jb_rounds j ! k) = []"
    and "evs \<noteq> []" and "length evs = br_len (jb_rounds j ! k)"
  shows "\<exists>rs. boot_calls k evs j = fillHomeBucket (answered evs) (j\<lparr>jb_rounds := rs, jb_dht := (jb_dht j)\<lparr>lastBootstrap := fst (last evs)\<rparr>\<rparr>)"
proof -
  obtain evs' t a where e: "evs = evs' @ [(t, a)]" using assms(4) by (metis append_butlast_last_id surj_pair)
  have "boot_calls k evs' j =
      j\<lparr>jb_rounds := (jb_rounds j)[k := \<lparr>br_len = br_len (jb_rounds j ! k), br_count = length evs', br_nodes = answered evs'\<rparr>]\<rparr>"
    using assms e by (intro boot_calls_open) auto
  moreover have "boot_calls k evs j = boot_call_ended t k a (boot_calls k evs' j)" by (simp add: boot_calls_def e)
  ultimately show ?thesis using assms(1,5) e
    by (auto simp: boot_call_ended_def Let_def answered_snoc split: option.splits)
qed

lemma home_filled_ends: "\<not> bootstrapping (home_filled now j)"
  by (simp add: home_filled_def Let_def split: prod.splits)

text \<open>
  C23: A round of bootstrapping asks every bootstrap node and goes on when all of them have answered or failed, in whatever order: it records the
  time and queues one lookup for the home bucket, with all the nodes that were named, unless nothing is known at all; the end of that lookup allows the next round. A round
  that had to ask random entries of the table, because there are no bootstrap nodes, never ends: no lookup is queued and no later round asks anyone.
\<close>

theorem bootstrap_round:
  assumes "updateBootstrap now rnd j = (j1, contacted)" and "contacted \<noteq> []" and "j2 = boot_calls (length (jb_rounds j)) evs j1"
  shows "(bootstrapNodes (jb_dht j) \<noteq> [] \<longrightarrow> contacted = bootstrapNodes (jb_dht j) \<and>
      (length evs < length contacted \<longrightarrow> bootstrapping j2 \<and> jb_homes j2 = jb_homes j) \<and>
      (length evs = length contacted \<longrightarrow> lastBootstrap (jb_dht j2) = fst (last evs) \<and> \<not> bootstrapping (home_filled t j2) \<and>
        (if getNumBucketEntries (routingTable (jb_dht j)) = 0 \<and> answered evs = [] then \<not> bootstrapping j2 \<and> jb_homes j2 = jb_homes j
         else bootstrapping j2 \<and> jb_homes j2 = jb_homes j @ [answered evs]))) \<and>
    (bootstrapNodes (jb_dht j) = [] \<longrightarrow> bootstrapping j2 \<and> jb_homes j2 = jb_homes j \<and> updateBootstrap now' rnd' j2 = (j2, []))"
proof -
  let ?k = "length (jb_rounds j)"
  have u: "j1 = j\<lparr>bootstrapping := True, jb_dht := clearBootstrapStatus (jb_dht j),
        jb_rounds := jb_rounds j @ [\<lparr>br_len = length (bootstrapNodes (jb_dht j)), br_count = 0, br_nodes = []\<rparr>]\<rparr>"
    "contacted = (if bootstrapNodes (jb_dht j) \<noteq> [] then bootstrapNodes (jb_dht j) else rnd)"
    using assms(1,2) by (auto simp: updateBootstrap_def Let_def split: if_splits)
  have r: "?k < length (jb_rounds j1)" "br_count (jb_rounds j1 ! ?k) = 0" "br_nodes (jb_rounds j1 ! ?k) = []"
    "br_len (jb_rounds j1 ! ?k) = length (bootstrapNodes (jb_dht j))" by (simp_all add: u(1))
  have wait: "\<exists>rs. j2 = j1\<lparr>jb_rounds := rs\<rparr>" if "bootstrapNodes (jb_dht j) = [] \<or> length evs < length (bootstrapNodes (jb_dht j))"
    using boot_calls_open [OF r(1-3), of evs] that r(4) assms(3) by auto
  have lst: "\<exists>rs. j2 = fillHomeBucket (answered evs) (j1\<lparr>jb_rounds := rs, jb_dht := (jb_dht j1)\<lparr>lastBootstrap := fst (last evs)\<rparr>\<rparr>)"
    if "bootstrapNodes (jb_dht j) \<noteq> []" "length evs = length (bootstrapNodes (jb_dht j))"
    using boot_calls_last [OF r(1-3), of evs] that r(4) assms(3) by (cases evs) auto
  have "updateBootstrap now' rnd' j2 = (j2, [])" if "bootstrapping j2" using that by (simp add: updateBootstrap_def Let_def)
  then show ?thesis using wait lst u home_filled_ends
    by (auto simp: fillHomeBucket_def clearBootstrapStatus_def)
qed

definition boot_node :: node_info where
  "boot_node = \<lparr>n_id = MAX_ID, n_addr = Inet 0x08080808 39001, n_version = 0\<rparr>"

definition booting :: jobs where
  "booting = \<lparr>jb_dht = v4_dht\<lparr>bootstrapNodes := [boot_node], d_running := True, lastBootstrap := 0\<rparr>, bootstrapping = False, lastSave = 0, persistFile = [], jb_file = [],
     lastPingCheck = 0, jb_rounds = [], jb_homes = [], jb_fills = [], jb_timers = []\<rparr>"

theorem bootstrap_round_witness:
  "\<exists>j1. updateBootstrap 1000000 [] booting = (j1, [boot_node]) \<and> jb_homes (boot_calls 0 [(1000100, Some [boot_node])] j1) = [[boot_node]] \<and>
     lastBootstrap (jb_dht (boot_calls 0 [(1000100, Some [boot_node])] j1)) = 1000100"
proof -
  obtain j1 where j1: "updateBootstrap 1000000 [] booting = (j1, [boot_node])" by (simp add: updateBootstrap_def booting_def Let_def)
  have "answered [(1000100, Some [boot_node])] = [boot_node]" by (simp add: answered_def)
  then show ?thesis using bootstrap_round [OF j1 _ refl, of "[(1000100, Some [boot_node])]" 0 0 "[]"] j1 by (auto simp: booting_def)
qed

section \<open>The regular update\<close>

lemma updateBootstrap_table: "updateBootstrap now rnd j = (j', ns) \<Longrightarrow> routingTable (jb_dht j') = routingTable (jb_dht j)"
  by (auto simp: updateBootstrap_def Let_def clearBootstrapStatus_def split: if_splits)

lemma updateBootstrap_frame: "updateBootstrap now rnd j = (j', ns) \<Longrightarrow> persistFile j' = persistFile j \<and> lastSave j' = lastSave j \<and> jb_file j' = jb_file j"
  by (auto simp: updateBootstrap_def Let_def split: if_splits)



section \<open>A bucket is refreshed\<close>

text \<open>The loop of \<^verbatim>\<open>update\<close>: it sends to entries from the front, skips some, and stops when the list or the request slots are used up.\<close>

lemma ping_update_effect:
  assumes "ping_update skip t = u"
  shows "\<exists>new. mset (new @ an_todo u) \<subseteq># mset (an_todo t) \<and> an_asked u = an_asked t @ new \<and> an_inFlight u = an_inFlight t @ new \<and>
    an_state u = an_state t \<and> an_notified u = an_notified t \<and> (an_todo u = [] \<or> \<not> an_canDoRequest u) \<and>
    (length (an_inFlight t) \<le> MAX_CONCURRENT_TASK_REQUESTS \<longrightarrow> length (an_inFlight u) \<le> MAX_CONCURRENT_TASK_REQUESTS) \<and> set new \<inter> Collect skip = {}"
  using assms
proof (induction skip t arbitrary: u rule: ping_update.induct)
  case (1 skip t)
  show ?case
  proof (cases "an_todo t \<noteq> [] \<and> an_canDoRequest t")
    case False
    then have "u = t" using 1(3) by (subst (asm) ping_update.simps) auto
    then show ?thesis using False by (intro exI [of _ "[]"]) auto
  next
    case True
    then obtain e es where e: "an_todo t = e # es" by (cases "an_todo t") auto
    show ?thesis
    proof (cases "skip e")
      case s: True
      have "ping_update skip (t\<lparr>an_todo := es\<rparr>) = u" using 1(3) True e s by (subst (asm) ping_update.simps) (simp add: Let_def)
      then obtain new where "mset (new @ an_todo u) \<subseteq># mset es" "an_asked u = an_asked t @ new" "an_inFlight u = an_inFlight t @ new"
        "an_state u = an_state t" "an_notified u = an_notified t" "an_todo u = [] \<or> \<not> an_canDoRequest u"
        "length (an_inFlight t) \<le> MAX_CONCURRENT_TASK_REQUESTS \<longrightarrow> length (an_inFlight u) \<le> MAX_CONCURRENT_TASK_REQUESTS" "set new \<inter> Collect skip = {}"
        using 1(1) [OF True refl refl, of u] e s by auto
      then show ?thesis using e by (intro exI [of _ new]) (auto intro: subset_mset.order_trans)
    next
      case s: False
      have "ping_update skip (t\<lparr>an_todo := es, an_inFlight := an_inFlight t @ [e], an_asked := an_asked t @ [e]\<rparr>) = u"
        using 1(3) True e s by (subst (asm) ping_update.simps) (simp add: Let_def)
      then obtain new where "mset (new @ an_todo u) \<subseteq># mset es" "an_asked u = (an_asked t @ [e]) @ new" "an_inFlight u = (an_inFlight t @ [e]) @ new"
        "an_state u = an_state t" "an_notified u = an_notified t" "an_todo u = [] \<or> \<not> an_canDoRequest u" "set new \<inter> Collect skip = {}"
        "length (an_inFlight t @ [e]) \<le> MAX_CONCURRENT_TASK_REQUESTS \<longrightarrow> length (an_inFlight u) \<le> MAX_CONCURRENT_TASK_REQUESTS"
        using 1(2) [OF True refl refl, of u] e s by auto
      moreover have "length (an_inFlight t @ [e]) \<le> MAX_CONCURRENT_TASK_REQUESTS" using True by (simp add: an_canDoRequest_def)
      ultimately show ?thesis using e s by (intro exI [of _ "e # new"]) auto
    qed
  qed
qed

definition ping_ok :: "'a list \<Rightarrow> 'a announce \<Rightarrow> bool" where
  "ping_ok xs t \<longleftrightarrow> mset (an_asked t @ an_todo t) \<subseteq># mset xs \<and> length (an_inFlight t) \<le> MAX_CONCURRENT_TASK_REQUESTS \<and>
     mset (an_inFlight t) \<subseteq># mset (an_asked t) \<and> an_notified t = of_bool (an_isFinished t) \<and> an_state t \<in> {RUNNING, FINISHED, CANCELED} \<and>
     (an_state t = FINISHED \<longrightarrow> an_todo t = [] \<and> an_inFlight t = [])"

lemma ping_update_ok:
  assumes ok: "ping_ok xs t" and r: "an_state t = RUNNING"
  shows "ping_ok xs (ping_update skip t)" and "an_state (ping_update skip t) = RUNNING"
    and "length (an_todo (ping_update skip t)) + length (an_inFlight (ping_update skip t)) \<le> length (an_todo t) + length (an_inFlight t)"
    and "an_todo (ping_update skip t) = [] \<or> an_inFlight (ping_update skip t) \<noteq> []"
proof -
  obtain new where n: "mset (new @ an_todo (ping_update skip t)) \<subseteq># mset (an_todo t)" "an_asked (ping_update skip t) = an_asked t @ new"
    "an_inFlight (ping_update skip t) = an_inFlight t @ new" "an_state (ping_update skip t) = an_state t" "an_notified (ping_update skip t) = an_notified t"
    "an_todo (ping_update skip t) = [] \<or> \<not> an_canDoRequest (ping_update skip t)" "length (an_inFlight (ping_update skip t)) \<le> MAX_CONCURRENT_TASK_REQUESTS"
    using ping_update_effect [OF refl, of skip t] ok unfolding ping_ok_def by metis
  have "mset (an_asked t @ new @ an_todo (ping_update skip t)) \<subseteq># mset (an_asked t @ an_todo t)" using n(1) by simp
  then have "mset (an_asked t @ new @ an_todo (ping_update skip t)) \<subseteq># mset xs" using ok subset_mset.order_trans unfolding ping_ok_def by blast
  moreover have "mset (an_inFlight t @ new) \<subseteq># mset (an_asked t @ new)" using ok by (simp add: ping_ok_def)
  ultimately show "ping_ok xs (ping_update skip t)" using ok r n by (simp add: ping_ok_def an_isFinished_def)
  show "an_state (ping_update skip t) = RUNNING" using n(4) r by simp
  show "length (an_todo (ping_update skip t)) + length (an_inFlight (ping_update skip t)) \<le> length (an_todo t) + length (an_inFlight t)"
    using size_mset_mono [OF n(1)] n(3) by simp
  show "an_todo (ping_update skip t) = [] \<or> an_inFlight (ping_update skip t) \<noteq> []" using n(6) by (auto simp: an_canDoRequest_def)
qed

lemma ping_serialized_ok:
  assumes ok: "ping_ok xs t"
  shows "ping_ok xs (ping_serializedUpdate skip now t) \<and> (an_state (ping_serializedUpdate skip now t) = RUNNING \<longrightarrow> an_inFlight (ping_serializedUpdate skip now t) \<noteq> []) \<and>
    length (an_todo (ping_serializedUpdate skip now t)) + length (an_inFlight (ping_serializedUpdate skip now t)) \<le> length (an_todo t) + length (an_inFlight t)"
proof (cases "an_isFinished t")
  case True
  then have "an_finish now t = t" by (auto simp: an_finish_def an_end_def an_isFinished_def)
  then have "ping_serializedUpdate skip now t = t" using True by (simp add: ping_serializedUpdate_def Let_def)
  then show ?thesis using ok True by (auto simp: an_isFinished_def)
next
  case False
  then have r: "an_state t = RUNNING" using ok by (auto simp: ping_ok_def an_isFinished_def)
  have fin: "ping_ok xs (an_finish now u) \<and> an_state (an_finish now u) = FINISHED \<and> an_todo (an_finish now u) = an_todo u \<and> an_inFlight (an_finish now u) = an_inFlight u"
    if "ping_ok xs u" "an_isDone ValueAnnounce u" "an_state u = RUNNING" for u
    using that by (auto simp: ping_ok_def an_finish_def an_end_def an_isFinished_def)
  note up = ping_update_ok [OF ok r, of skip]
  show ?thesis
  proof (cases "an_isDone ValueAnnounce t")
    case True
    then have "ping_serializedUpdate skip now t = an_finish now t" using fin [OF ok True r] by (simp add: ping_serializedUpdate_def Let_def an_isFinished_def del: an_isDone.simps)
    then show ?thesis using fin [OF ok True r] by simp
  next
    case nd: False
    show ?thesis
    proof (cases "an_canDoRequest t")
      case True
      then have e: "ping_serializedUpdate skip now t = (let u = ping_update skip t in if an_isDone ValueAnnounce u then an_finish now u else u)"
        using nd False by (simp add: ping_serializedUpdate_def Let_def del: an_isDone.simps)
      show ?thesis using fin [OF up(1) _ up(2)] up unfolding e Let_def by (cases "an_isDone ValueAnnounce (ping_update skip t)") auto
    next
      case c: False
      then have "ping_serializedUpdate skip now t = t" using nd by (simp add: ping_serializedUpdate_def Let_def del: an_isDone.simps)
      then show ?thesis using ok c by (auto simp: an_canDoRequest_def)
    qed
  qed
qed

lemma ping_removed_ok:
  assumes ok: "ping_ok xs t"
  shows "ping_ok xs (t\<lparr>an_inFlight := remove1 e (an_inFlight t)\<rparr>)"
proof -
  have "mset (an_inFlight t) - {#e#} \<subseteq># mset (an_asked t)"
    using ok subset_mset.order_trans [OF diff_subset_eq_self [of "mset (an_inFlight t)" "{#e#}"]] by (auto simp: ping_ok_def)
  then show ?thesis using ok length_remove1 [of e "an_inFlight t"] by (auto simp: ping_ok_def an_isFinished_def)
qed

lemma ping_serialized_asked:
  "\<exists>new. an_asked (ping_serializedUpdate skip now t) = an_asked t @ new \<and> an_inFlight (ping_serializedUpdate skip now t) = an_inFlight t @ new \<and>
    (an_state (ping_serializedUpdate skip now t) = CANCELED \<longleftrightarrow> an_state t = CANCELED)"
proof -
  have f: "an_asked (an_finish now u) = an_asked u \<and> an_inFlight (an_finish now u) = an_inFlight u \<and> (an_state (an_finish now u) = CANCELED \<longleftrightarrow> an_state u = CANCELED)"
    for u :: "'a announce" by (auto simp: an_finish_def an_end_def)
  obtain new where "an_asked (ping_update skip t) = an_asked t @ new" "an_inFlight (ping_update skip t) = an_inFlight t @ new" "an_state (ping_update skip t) = an_state t"
    using ping_update_effect [OF refl, of skip t] by blast
  moreover have "an_isFinished (an_finish now t)" by (auto simp: an_finish_def an_end_def an_isFinished_def intro: task_state.exhaust)
  ultimately show ?thesis using f by (auto simp: ping_serializedUpdate_def Let_def simp del: an_isDone.simps)
qed

text \<open>
  What happens to a task: a call ends, with what the entries then look like, or the task is cancelled. The calls that have ended are listed with the
  target and whether they timed out.
\<close>

inductive ping_step :: "ping_options \<Rightarrow> (kbucket_entry announce \<times> table) \<times> (kbucket_entry \<times> bool) list \<Rightarrow>
    (kbucket_entry announce \<times> table) \<times> (kbucket_entry \<times> bool) list \<Rightarrow> bool" for opts where
  ping_ended: "e \<in> set (an_inFlight t) \<Longrightarrow>
    ping_step opts ((t, bs), es) (ping_callEnded (ping_skips now opts current) now opts timedOut e (t, bs), es @ [(e, timedOut)])"
| ping_canceled: "ping_step opts ((t, bs), es) ((an_cancel now t, bs), es)"

definition ping_inv :: "ping_options \<Rightarrow> kbucket_entry list \<Rightarrow> table \<Rightarrow> (kbucket_entry announce \<times> table) \<times> (kbucket_entry \<times> bool) list \<Rightarrow> bool" where
  "ping_inv opts xs bs0 s \<longleftrightarrow> (case s of ((t, bs), es) \<Rightarrow> ping_ok xs t \<and> (an_state t = RUNNING \<longrightarrow> an_inFlight t \<noteq> []) \<and> rt_inv bs \<and>
     mset (an_asked t) = mset (an_inFlight t) + mset (map fst es) \<and>
     (\<forall>i. getEntry bs i = getEntry bs0 i \<or> (removeOnTimeout opts \<and> (\<exists>e. (e, True) \<in> set es \<and> e_id e = i) \<and> getEntry bs i = None)) \<and>
     (removeOnTimeout opts \<and> an_state t \<noteq> CANCELED \<longrightarrow> (\<forall>e. (e, True) \<in> set es \<longrightarrow> getEntry bs (e_id e) = None)))"

lemma ping_step_inv:
  assumes "ping_step opts s s'" and "ping_inv opts xs bs0 s"
  shows "ping_inv opts xs bs0 s'"
  using assms(1)
proof cases
  case (ping_ended e t bs es now current timedOut)
  have ok: "ping_ok xs t" and inv: "rt_inv bs" and m: "mset (an_asked t) = mset (an_inFlight t) + mset (map fst es)"
    and old: "\<And>i. getEntry bs i = getEntry bs0 i \<or> (removeOnTimeout opts \<and> (\<exists>e. (e, True) \<in> set es \<and> e_id e = i) \<and> getEntry bs i = None)"
    and gone: "\<And>f. removeOnTimeout opts \<Longrightarrow> an_state t \<noteq> CANCELED \<Longrightarrow> (f, True) \<in> set es \<Longrightarrow> getEntry bs (e_id f) = None"
    using assms(2) ping_ended(1) by (auto simp: ping_inv_def)
  let ?t = "t\<lparr>an_inFlight := remove1 e (an_inFlight t)\<rparr>"
  let ?u = "ping_serializedUpdate (ping_skips now opts current) now ?t"
  note p = ping_serialized_ok [OF ping_removed_ok [OF ok], of "ping_skips now opts current" now e]
  define bs' where "bs' = (if timedOut \<and> \<not> an_isFinished ?t \<and> removeOnTimeout opts then rt_remove now (e_id e) bs else bs)"
  have s': "s' = ((?u, bs'), es @ [(e, timedOut)])" using ping_ended by (simp add: ping_callEnded_def bs'_def Let_def)
  obtain new where n: "an_asked ?u = an_asked t @ new" "an_inFlight ?u = remove1 e (an_inFlight t) @ new" "an_state ?u = CANCELED \<longleftrightarrow> an_state t = CANCELED"
    using ping_serialized_asked [of "ping_skips now opts current" now ?t] by auto
  have "mset (an_inFlight t) = add_mset e (mset (remove1 e (an_inFlight t)))" using ping_ended(3) by simp
  then have "mset (an_asked ?u) = mset (an_inFlight ?u) + mset (map fst (es @ [(e, timedOut)]))" using m n(1,2) by simp
  moreover have "rt_inv bs'" using inv rt.remove_invar by (simp add: bs'_def)
  moreover have look: "getEntry bs' i = (if i = e_id e \<and> bs' \<noteq> bs then None else getEntry bs i)" for i
    using rt.lookup_remove [OF inv, of now "e_id e" i] by (auto simp: bs'_def)
  have "getEntry bs' i = getEntry bs0 i \<or> (removeOnTimeout opts \<and> (\<exists>f. (f, True) \<in> set (es @ [(e, timedOut)]) \<and> e_id f = i) \<and> getEntry bs' i = None)" for i
  proof (cases "i = e_id e \<and> bs' \<noteq> bs")
    case True
    then have "timedOut" "removeOnTimeout opts" by (auto simp: bs'_def split: if_splits)
    then show ?thesis using look [of i] True by auto
  next
    case False
    then have "getEntry bs' i = getEntry bs i" using look [of i] by auto
    then show ?thesis using old [of i] by auto
  qed
  moreover have "getEntry bs' (e_id f) = None" if f: "removeOnTimeout opts" "an_state ?u \<noteq> CANCELED" "(f, True) \<in> set (es @ [(e, timedOut)])" for f
  proof (cases "(f, True) \<in> set es")
    case True
    then show ?thesis using gone f(1,2) n(3) look [of "e_id f"] by simp
  next
    case False
    then have "f = e" "timedOut" using f(3) by auto
    moreover have "\<not> an_isFinished ?t" using ok f(2) n(3) ping_ended(3) by (auto simp: an_isFinished_def ping_ok_def)
    ultimately show ?thesis using rt.lookup_remove [OF inv, of now "e_id e" "e_id e"] f(1) by (simp add: bs'_def)
  qed
  ultimately show ?thesis using p unfolding ping_inv_def s' by simp
next
  case (ping_canceled t bs es now)
  then show ?thesis using assms(2) by (auto simp: ping_inv_def ping_ok_def an_cancel_def an_end_def an_isFinished_def)
qed

text \<open>
  C24: Refreshing a bucket pings each of the entries chosen from it at most once, ten at a time; every ping that was sent is pending or has ended; while the task runs one is
  pending, and every ping that ends leaves less to do, so the task finishes; its listeners are told once. The routing table keeps its invariant.
  What it loses are entries whose ping timed out, and none unless the task was asked to remove them; if it was, and was not cancelled, all of them are gone.
\<close>

theorem bucket_refreshed:
  assumes "rt_inv bs" and "ping_addBucket t0 opts b = (b', task)" and "an_todo task = xs"
    and "(ping_step opts)\<^sup>*\<^sup>* ((ping_start (ping_skips t1 opts current) t1 task, bs), []) ((t, bs'), es)"
  shows "mset (an_asked t @ an_todo t) \<subseteq># mset xs \<and> set xs \<subseteq> set (entries b) \<and> length (an_inFlight t) \<le> MAX_CONCURRENT_TASK_REQUESTS \<and>
    mset (an_asked t) = mset (an_inFlight t) + mset (map fst es) \<and>
    an_notified t = of_bool (an_isFinished t) \<and> (an_state t = RUNNING \<longrightarrow> an_inFlight t \<noteq> []) \<and> (an_state t = FINISHED \<longrightarrow> an_inFlight t = [] \<and> an_todo t = []) \<and>
    (e \<in> set (an_inFlight t) \<longrightarrow> (case ping_callEnded (ping_skips t2 opts current') t2 opts timedOut e (t, bs') of (u, _) \<Rightarrow>
       length (an_todo u) + length (an_inFlight u) < length (an_todo t) + length (an_inFlight t))) \<and>
    rt_inv bs' \<and> (getEntry bs' i = getEntry bs i \<or> (removeOnTimeout opts \<and> (\<exists>f. (f, True) \<in> set es \<and> e_id f = i) \<and> getEntry bs' i = None)) \<and>
    (removeOnTimeout opts \<and> an_state t \<noteq> CANCELED \<and> (f, True) \<in> set es \<longrightarrow> getEntry bs' (e_id f) = None)"
proof -
  have task: "task = mk_announce xs" "set xs \<subseteq> set (entries b)" using assms(2,3) by (auto simp: ping_addBucket_def mk_announce_def)
  let ?t0 = "(mk_announce xs)\<lparr>an_state := RUNNING, an_startTime := t1\<rparr>"
  define u where "u = ping_serializedUpdate (ping_skips t1 opts current) t1 ?t0"
  have "ping_ok xs ?t0" by (simp add: ping_ok_def mk_announce_def an_isFinished_def)
  from ping_serialized_ok [OF this, of "ping_skips t1 opts current" t1] have "ping_ok xs u" "an_state u = RUNNING \<longrightarrow> an_inFlight u \<noteq> []" by (simp_all add: u_def)
  moreover have "an_asked u = an_inFlight u" using ping_serialized_asked [of "ping_skips t1 opts current" t1 ?t0] by (auto simp: u_def mk_announce_def)
  moreover have "ping_start (ping_skips t1 opts current) t1 task = u" by (simp add: task(1) u_def ping_start_def mk_announce_def)
  ultimately have "ping_inv opts xs bs ((ping_start (ping_skips t1 opts current) t1 task, bs), [])"
    using assms(1) by (simp add: ping_inv_def)
  with assms(4) have inv: "ping_inv opts xs bs ((t, bs'), es)" by (induction rule: rtranclp_induct) (auto dest: ping_step_inv)
  have "length (an_todo u) + length (an_inFlight u) < length (an_todo t) + length (an_inFlight t)"
    if "e \<in> set (an_inFlight t)" "ping_callEnded (ping_skips t2 opts current') t2 opts timedOut e (t, bs') = (u, x)" for u x
  proof -
    let ?t = "t\<lparr>an_inFlight := remove1 e (an_inFlight t)\<rparr>"
    have ok: "ping_ok xs t" using inv by (simp add: ping_inv_def)
    note p = ping_serialized_ok [OF ping_removed_ok [OF ok], of "ping_skips t2 opts current'" t2 e]
    have u: "u = ping_serializedUpdate (ping_skips t2 opts current') t2 ?t" using that(2) by (simp add: ping_callEnded_def Let_def)
    have t: "an_todo ?t = an_todo t" "length (an_inFlight ?t) < length (an_inFlight t)"
      using length_pos_if_in_set [OF that(1)] that(1) by (simp_all add: length_remove1)
    show ?thesis using conjunct2 [OF conjunct2 [OF p]] t(2) unfolding u t(1) by (rule le_less_trans [OF _ add_strict_left_mono])
  qed
  then show ?thesis using inv task(2) by (auto simp: ping_inv_def ping_ok_def)
qed

definition lone_entry :: kbucket_entry where
  "lone_entry = signalResponse 4 (mk_entry 3 MAX_ID (Inet 0x08080808 39001) 0 1000)"

definition lone_table :: table where
  "lone_table = [(mk_bucket all_prefix True)\<lparr>entries := [lone_entry]\<rparr>]"

lemma lone_table_inv: "rt_inv lone_table"
  using wf_all_prefix by (simp add: lone_table_def rt_inv_def bucket_inv_def entries_inv_def mk_bucket_def prefix_copy_id table_refs_def
      lone_entry_def signalResponse_def mk_entry_def isPrefixOf_def bitsEqual_def all_prefix_def)

lemma lone_lookup: "getEntry lone_table MAX_ID = Some lone_entry"
  using getEntry_iff [OF lone_table_inv] by (simp add: lone_table_def lone_entry_def signalResponse_def mk_entry_def)

theorem bucket_refreshed_witness:
  "\<forall>timedOut. \<exists>b' task t bs'. ping_addBucket 5 \<lparr>checkAll = True, removeOnTimeout = True\<rparr> (hd lone_table) = (b', task) \<and>
     ping_callEnded (\<lambda>_. False) 7 \<lparr>checkAll = True, removeOnTimeout = True\<rparr> timedOut lone_entry (ping_start (\<lambda>_. False) 6 task, lone_table) = (t, bs') \<and> rt_inv bs' \<and>
     getEntry bs' MAX_ID = (if timedOut then None else getEntry lone_table MAX_ID) \<and> an_notified t = 1"
proof
  fix timedOut
  let ?o = "\<lparr>checkAll = True, removeOnTimeout = True\<rparr>"
  obtain b' task where b: "ping_addBucket 5 ?o (hd lone_table) = (b', task)" by (metis surj_pair)
  then have task: "task = mk_announce [lone_entry]" by (auto simp: ping_addBucket_def lone_table_def)
  have sk: "ping_skips t ?o (\<lambda>e. e) = (\<lambda>_. False)" for t by (intro ext) (simp add: ping_skips_def)
  let ?t = "ping_start (\<lambda>_. False) 6 task"
  have "?t = \<lparr>an_state = RUNNING, an_startTime = 6, an_finishTime = 0, an_todo = [], an_inFlight = [lone_entry], an_asked = [lone_entry], an_notified = 0\<rparr>"
    unfolding task by (simp add: ping_start_def mk_announce_def ping_serializedUpdate_def an_isFinished_def an_canDoRequest_def ping_update.simps Let_def)
  then have i: "lone_entry \<in> set (an_inFlight ?t)" and f: "an_state (fst (ping_callEnded (\<lambda>_. False) 7 ?o timedOut lone_entry (?t, lone_table))) = FINISHED"
    by (simp_all add: ping_callEnded_def ping_serializedUpdate_def an_isFinished_def an_finish_def an_end_def Let_def)
  obtain t bs' where e: "ping_callEnded (\<lambda>_. False) 7 ?o timedOut lone_entry (?t, lone_table) = (t, bs')" by (metis surj_pair)
  have "ping_step ?o ((?t, lone_table), []) ((t, bs'), [(lone_entry, timedOut)])" using ping_ended [OF i, of ?o lone_table "[]" 7 "\<lambda>e. e" timedOut] e by (simp add: sk)
  then have r: "(ping_step ?o)\<^sup>*\<^sup>* ((ping_start (ping_skips 6 ?o (\<lambda>e. e)) 6 task, lone_table), []) ((t, bs'), [(lone_entry, timedOut)])" by (simp add: sk)
  note p = bucket_refreshed [OF lone_table_inv b refl r, where i = MAX_ID and f = lone_entry]
  have "e_id lone_entry = MAX_ID" by (simp add: lone_entry_def signalResponse_def mk_entry_def)
  moreover have "an_state t = FINISHED" using f e by simp
  ultimately show "\<exists>b' task t bs'. ping_addBucket 5 ?o (hd lone_table) = (b', task) \<and>
     ping_callEnded (\<lambda>_. False) 7 ?o timedOut lone_entry (ping_start (\<lambda>_. False) 6 task, lone_table) = (t, bs') \<and> rt_inv bs' \<and>
     getEntry bs' MAX_ID = (if timedOut then None else getEntry lone_table MAX_ID) \<and> an_notified t = 1"
    using p b e by (auto simp: an_isFinished_def)
qed

end
