(* ===== verification/Schedulers.thy ===== *)
theory Schedulers
  imports Prelude
begin

text \<open>
  The timer queue of \<^verbatim>\<open>src/core/scheduler.h\<close>. A job is an object shared by the queue and by the caller of
  \<^verbatim>\<open>add\<close>; a number, its handle, stands for the object, and another number for the function it runs. The
  queue is a \<^verbatim>\<open>std::multimap\<close>: a list in the order of the keys, where a new entry goes behind those with the
  same key. What a function does to the queue is given by the timers it adds, \<open>body f\<close>: triples of
  a function, a delay and a fixed delay. \<open>clock\<close> is \<^verbatim>\<open>currentTimeMillis()\<close>.
\<close>

record job =
  j_do :: "nat option"
  fixedDelay :: int

record scheduler =
  s_now :: u64
  timers :: "(u64 \<times> nat) list"
  jobs :: "nat \<Rightarrow> job"
  next_handle :: nat
  ran :: "nat list" \<comment> \<open>the functions that were run, the latest first\<close>

definition mk_scheduler :: "u64 \<Rightarrow> scheduler" where
  "mk_scheduler clock = \<lparr>s_now = clock, timers = [], jobs = (\<lambda>_. \<lparr>j_do = None, fixedDelay = 0\<rparr>), next_handle = 0, ran = []\<rparr>"

fun emplace :: "u64 \<Rightarrow> nat \<Rightarrow> (u64 \<times> nat) list \<Rightarrow> (u64 \<times> nat) list" where
  "emplace t h [] = [(t, h)]"
| "emplace t h ((t', h') # xs) = (if t < t' then (t, h) # (t', h') # xs else (t', h') # emplace t h xs)"

definition s_add :: "u64 \<Rightarrow> nat option \<Rightarrow> int \<Rightarrow> int \<Rightarrow> scheduler \<Rightarrow> nat \<times> scheduler" where
  "s_add clock f delay fixed s =
     (let h = next_handle s;
          time = clock + word_of_int delay;
          s = s\<lparr>jobs := (jobs s)(h := \<lparr>j_do = f, fixedDelay = fixed\<rparr>), next_handle := h + 1\<rparr>
      in (h, if time \<noteq> -1 then s\<lparr>timers := emplace time h (timers s)\<rparr> else s))"

definition job_cancel :: "nat \<Rightarrow> scheduler \<Rightarrow> scheduler" where
  "job_cancel h s = s\<lparr>jobs := (jobs s)(h := \<lparr>j_do = None, fixedDelay = 0\<rparr>)\<rparr>"

text \<open>\<^verbatim>\<open>edit\<close> moves the function into a new job; the result is the new handle.\<close>

definition s_edit :: "u64 \<Rightarrow> nat \<Rightarrow> int \<Rightarrow> int \<Rightarrow> scheduler \<Rightarrow> nat \<times> scheduler" where
  "s_edit clock h delay fixed s =
     (let task = j_do (jobs s h) in s_add clock task delay fixed (job_cancel h s))"

text \<open>
  Running a function: it may add jobs (\<open>body\<close>). A function that cancels or edits another job or throws is not modelled.
\<close>

definition s_exec :: "u64 \<Rightarrow> (nat \<Rightarrow> (nat \<times> int \<times> int) list) \<Rightarrow> nat \<Rightarrow> scheduler \<Rightarrow> scheduler" where
  "s_exec clock body f s = fold (\<lambda>(g, delay, fixed) s. snd (s_add clock (Some g) delay fixed s)) (body f) (s\<lparr>ran := f # ran s\<rparr>)"

text \<open>One round of the loop of \<^verbatim>\<open>run\<close> for the first entry of the queue.\<close>

definition run_job :: "u64 \<Rightarrow> (nat \<Rightarrow> (nat \<times> int \<times> int) list) \<Rightarrow> u64 \<times> nat \<Rightarrow> scheduler \<Rightarrow> scheduler" where
  "run_job clock body timer s =
     (let h = snd timer;
          s1 = (case j_do (jobs s h) of Some f \<Rightarrow> s_exec clock body f s | None \<Rightarrow> s);
          d = fixedDelay (jobs s1 h);
          s2 = (if d > 0 then snd (s_edit clock h d d s1) else s1)
      in s2\<lparr>timers := remove1 timer (timers s2)\<rparr>)"

partial_function (option) s_run :: "u64 \<Rightarrow> (nat \<Rightarrow> (nat \<times> int \<times> int) list) \<Rightarrow> scheduler \<Rightarrow> scheduler option" where
  "s_run clock body s =
     (case timers s of
        [] \<Rightarrow> Some s
      | timer # _ \<Rightarrow> if fst timer > s_now s then Some s else s_run clock body (run_job clock body timer s))"

definition getNextJobTime :: "scheduler \<Rightarrow> u64" where
  "getNextJobTime s = (case timers s of [] \<Rightarrow> -1 | timer # _ \<Rightarrow> fst timer)"

definition s_syncTime :: "u64 \<Rightarrow> scheduler \<Rightarrow> scheduler" where
  "s_syncTime clock s = s\<lparr>s_now := clock\<rparr>"

section \<open>Order of the queue\<close>

lemma emplace_set [simp]: "set (emplace t h xs) = insert (t, h) (set xs)"
  by (induction t h xs rule: emplace.induct) auto

lemma emplace_sorted: "sorted (map fst xs) \<Longrightarrow> sorted (map fst (emplace t h xs))"
proof (induction xs)
  case (Cons x xs)
  then show ?case by (cases x) (auto intro: order.trans)
qed simp

lemma emplace_distinct: "h \<notin> snd ` set xs \<Longrightarrow> distinct (map snd xs) \<Longrightarrow> distinct (map snd (emplace t h xs))"
  by (induction t h xs rule: emplace.induct) auto

lemma emplace_due:
  "now < t \<Longrightarrow> filter (\<lambda>e. fst e \<le> now) (emplace t h xs) = filter (\<lambda>e. fst e \<le> now) xs"
  by (induction t h xs rule: emplace.induct) auto

text \<open>The queue is ordered, each handle occurs once in it and was given out before.\<close>

definition sched_inv :: "scheduler \<Rightarrow> bool" where
  "sched_inv s \<longleftrightarrow> sorted (map fst (timers s)) \<and> distinct (map snd (timers s)) \<and> (\<forall>e \<in> set (timers s). snd e < next_handle s)"

definition due :: "scheduler \<Rightarrow> (u64 \<times> nat) list" where
  "due s = filter (\<lambda>e. fst e \<le> s_now s) (timers s)"

text \<open>A delay after which a job is not due in the same run: positive, and the time does not wrap.\<close>

definition later :: "u64 \<Rightarrow> scheduler \<Rightarrow> int \<Rightarrow> bool" where
  "later clock s delay \<longleftrightarrow> s_now s < clock + word_of_int delay"

lemma s_add_inv:
  assumes "sched_inv s" and "s' = snd (s_add clock f delay fixed s)" and "later clock s delay"
  shows "sched_inv s'" and "due s' = due s" and "s_now s' = s_now s" and "ran s' = ran s"
    and "\<And>k. k < next_handle s \<Longrightarrow> jobs s' k = jobs s k" and "next_handle s \<le> next_handle s'"
    and "set (timers s) \<subseteq> set (timers s')"
proof -
  have new: "next_handle s \<notin> snd ` set (timers s)" using assms(1) by (auto simp: sched_inv_def)
  have lt: "\<forall>e \<in> set (timers s). snd e < Suc (next_handle s)" using assms(1) by (auto simp: sched_inv_def less_Suc_eq)
  show "sched_inv s'" using assms new lt
    by (auto simp: s_add_def sched_inv_def Let_def intro: emplace_sorted emplace_distinct)
  show "due s' = due s" using assms by (auto simp: s_add_def due_def Let_def emplace_due later_def)
qed (use assms in \<open>auto simp: s_add_def Let_def\<close>)

text \<open>All delays put a job behind the present run.\<close>

definition sched_sane :: "u64 \<Rightarrow> (nat \<Rightarrow> (nat \<times> int \<times> int) list) \<Rightarrow> scheduler \<Rightarrow> bool" where
  "sched_sane clock body s \<longleftrightarrow>
     (\<forall>f. \<forall>(g, delay, fixed) \<in> set (body f). later clock s delay \<and> (0 < fixed \<longrightarrow> later clock s fixed)) \<and>
     (\<forall>h. 0 < fixedDelay (jobs s h) \<longrightarrow> later clock s (fixedDelay (jobs s h)))"

text \<open>What a step leaves as it is: everything about the handles that were given out before, other than \<open>h\<close>.\<close>

definition sched_frame :: "nat set \<Rightarrow> scheduler \<Rightarrow> scheduler \<Rightarrow> bool" where
  "sched_frame H s s' \<longleftrightarrow> s_now s' = s_now s \<and> next_handle s \<le> next_handle s' \<and>
     (\<forall>k < next_handle s. k \<notin> H \<longrightarrow> jobs s' k = jobs s k)"

lemma sched_frame_trans: "sched_frame H s1 s2 \<Longrightarrow> sched_frame H s2 s3 \<Longrightarrow> sched_frame H s1 s3"
  by (auto simp: sched_frame_def)

lemma s_add_step:
  assumes "sched_inv s" and "sched_sane clock body s" and "later clock s delay" and "0 < fixed \<longrightarrow> later clock s fixed"
    and "s' = snd (s_add clock f delay fixed s)"
  shows "sched_inv s'" and "sched_sane clock body s'" and "due s' = due s" and "sched_frame {} s s'" and "ran s' = ran s"
    and "set (timers s) \<subseteq> set (timers s')"
proof -
  note a = s_add_inv [OF assms(1,5,3)]
  show "sched_inv s'" "due s' = due s" "ran s' = ran s" "set (timers s) \<subseteq> set (timers s')" using a by blast+
  show "sched_frame {} s s'" using a by (simp add: sched_frame_def)
  have "later clock s' = later clock s" using a(3) by (simp add: later_def fun_eq_iff)
  moreover have "fixedDelay (jobs s' k) = (if k = next_handle s then fixed else fixedDelay (jobs s k))" for k
    using assms(5) by (simp add: s_add_def Let_def)
  ultimately show "sched_sane clock body s'" using assms(2,4) by (auto simp: sched_sane_def)
qed

lemma exec_fold:
  assumes "sched_inv s" and "sched_sane clock body s"
    and "\<forall>(g, delay, fixed) \<in> set xs. later clock s delay \<and> (0 < fixed \<longrightarrow> later clock s fixed)"
    and "s' = fold (\<lambda>(g, delay, fixed) s. snd (s_add clock (Some g) delay fixed s)) xs s"
  shows "sched_inv s' \<and> sched_sane clock body s' \<and> due s' = due s \<and> sched_frame {} s s' \<and> ran s' = ran s \<and>
    set (timers s) \<subseteq> set (timers s')"
  using assms
proof (induction xs arbitrary: s)
  case Nil
  then show ?case by (simp add: sched_frame_def)
next
  case (Cons x xs)
  obtain g delay fixed where x: "x = (g, delay, fixed)" by (cases x)
  define s1 where "s1 = snd (s_add clock (Some g) delay fixed s)"
  note a = s_add_step [OF Cons.prems(1,2) _ _ s1_def]
  have h: "later clock s delay" "0 < fixed \<longrightarrow> later clock s fixed" using Cons.prems(3) x by auto
  have "s_now s1 = s_now s" using a(4) [OF h] by (simp add: sched_frame_def)
  then have "\<forall>(g, delay, fixed) \<in> set xs. later clock s1 delay \<and> (0 < fixed \<longrightarrow> later clock s1 fixed)"
    using Cons.prems(3) by (auto simp: later_def)
  from Cons.IH [OF a(1,2) [OF h] this] Cons.prems(4) show ?case
    using a [OF h] x s1_def by (auto intro: sched_frame_trans)
qed

lemma s_exec_step:
  assumes "sched_inv s" and "sched_sane clock body s" and "s' = s_exec clock body f s"
  shows "sched_inv s'" and "sched_sane clock body s'" and "due s' = due s" and "sched_frame {} s s'" and "ran s' = f # ran s"
    and "set (timers s) \<subseteq> set (timers s')"
proof -
  define t where "t = s\<lparr>ran := f # ran s\<rparr>"
  have t: "sched_inv t" "sched_sane clock body t" "due t = due s" "sched_frame {} t = sched_frame {} s"
    using assms(1,2) by (simp_all add: t_def sched_inv_def sched_sane_def later_def due_def sched_frame_def fun_eq_iff)
  have b: "\<forall>(g, delay, fixed) \<in> set (body f). later clock t delay \<and> (0 < fixed \<longrightarrow> later clock t fixed)"
    using t(2) by (auto simp: sched_sane_def)
  have "sched_inv s' \<and> sched_sane clock body s' \<and> due s' = due t \<and> sched_frame {} t s' \<and> ran s' = ran t \<and> set (timers t) \<subseteq> set (timers s')"
    by (rule exec_fold [OF t(1,2) b]) (simp add: assms(3) s_exec_def t_def)
  then show "sched_inv s'" "sched_sane clock body s'" "due s' = due s" "sched_frame {} s s'" "ran s' = f # ran s"
    "set (timers s) \<subseteq> set (timers s')" using t by (simp_all add: t_def)
qed

lemma job_cancel_step:
  assumes "sched_inv s" and "sched_sane clock body s"
  shows "sched_inv (job_cancel h s)" and "sched_sane clock body (job_cancel h s)" and "due (job_cancel h s) = due s"
    and "sched_frame {h} s (job_cancel h s)" and "ran (job_cancel h s) = ran s" and "timers (job_cancel h s) = timers s"
  using assms by (auto simp: job_cancel_def sched_inv_def sched_sane_def later_def due_def sched_frame_def)

lemma s_edit_step:
  assumes "sched_inv s" and "sched_sane clock body s" and "0 < d" and "later clock s d" and "s' = snd (s_edit clock h d d s)"
  shows "sched_inv s' \<and> sched_sane clock body s' \<and> due s' = due s \<and> sched_frame {h} s s' \<and> ran s' = ran s"
proof -
  define t where "t = job_cancel h s"
  note c = job_cancel_step [OF assms(1,2), of h, folded t_def]
  have l: "later clock t d" using assms(4) c(4) by (simp add: later_def sched_frame_def)
  have "s' = snd (s_add clock (j_do (jobs s h)) d d t)" using assms(5) by (simp add: s_edit_def t_def)
  note a = s_add_step [OF c(1,2) l _ this]
  have "sched_frame {h} t s'" using a(4) l by (auto simp: sched_frame_def)
  then show ?thesis using a c l by (auto intro: sched_frame_trans)
qed

lemma due_removed:
  assumes "sched_inv s" and "due s = timer # es" and "s' = s\<lparr>timers := remove1 timer (timers s)\<rparr>"
  shows "sched_inv s'" and "due s' = es"
proof -
  have d: "distinct (timers s)" using assms(1) by (auto simp: sched_inv_def distinct_map)
  have r: "remove1 timer (timers s) = filter (\<lambda>e. e \<noteq> timer) (timers s)"
    using d by (simp add: distinct_remove1_removeAll removeAll_filter_not_eq eq_commute [of timer])
  show "sched_inv s'" using assms(1,3) r by (auto simp: sched_inv_def distinct_map_filter intro: sorted_filter)
  have "due s' = filter (\<lambda>e. e \<noteq> timer) (due s)" using assms(3) r by (simp add: due_def conj_commute)
  moreover have "timer \<notin> set es" using d assms(2) by (metis distinct.simps(2) distinct_filter due_def)
  ultimately show "due s' = es" using assms(2) by (simp add: filter_id_conv) (metis filter_id_conv)
qed

lemma run_job_step:
  assumes inv: "sched_inv s" "sched_sane clock body s" and d: "due s = timer # es" and s': "s' = run_job clock body timer s"
  shows "sched_inv s' \<and> sched_sane clock body s' \<and> due s' = es \<and> sched_frame {snd timer} s s' \<and>
    ran s' = (case j_do (jobs s (snd timer)) of Some f \<Rightarrow> f # ran s | None \<Rightarrow> ran s)"
proof -
  define h s1 where "h = snd timer" and "s1 = (case j_do (jobs s h) of Some f \<Rightarrow> s_exec clock body f s | None \<Rightarrow> s)"
  define s2 where "s2 = (if fixedDelay (jobs s1 h) > 0 then snd (s_edit clock h (fixedDelay (jobs s1 h)) (fixedDelay (jobs s1 h)) s1) else s1)"
  have s1: "sched_inv s1 \<and> sched_sane clock body s1 \<and> due s1 = due s \<and> sched_frame {h} s s1 \<and>
      ran s1 = (case j_do (jobs s h) of Some f \<Rightarrow> f # ran s | None \<Rightarrow> ran s)"
    using inv s_exec_step [OF inv] by (auto simp: s1_def sched_frame_def split: option.splits)
  have s2: "sched_inv s2 \<and> sched_sane clock body s2 \<and> due s2 = due s1 \<and> sched_frame {h} s1 s2 \<and> ran s2 = ran s1"
  proof (cases "fixedDelay (jobs s1 h) > 0")
    case True
    then have "later clock s1 (fixedDelay (jobs s1 h))" using s1 by (auto simp: sched_sane_def)
    then show ?thesis using True s1 s_edit_step [of s1 clock body "fixedDelay (jobs s1 h)" s2 h] by (simp add: s2_def)
  qed (use s1 in \<open>simp add: s2_def sched_frame_def\<close>)
  have eq: "s' = s2\<lparr>timers := remove1 timer (timers s2)\<rparr>"
    unfolding s' run_job_def Let_def s2_def s1_def h_def by simp
  have "due s2 = timer # es" using s1 s2 d by simp
  note r = due_removed [OF conjunct1 [OF s2] this eq]
  have "sched_sane clock body s' = sched_sane clock body s2" by (simp add: eq sched_sane_def later_def)
  moreover have "sched_frame {h} s2 s'" "ran s' = ran s2" by (simp_all add: eq sched_frame_def)
  ultimately have "sched_sane clock body s'" "sched_frame {h} s2 s'" "ran s' = ran s2" using s2 by simp_all
  then show ?thesis using r s1 s2 by (auto simp: h_def intro: sched_frame_trans)
qed

definition due_functions :: "scheduler \<Rightarrow> nat list" where
  "due_functions s = List.map_filter (\<lambda>e. j_do (jobs s (snd e))) (due s)"

lemma s_run_due:
  assumes "sched_inv s" and "sched_sane clock body s"
  shows "\<exists>s'. s_run clock body s = Some s' \<and> sched_inv s' \<and> due s' = [] \<and> ran s' = rev (due_functions s) @ ran s"
  using assms
proof (induction "due s" arbitrary: s)
  case Nil
  then have "s_run clock body s = Some s"
    by (subst s_run.simps) (auto simp: due_def split: list.splits if_splits)
  then show ?case using Nil by (simp add: due_functions_def map_filter_simps)
next
  case (Cons timer es)
  have hd: "timers s = timer # tl (timers s)" "fst timer \<le> s_now s"
  proof -
    obtain t ts where t: "timers s = t # ts" using Cons.hyps(2) by (cases "timers s") (auto simp: due_def)
    have "timer \<in> set (timers s)" "fst timer \<le> s_now s" using filter_eq_ConsD [OF Cons.hyps(2) [symmetric, unfolded due_def]] by auto
    then have "fst t \<le> fst timer" using Cons.prems(1) t by (auto simp: sched_inv_def)
    then have "fst t \<le> s_now s" using \<open>fst timer \<le> s_now s\<close> by simp
    then show "timers s = timer # tl (timers s)" "fst timer \<le> s_now s" using Cons.hyps(2) t by (auto simp: due_def)
  qed
  define s1 where "s1 = run_job clock body timer s"
  note r = run_job_step [OF Cons.prems Cons.hyps(2) [symmetric] s1_def]
  have run: "s_run clock body s = s_run clock body s1"
  proof -
    obtain ts where "timers s = timer # ts" using hd(1) by blast
    then show ?thesis using hd(2) leD by (subst s_run.simps) (auto simp: s1_def)
  qed
  have "jobs s1 (snd e) = jobs s (snd e)" if "e \<in> set es" for e
  proof -
    have in_t: "e \<in> set (timers s)" "timer \<in> set (timers s)"
      using that Cons.hyps(2) by (metis due_def filter_is_subset list.set_intros subsetD)+
    have "snd e \<noteq> snd timer" using that Cons.hyps(2) Cons.prems(1) hd(1)
      by (metis distinct.simps(2) distinct_map_filter due_def image_eqI list.map(2) list.set_map sched_inv_def)
    moreover have "snd e < next_handle s" using in_t Cons.prems(1) by (simp add: sched_inv_def)
    ultimately show ?thesis using r by (simp add: sched_frame_def)
  qed
  then have "due_functions s = (case j_do (jobs s (snd timer)) of Some f \<Rightarrow> f # due_functions s1 | None \<Rightarrow> due_functions s1)"
    using r Cons.hyps(2) [symmetric] by (auto simp: due_functions_def map_filter_def split: option.splits intro!: map_cong filter_cong)
  then show ?case using Cons.hyps(1) [of s1] r run by (auto split: option.splits)
qed

section \<open>Correctness\<close>

text \<open>
  C26: \<^verbatim>\<open>Scheduler::run\<close> ends and runs exactly the jobs that are due and not canceled, in the order of their times, each once;
  afterwards no entry of the queue is due. It relies on the delays being positive: every job that is
  added or repeated during the run gets a time after the present one.
\<close>

theorem run_all_due:
  assumes "sched_inv s" and "sched_sane clock body s"
  shows "\<exists>s'. s_run clock body s = Some s' \<and> sched_inv s' \<and> due s' = [] \<and> ran s' = rev (due_functions s) @ ran s"
  using assms by (rule s_run_due)

definition one_timer :: scheduler where
  "one_timer = s_syncTime 20 (snd (s_add 10 (Some 3) 5 100 (mk_scheduler 10)))"

lemma one_timer_ok: "sched_inv one_timer" "sched_sane 20 (\<lambda>_. []) one_timer" "due_functions one_timer = [3]"
  by (simp_all add: one_timer_def s_syncTime_def s_add_def mk_scheduler_def sched_inv_def sched_sane_def later_def due_functions_def
      due_def map_filter_def Let_def)

theorem run_all_due_witness:
  "\<exists>s'. s_run 20 (\<lambda>_. []) one_timer = Some s' \<and> sched_inv s' \<and> due s' = [] \<and> ran s' = rev (due_functions one_timer) @ ran one_timer \<and>
     due_functions one_timer = [3]"
  using run_all_due [OF one_timer_ok(1,2)] one_timer_ok(3) by blast

text \<open>
  A periodic job can be canceled through the handle that \<^verbatim>\<open>add\<close> returned only before its first run: the run moves the
  function into a new job, and \<^verbatim>\<open>cancel\<close> on the old handle leaves that one in the queue.
\<close>

theorem periodic_handle_lost:
  assumes "j_do (jobs s h) = Some f" and "0 < fixedDelay (jobs s h)" and "body f = []" and "h < next_handle s"
    and "clock + word_of_int (fixedDelay (jobs s h)) \<noteq> -1"
  shows "\<exists>h'. h' \<noteq> h \<and> j_do (jobs (job_cancel h (run_job clock body (t, h) s)) h') = Some f \<and>
    (clock + word_of_int (fixedDelay (jobs s h)), h') \<in> set (timers (job_cancel h (run_job clock body (t, h) s)))"
proof (intro exI conjI)
  show "next_handle s \<noteq> h" using assms(4) by simp
qed (use assms in \<open>simp_all add: run_job_def s_exec_def s_edit_def s_add_def job_cancel_def Let_def\<close>)

theorem periodic_handle_lost_witness:
  "\<exists>h'. h' \<noteq> 0 \<and> j_do (jobs (job_cancel 0 (run_job 20 (\<lambda>_. []) (15, 0) one_timer)) h') = Some 3 \<and>
    (20 + word_of_int (fixedDelay (jobs one_timer 0)), h') \<in> set (timers (job_cancel 0 (run_job 20 (\<lambda>_. []) (15, 0) one_timer)))"
  by (rule periodic_handle_lost)
    (simp_all add: one_timer_def s_syncTime_def s_add_def mk_scheduler_def Let_def)

end
