(* ===== verification/Proxy_Packets.thy ===== *)
theory Proxy_Packets
  imports Values
begin

text \<open>
  Packets between the active proxy and its server, \<^verbatim>\<open>src/addons/activeproxy/packettype.h\<close> and the frame that
  \<^verbatim>\<open>sendRelayPacket\<close> of \<^verbatim>\<open>connection.cc\<close> writes: a 16-bit size, a flag byte drawn at random from the range of the packet
  type, the payload and random padding. Random choices are arguments. \<open>packets_of\<close> is the reference
  for what the receiver should read from a stream of frames.
\<close>

named_theorems packet_simps

section \<open>Packet types\<close>

datatype packet_type =
  PT_AUTH | PT_AUTH_ACK | PT_ATTACH | PT_ATTACH_ACK | PT_PING | PT_PING_ACK | PT_CONNECT | PT_CONNECT_ACK
| PT_DISCONNECT | PT_DISCONNECT_ACK | PT_DATA | PT_ERROR

definition ACK_MASK :: u8 where "ACK_MASK = 0x80"
definition TYPE_MASK :: u8 where "TYPE_MASK = 0x7F"

text \<open>\<^verbatim>\<open>random(min, max)\<close>: \<open>r\<close> stands for the number drawn, which \<^verbatim>\<open>randombytes_uniform\<close> keeps below its bound.\<close>

definition random_in :: "nat \<Rightarrow> u8 \<Rightarrow> u8 \<Rightarrow> u8" where
  "random_in r lo hi = word_of_nat (r mod unat (hi - lo + 1)) + lo"

fun pt_value :: "nat \<Rightarrow> packet_type \<Rightarrow> u8" where
  "pt_value r PT_AUTH = random_in r 0x00 0x07"
| "pt_value r PT_AUTH_ACK = random_in r 0x00 0x07 OR ACK_MASK"
| "pt_value r PT_ATTACH = random_in r 0x08 0x0F"
| "pt_value r PT_ATTACH_ACK = random_in r 0x08 0x0F OR ACK_MASK"
| "pt_value r PT_PING = random_in r 0x10 0x1F"
| "pt_value r PT_PING_ACK = random_in r 0x10 0x1F OR ACK_MASK"
| "pt_value r PT_CONNECT = random_in r 0x20 0x2F"
| "pt_value r PT_CONNECT_ACK = random_in r 0x20 0x2F OR ACK_MASK"
| "pt_value r PT_DISCONNECT = random_in r 0x30 0x3F"
| "pt_value r PT_DISCONNECT_ACK = random_in r 0x30 0x3F OR ACK_MASK"
| "pt_value r PT_DATA = random_in r 0x40 0x6F"
| "pt_value r PT_ERROR = random_in r 0x70 0x7F OR ACK_MASK"

text \<open>\<^verbatim>\<open>valueOf\<close>; \<open>None\<close> is the exception \<^verbatim>\<open>std::invalid_argument\<close>.\<close>

definition valueOf :: "u8 \<Rightarrow> packet_type option" where
  "valueOf value =
     (let ack = value AND ACK_MASK \<noteq> 0; type = value AND TYPE_MASK; group = unat (drop_bit 4 type) in
      if group = 0 then
        (if type \<le> 0x07 then Some (if ack then PT_AUTH_ACK else PT_AUTH) else Some (if ack then PT_ATTACH_ACK else PT_ATTACH))
      else if group = 1 then Some (if ack then PT_PING_ACK else PT_PING)
      else if group = 2 then Some (if ack then PT_CONNECT_ACK else PT_CONNECT)
      else if group = 3 then Some (if ack then PT_DISCONNECT_ACK else PT_DISCONNECT)
      else if group = 4 \<or> group = 5 \<or> group = 6 then (if ack then None else Some PT_DATA)
      else if group = 7 then (if ack then None else Some PT_ERROR)
      else None)"

section \<open>Frames\<close>

definition PACKET_HEADER_BYTES :: nat where [simp]: "PACKET_HEADER_BYTES = 3"
definition MAC_BYTES :: nat where [simp]: "MAC_BYTES = 16"

text \<open>\<^verbatim>\<open>htons\<close> into the first two bytes and \<^verbatim>\<open>ntohs\<close> of them.\<close>

definition size_field :: "nat \<Rightarrow> u8 list" where
  "size_field n = be_bytes 2 (word_of_nat n :: u16)"

definition packet_size :: "u8 list \<Rightarrow> nat" where
  "packet_size buf = be_val (take 2 buf)"

text \<open>The buffer \<^verbatim>\<open>sendRelayPacket\<close> fills; \<open>r\<close> chooses the flag.\<close>

definition relay_frame :: "nat \<Rightarrow> packet_type \<Rightarrow> u8 list \<Rightarrow> u8 list \<Rightarrow> u8 list" where
  "relay_frame r type payload padding =
     size_field (PACKET_HEADER_BYTES + length payload + length padding) @ [pt_value r type] @ payload @ padding"

section \<open>Reference: a stream as a sequence of packets\<close>

text \<open>
  The packets a byte stream consists of and the incomplete rest. Sizes below that of a header are not
  packets: the stream ends there and the rest is handed back.
\<close>

function packets_of :: "u8 list \<Rightarrow> u8 list list \<times> u8 list" where
  "packets_of buf =
     (if length buf < PACKET_HEADER_BYTES \<or> packet_size buf < PACKET_HEADER_BYTES \<or> length buf < packet_size buf then ([], buf)
      else case packets_of (drop (packet_size buf) buf) of (ps, rest) \<Rightarrow> (take (packet_size buf) buf # ps, rest))"
  by pat_completeness auto
termination by (relation "measure length") auto

declare packets_of.simps [simp del]

text \<open>Every complete packet of the stream has at least a header.\<close>

definition well_sized :: "u8 list \<Rightarrow> bool" where
  "well_sized buf = (let rest = snd (packets_of buf) in length rest < PACKET_HEADER_BYTES \<or> length rest < packet_size rest)"

section \<open>Lemmas\<close>

lemma be_val_be_bytes2: "be_val (be_bytes 2 (w :: u16)) = unat w"
  by (rule bit_eqI) (auto simp: bit_be_val_be_bytes bit_unsigned_iff dest: bit_imp_le_length)

lemma length_size_field [simp]: "length (size_field n) = 2"
  by (simp add: size_field_def)

lemma be_val_size_field: "be_val (size_field n) = n mod 65536"
  by (simp add: size_field_def be_val_be_bytes2 unat_of_nat take_bit_eq_mod)

lemma packet_size_field [packet_simps]: "n < 65536 \<Longrightarrow> packet_size (size_field n @ xs) = n"
  by (simp add: packet_size_def be_val_size_field)

lemma packet_size_append [packet_simps]: "2 \<le> length xs \<Longrightarrow> packet_size (xs @ ys) = packet_size xs"
  by (simp add: packet_size_def)

lemma packet_size_less: "packet_size buf < 65536"
  using be_val_less [of "take 2 buf"] power_increasing [of "length (take 2 buf)" 2 "256 :: nat"] unfolding packet_size_def by fastforce

lemma length_relay_frame [simp]: "length (relay_frame r t p q) = 3 + length p + length q"
  by (simp add: relay_frame_def)

lemma relay_frame_parts:
  "packet_size (relay_frame r t p q) = (3 + length p + length q) mod 65536"
  "relay_frame r t p q ! 2 = pt_value r t" "drop 3 (relay_frame r t p q) = p @ q"
proof -
  have l: "take 2 (relay_frame r t p q) = size_field (3 + length p + length q)" by (simp add: relay_frame_def)
  show "packet_size (relay_frame r t p q) = (3 + length p + length q) mod 65536"
    unfolding packet_size_def l by (rule be_val_size_field)
  show "relay_frame r t p q ! 2 = pt_value r t" "drop 3 (relay_frame r t p q) = p @ q"
    by (simp_all add: relay_frame_def nth_append)
qed

text \<open>All the flags of a type, by evaluation.\<close>

lemma flag_table:
  "list_all (\<lambda>r. \<forall>t \<in> {PT_AUTH, PT_AUTH_ACK, PT_ATTACH, PT_ATTACH_ACK, PT_PING, PT_PING_ACK, PT_CONNECT, PT_CONNECT_ACK,
     PT_DISCONNECT, PT_DISCONNECT_ACK, PT_DATA}. valueOf (pt_value r t) = Some t) [0..<48]"
  "list_all (\<lambda>r. valueOf (pt_value r PT_ERROR) = None) [0..<16]"
  by code_simp+

lemma random_in_mod: "0 < unat (hi - lo + 1) \<Longrightarrow> unat (hi - lo + 1) dvd 48 \<Longrightarrow> random_in (r mod 48) lo hi = random_in r lo hi"
  by (simp add: random_in_def mod_mod_cancel)

lemma valueOf_error: "valueOf (pt_value r PT_ERROR) = None"
proof -
  have "pt_value (r mod 16) PT_ERROR = pt_value r PT_ERROR" by (simp add: random_in_def)
  moreover have "r mod 16 \<in> set [0..<16]" by simp
  ultimately show ?thesis using flag_table(2) unfolding list_all_iff by metis
qed

lemma valueOf_pt_value: "t \<noteq> PT_ERROR \<Longrightarrow> valueOf (pt_value r t) = Some t"
proof -
  assume t: "t \<noteq> PT_ERROR"
  have "r mod 48 \<in> set [0..<48]" by simp
  then have "valueOf (pt_value (r mod 48) t) = Some t" using flag_table(1) t unfolding list_all_iff by (cases t) blast+
  moreover have "pt_value (r mod 48) t = pt_value r t" by (cases t) (simp_all add: random_in_def mod_mod_cancel)
  ultimately show ?thesis by simp
qed

lemma packets_of_short [packet_simps]: "length buf < 3 \<or> packet_size buf < 3 \<or> length buf < packet_size buf \<Longrightarrow> packets_of buf = ([], buf)"
  by (subst packets_of.simps) simp

lemma packets_of_step:
  assumes "3 \<le> packet_size buf" and "packet_size buf \<le> length buf"
  shows "packets_of buf = (take (packet_size buf) buf # fst (packets_of (drop (packet_size buf) buf)), snd (packets_of (drop (packet_size buf) buf)))"
  by (subst packets_of.simps) (use assms in \<open>simp add: case_prod_beta\<close>)

lemma packets_of_append:
  "packets_of (xs @ ys) = (fst (packets_of xs) @ fst (packets_of (snd (packets_of xs) @ ys)), snd (packets_of (snd (packets_of xs) @ ys)))"
proof (induction xs rule: packets_of.induct)
  case (1 buf)
  show ?case
  proof (cases "length buf < 3 \<or> packet_size buf < 3 \<or> length buf < packet_size buf")
    case True
    then show ?thesis by (simp add: packets_of_short)
  next
    case False
    let ?n = "packet_size buf"
    have n: "3 \<le> ?n" "?n \<le> length buf" "packet_size (buf @ ys) = ?n" using False by (auto simp: packet_size_append)
    have "packets_of (buf @ ys) = (take ?n buf # fst (packets_of (drop ?n buf @ ys)), snd (packets_of (drop ?n buf @ ys)))"
      using packets_of_step [of "buf @ ys"] n by simp
    moreover have "packets_of (drop ?n buf @ ys) = (fst (packets_of (drop ?n buf)) @ fst (packets_of (snd (packets_of (drop ?n buf)) @ ys)),
        snd (packets_of (snd (packets_of (drop ?n buf)) @ ys)))" using 1 False by simp
    ultimately show ?thesis using packets_of_step [OF n(1,2)] by simp
  qed
qed

lemma packets_of_frame:
  assumes "packet_size p = length p" and "3 \<le> length p"
  shows "packets_of (p @ ys) = (p # fst (packets_of ys), snd (packets_of ys))"
  using packets_of_step [of "p @ ys"] assms by (simp add: packet_size_append)

lemma packets_of_frames:
  assumes "\<forall>p \<in> set ps. packet_size p = length p \<and> 3 \<le> length p"
  shows "packets_of (concat ps) = (ps, [])"
  using assms by (induction ps) (simp_all add: packets_of_frame packets_of_short)

end
