(* ===== verification/Proxy_Connection.thy ===== *)
theory Proxy_Connection
  imports Proxy_Packets
begin

text \<open>
  One connection of the active proxy to its server, \<^verbatim>\<open>src/addons/activeproxy/connection.cc\<close> and \<^verbatim>\<open>connection.h\<close>, with
  the part of \<^verbatim>\<open>ActiveProxy\<close> the connection reads and the handlers \<^verbatim>\<open>ActiveProxy::connect\<close> installs. The event loop libuv
  is outside: each call to it is recorded in \<open>c_calls\<close>; whether the call succeeds is decided by
  \<open>pe_uv\<close> from the calls made so far and the state of the handle; a request that libuv has accepted is in \<open>c_pending\<close> until the loop completes
  it (\<open>complete\<close>). Random numbers and the cryptographic boxes are given by the environment too.
  All member functions are \<^verbatim>\<open>noexcept\<close>: an exception that leaves one is \<open>Terminated\<close>.
\<close>

section \<open>State\<close>

datatype connection_state = Initializing | Authenticating | Attaching | Idling | Relaying | Disconnecting | Closed

fun state_index :: "connection_state \<Rightarrow> nat" where
  "state_index Initializing = 0"
| "state_index Authenticating = 1"
| "state_index Attaching = 2"
| "state_index Idling = 3"
| "state_index Relaying = 4"
| "state_index Disconnecting = 5"
| "state_index Closed = 6"

fun accept :: "connection_state \<Rightarrow> packet_type \<Rightarrow> bool" where
  "accept Initializing type = False"
| "accept Authenticating type = (type = PT_AUTH_ACK)"
| "accept Attaching type = (type = PT_ATTACH_ACK)"
| "accept Idling type = (type = PT_PING_ACK \<or> type = PT_CONNECT)"
| "accept Relaying type = (type = PT_PING_ACK \<or> type = PT_DATA \<or> type = PT_DISCONNECT)"
| "accept Disconnecting type = (type = PT_DISCONNECT \<or> type = PT_DISCONNECT_ACK \<or> type = PT_DATA)"
| "accept Closed type = False"

text \<open>
  A TCP handle of libuv: not initialised (its \<^verbatim>\<open>data\<close> is null), in use, being closed with a callback that will clear
  \<^verbatim>\<open>data\<close>, or closed without one.
\<close>

datatype handle = Unset | Open | Closing | Discarded

definition h_data :: "handle \<Rightarrow> bool" where "h_data h \<longleftrightarrow> h \<noteq> Unset"
definition uv_is_closing :: "handle \<Rightarrow> bool" where "uv_is_closing h \<longleftrightarrow> h = Closing \<or> h = Discarded"

datatype uv_call =
  UvInitRelay | UvConnectRelay | UvReadRelay | UvStopRelay | UvWriteRelay "u8 list" | UvCloseRelay
| UvInitUpstream | UvConnectUpstream | UvReadUpstream | UvStopUpstream | UvWriteUpstream "u8 list" | UvShutdown | UvCloseUpstream

text \<open>What runs when a packet has been written: nothing, or the closures of \<^verbatim>\<open>sendConnectResponse\<close> and \<^verbatim>\<open>sendDataRequest\<close>.\<close>

datatype write_callback = NoCallback | ConnectWritten bool | DataWritten

datatype request =
  ConnectRelay | ConnectUpstream | WriteRelay packet_type write_callback | WriteUpstream | ShutdownUpstream | CloseRelay | CloseUpstream

record conn =
  pc_id :: nat
  refCount :: u32
  c_state :: connection_state
  relay :: handle
  upstream :: handle
  upstreamPaused :: bool
  upstreamClosed :: bool
  disconnectConfirms :: u32
  stickyBuffer :: "u8 list"
  keepAliveTimestamp :: u64
  c_nonce :: "u8 list"
  closeHandler :: bool \<comment> \<open>whether \<^verbatim>\<open>onClosed\<close> has a handler\<close>
  c_calls :: "uv_call list"
  c_pending :: "request list"

record proxy =
  ap_nodeId :: id
  ap_serverId :: id
  ap_sessionKey :: "u8 list \<times> u8 list" \<comment> \<open>public and private key\<close>
  ap_serverPk :: "u8 list option"
  ap_box :: "u8 list \<times> u8 list" \<comment> \<open>the keys the box was made of\<close>
  ap_domainName :: string
  ap_relayPort :: u16
  ap_peerKeypair :: "u8 list option"
  ap_peer :: "peer_info option"
  maxConnections :: u32
  inFlights :: u32
  connections :: "nat list"
  serverFails :: u32
  reconnectDelay :: u32
  lastConnectTimestamp :: u64
  idleTimestamp :: u64
  lastIdleCheckTimestamp :: u64
  lastHealthCheckTimestamp :: u64
  lastAnnouncePeerTimestamp :: u64
  ap_running :: bool

record proxy_env =
  pe_now :: u64
  pe_uv :: "uv_call list \<Rightarrow> handle \<Rightarrow> uv_call \<Rightarrow> bool" \<comment> \<open>does the next call succeed, with its handle in this state?\<close>
  pe_queue :: "uv_call list \<Rightarrow> nat" \<comment> \<open>bytes waiting in the relay's write queue\<close>
  pe_random :: "uv_call list \<Rightarrow> nat \<Rightarrow> nat \<Rightarrow> u8"
  pe_uniform :: "uv_call list \<Rightarrow> nat \<Rightarrow> nat"
  pe_keys :: "u8 list \<times> u8 list" \<comment> \<open>a new session key pair\<close>
  pe_crypto :: crypto
  pe_sign :: "u8 list \<Rightarrow> u8 list"
  pe_nodeEncrypt :: "u8 list \<Rightarrow> u8 list"
  pe_nodeDecrypt :: "u8 list \<Rightarrow> u8 list option"
  pe_boxEncrypt :: "u8 list \<times> u8 list \<Rightarrow> u8 list \<Rightarrow> u8 list \<Rightarrow> u8 list" \<comment> \<open>keys, plain, nonce\<close>
  pe_boxDecrypt :: "u8 list \<times> u8 list \<Rightarrow> u8 list \<Rightarrow> u8 list \<Rightarrow> u8 list option"

text \<open>A connection together with the proxy it belongs to.\<close>

record world =
  pc :: conn
  ap :: proxy

datatype fault = Terminated | Undefined | HandleReused

type_synonym outcome = "fault + world"

definition on_pc :: "(conn \<Rightarrow> conn) \<Rightarrow> world \<Rightarrow> world" where "on_pc f w = w\<lparr>pc := f (pc w)\<rparr>"
definition on_ap :: "(proxy \<Rightarrow> proxy) \<Rightarrow> world \<Rightarrow> world" where "on_ap f w = w\<lparr>ap := f (ap w)\<rparr>"
definition set_state :: "connection_state \<Rightarrow> world \<Rightarrow> world" where "set_state s = on_pc (c_state_update (\<lambda>_. s))"
definition issue :: "uv_call \<Rightarrow> world \<Rightarrow> world" where "issue a = on_pc (c_calls_update (\<lambda>cs. cs @ [a]))"
definition await :: "request \<Rightarrow> world \<Rightarrow> world" where "await r = on_pc (c_pending_update (\<lambda>rs. rs @ [r]))"
definition handle_of :: "uv_call \<Rightarrow> conn \<Rightarrow> handle" where
  "handle_of a c =
     (case a of UvInitRelay \<Rightarrow> relay c | UvConnectRelay \<Rightarrow> relay c | UvReadRelay \<Rightarrow> relay c | UvStopRelay \<Rightarrow> relay c
      | UvWriteRelay _ \<Rightarrow> relay c | UvCloseRelay \<Rightarrow> relay c | _ \<Rightarrow> upstream c)"
definition succeeds :: "proxy_env \<Rightarrow> uv_call \<Rightarrow> world \<Rightarrow> bool" where
  "succeeds E a w = pe_uv E (c_calls (pc w)) (handle_of a (pc w)) a"

text \<open>
  What the code relies on of libuv: an operation on a stream succeeds only while its handle is open. Nothing is
  assumed the other way round: any operation, a write to an open stream too, may be refused.
\<close>

definition uv_contract :: "proxy_env \<Rightarrow> bool" where
  "uv_contract E \<longleftrightarrow> (\<forall>cs h a. pe_uv E cs h a \<longrightarrow> a = UvInitRelay \<or> a = UvInitUpstream \<or> h = Open)"

text \<open>\<open>k\<close> bytes of the \<open>slot\<close>-th random buffer filled at this point, and a number below \<open>bound\<close>.\<close>

definition random_bytes :: "proxy_env \<Rightarrow> world \<Rightarrow> nat \<Rightarrow> nat \<Rightarrow> u8 list" where
  "random_bytes E w slot k = map (pe_random E (c_calls (pc w)) slot) [0..<k]"
definition uniform :: "proxy_env \<Rightarrow> world \<Rightarrow> nat \<Rightarrow> nat \<Rightarrow> nat" where
  "uniform E w slot bound = pe_uniform E (c_calls (pc w)) slot mod bound"

definition ref :: "world \<Rightarrow> world" where "ref = on_pc (refCount_update (\<lambda>n. n + 1))"
definition unref :: "world \<Rightarrow> world" where "unref = on_pc (refCount_update (\<lambda>n. n - 1))"

section \<open>The handlers of the proxy\<close>

text \<open>The closures of \<^verbatim>\<open>ActiveProxy::connect\<close>. \<^verbatim>\<open>PeerInfo::create\<close> throws for port 0.\<close>

definition ap_authorized :: "proxy_env \<Rightarrow> u8 list \<Rightarrow> u16 \<Rightarrow> bool \<Rightarrow> proxy \<Rightarrow> proxy option" where
  "ap_authorized E serverPk port domainEnabled p =
     (let p1 = p\<lparr>ap_serverPk := Some serverPk, ap_relayPort := port, ap_box := (serverPk, snd (ap_sessionKey p))\<rparr>;
          domain = (if domainEnabled then ap_domainName p else []) in
      case ap_peerKeypair p of
        None \<Rightarrow> Some p1
      | Some sk \<Rightarrow> (case peer_create (pe_crypto E) sk (ap_serverId p) (ap_nodeId p) port domain of
          Inl _ \<Rightarrow> None | Inr q \<Rightarrow> Some (p1\<lparr>ap_peer := Some q\<rparr>)))"

definition ap_opened :: "proxy \<Rightarrow> proxy" where
  "ap_opened p = p\<lparr>serverFails := 0, reconnectDelay := 0\<rparr>"

definition ap_openFailed :: "proxy \<Rightarrow> proxy" where
  "ap_openFailed p =
     (let fails = serverFails p + 1 in
      p\<lparr>serverFails := fails, reconnectDelay := (if reconnectDelay p < 64 then push_bit (unat fails) 1 * 1000 else reconnectDelay p)\<rparr>)"

definition ap_busy :: "proxy \<Rightarrow> proxy" where
  "ap_busy p = p\<lparr>inFlights := inFlights p + 1, idleTimestamp := -1\<rparr>"

definition ap_idle :: "proxy_env \<Rightarrow> proxy \<Rightarrow> proxy" where
  "ap_idle E p =
     (let n = inFlights p - 1 in
      p\<lparr>inFlights := n, idleTimestamp := (if n = 0 then pe_now E else idleTimestamp p)\<rparr>)"

definition onOpened :: "world \<Rightarrow> world" where "onOpened = on_ap ap_opened"
definition onOpenFailed :: "world \<Rightarrow> world" where "onOpenFailed = on_ap ap_openFailed"
definition onBusy :: "world \<Rightarrow> world" where "onBusy = on_ap ap_busy"
definition onIdle :: "proxy_env \<Rightarrow> world \<Rightarrow> world" where "onIdle E = on_ap (ap_idle E)"

text \<open>The handler of \<^verbatim>\<open>onClosed\<close> takes the connection out of the list and gives up the list's reference.\<close>

definition onClosed :: "world \<Rightarrow> world" where
  "onClosed w =
     (if closeHandler (pc w) then unref (on_ap (connections_update (remove1 (pc_id (pc w)))) w) else w)"

section \<open>Closing and sending\<close>

definition close_upstream_handle :: "world \<Rightarrow> world" where
  "close_upstream_handle w = await CloseUpstream (on_pc (upstream_update (\<lambda>_. Closing)) (issue UvCloseUpstream w))"

definition close_relay_handle :: "world \<Rightarrow> world" where
  "close_relay_handle w = await CloseRelay (on_pc (relay_update (\<lambda>_. Closing)) (issue UvCloseRelay w))"

definition close_relay :: "world \<Rightarrow> world" where
  "close_relay w =
     (if h_data (relay (pc w))
      then let w1 = issue UvStopRelay w in
           if uv_is_closing (relay (pc w1)) then w1 else onClosed (close_relay_handle w1)
      else onClosed w)"

definition close_handles :: "world \<Rightarrow> world" where
  "close_handles w =
     (if h_data (upstream (pc w))
      then let w1 = issue UvStopUpstream w in
           if uv_is_closing (upstream (pc w1)) then w1 else close_relay (close_upstream_handle w1)
      else close_relay w)"

definition pc_close :: "proxy_env \<Rightarrow> world \<Rightarrow> world" where
  "pc_close E w =
     (if c_state (pc w) = Closed then w
      else let old = c_state (pc w);
               w1 = set_state Closed w;
               w2 = (if state_index old \<le> state_index Attaching then onOpenFailed w1 else w1);
               w3 = (if old = Relaying then onIdle E w2 else w2) in
           close_handles w3)"

definition MAX_RELAY_WRITE_QUEUE_SIZE :: nat where [simp]: "MAX_RELAY_WRITE_QUEUE_SIZE = 2 * 1024 * 1024"

definition randomPadding :: "proxy_env \<Rightarrow> world \<Rightarrow> nat \<Rightarrow> nat" where
  "randomPadding E w slot = uniform E w slot 256"

definition sendRelayPacket :: "proxy_env \<Rightarrow> packet_type \<Rightarrow> u8 list \<Rightarrow> write_callback \<Rightarrow> world \<Rightarrow> world" where
  "sendRelayPacket E type payload handler w =
     (if c_state (pc w) = Closed then w
      else let padding = (if type \<noteq> PT_AUTH \<and> type \<noteq> PT_DATA \<and> type \<noteq> PT_ERROR then random_bytes E w 0 (randomPadding E w 0) else []);
               packet = relay_frame (uniform E w 1 256) type payload padding in
           if succeeds E (UvWriteRelay packet) w
           then await (WriteRelay type handler) (ref (issue (UvWriteRelay packet) w))
           else pc_close E (issue (UvWriteRelay packet) w))"

definition sendAuthenticateRequest :: "proxy_env \<Rightarrow> u8 list \<Rightarrow> world \<Rightarrow> world" where
  "sendAuthenticateRequest E sig w =
     (if c_state (pc w) = Closed then w
      else let n = random_bytes E w 2 NONCE_BYTES;
               w1 = on_pc (c_nonce_update (\<lambda>_. n)) (set_state Authenticating w);
               domain = string_bytes (ap_domainName (ap w));
               plain = fst (ap_sessionKey (ap w)) @ n @ sig @ [word_of_nat (length domain)] @ domain @ random_bytes E w 3 (randomPadding E w 2) in
           sendRelayPacket E PT_AUTH (bytes (ap_nodeId (ap w)) @ pe_nodeEncrypt E plain) NoCallback w1)"

definition sendAttachRequest :: "proxy_env \<Rightarrow> u8 list \<Rightarrow> world \<Rightarrow> world" where
  "sendAttachRequest E sig w =
     (if c_state (pc w) = Closed then w
      else let n = random_bytes E w 2 NONCE_BYTES;
               w1 = on_pc (c_nonce_update (\<lambda>_. n)) (set_state Attaching w);
               plain = fst (ap_sessionKey (ap w)) @ n @ sig in
           sendRelayPacket E PT_ATTACH (bytes (ap_nodeId (ap w)) @ pe_nodeEncrypt E plain) NoCallback w1)"

definition sendPingRequest :: "proxy_env \<Rightarrow> world \<Rightarrow> world" where
  "sendPingRequest E = sendRelayPacket E PT_PING [] NoCallback"

definition randomBoolean :: "u8 \<Rightarrow> bool \<Rightarrow> u8" where
  "randomBoolean i v = (if v then i OR 0x01 else i AND 0xFE)"

definition sendConnectResponse :: "proxy_env \<Rightarrow> bool \<Rightarrow> world \<Rightarrow> world" where
  "sendConnectResponse E success w =
     sendRelayPacket E PT_CONNECT_ACK [randomBoolean (word_of_nat (uniform E w 4 256)) success] (ConnectWritten success) w"

definition sendDisconnectRequest :: "proxy_env \<Rightarrow> world \<Rightarrow> world" where
  "sendDisconnectRequest E w = (if c_state (pc w) = Closed then w else sendRelayPacket E PT_DISCONNECT [] NoCallback w)"

definition sendDisconnectResponse :: "proxy_env \<Rightarrow> world \<Rightarrow> world" where
  "sendDisconnectResponse E w = (if c_state (pc w) = Closed then w else sendRelayPacket E PT_DISCONNECT_ACK [] NoCallback w)"

definition sendDataRequest :: "proxy_env \<Rightarrow> u8 list \<Rightarrow> world \<Rightarrow> world" where
  "sendDataRequest E data w =
     (let cipher = pe_boxEncrypt E (ap_box (ap w)) data (c_nonce (pc w));
          w1 = sendRelayPacket E PT_DATA cipher DataWritten w in
      if pe_queue E (c_calls (pc w1)) \<ge> MAX_RELAY_WRITE_QUEUE_SIZE
      then issue UvStopUpstream (on_pc (upstreamPaused_update (\<lambda>_. True)) w1) else w1)"

section \<open>The upstream side\<close>

definition closeUpstream2 :: "world \<Rightarrow> world" where
  "closeUpstream2 w =
     (if c_state (pc w) = Closed \<or> c_state (pc w) = Idling then w
      else let w1 = on_pc (upstreamClosed_update (\<lambda>_. True)) w in
           if \<not> h_data (upstream (pc w1)) \<or> uv_is_closing (upstream (pc w1)) then w1 else close_upstream_handle w1)"

definition closeUpstream :: "proxy_env \<Rightarrow> world \<Rightarrow> world" where
  "closeUpstream E w =
     (if c_state (pc w) = Closed \<or> c_state (pc w) = Idling \<or> upstreamClosed (pc w) then w
      else let w1 = set_state Disconnecting (on_pc (upstreamClosed_update (\<lambda>_. True)) w);
               w2 = issue UvStopUpstream (sendDisconnectRequest E w1) in
           if succeeds E UvShutdown w2 then await ShutdownUpstream (ref (issue UvShutdown w2))
           else closeUpstream2 (issue UvShutdown w2))"

definition startReadUpstream :: "proxy_env \<Rightarrow> world \<Rightarrow> world" where
  "startReadUpstream E w =
     (if succeeds E UvReadUpstream w then issue UvReadUpstream w else closeUpstream E (issue UvReadUpstream w))"

text \<open>
  \<^verbatim>\<open>uv_tcp_init\<close> overwrites its handle; what libuv does with a handle that is initialised again before its close callback
  has run is undefined, and the model ends there with \<open>HandleReused\<close> as it does at every other undefined behaviour.
\<close>

definition openUpstream :: "proxy_env \<Rightarrow> world \<Rightarrow> outcome" where
  "openUpstream E w =
     (if upstream (pc w) \<noteq> Unset then Inl HandleReused
      else if \<not> succeeds E UvInitUpstream w
      then Inr (onIdle E (set_state Idling (sendConnectResponse E False (issue UvInitUpstream w))))
      else let w1 = on_pc (\<lambda>c. c\<lparr>upstream := Open, upstreamClosed := False\<rparr>) (ref (issue UvInitUpstream w)) in
           if succeeds E UvConnectUpstream w1 then Inr (await ConnectUpstream (ref (issue UvConnectUpstream w1)))
           else Inr (sendConnectResponse E False (onIdle E (set_state Idling (closeUpstream2 (issue UvConnectUpstream w1))))))"

section \<open>Packets from the server\<close>

text \<open>
  A handler gets the buffer from the start of its packet and the packet's size, as the code passes a pointer and a
  size. Sizes are \<^verbatim>\<open>size_t\<close>: a difference wraps modulo \<open>2 ^ 64\<close>.
\<close>

definition size_minus :: "nat \<Rightarrow> nat \<Rightarrow> nat" where
  "size_minus len k = nat ((int len - int k) mod 2 ^ 64)"

definition onChallenge :: "proxy_env \<Rightarrow> u8 list \<Rightarrow> nat \<Rightarrow> world \<Rightarrow> world" where
  "onChallenge E data len w =
     (if len < 32 \<or> len > 256 then w
      else let sig = pe_sign E (take len data) in
           if ap_serverPk (ap w) \<noteq> None then sendAttachRequest E sig w else sendAuthenticateRequest E sig w)"

definition AUTH_ACK_SIZE :: nat where [simp]: "AUTH_ACK_SIZE = PACKET_HEADER_BYTES + MAC_BYTES + 32 + 2 + 2 + 1"
definition CONNECT_REQ_SIZE :: nat where [simp]: "CONNECT_REQ_SIZE = PACKET_HEADER_BYTES + MAC_BYTES + 1 + 16 + 2"

definition onAuthenticateResponse :: "proxy_env \<Rightarrow> u8 list \<Rightarrow> nat \<Rightarrow> world \<Rightarrow> outcome" where
  "onAuthenticateResponse E packet len w =
     (if len < AUTH_ACK_SIZE then Inr (pc_close E w)
      else case pe_nodeDecrypt E (take (AUTH_ACK_SIZE - PACKET_HEADER_BYTES) (drop PACKET_HEADER_BYTES packet)) of
        None \<Rightarrow> Inl Terminated
      | Some plain \<Rightarrow>
          (let serverPk = take 32 plain; port = word_of_nat (be_val (take 2 (drop 32 plain)));
               w1 = on_ap (maxConnections_update (\<lambda>_. word_of_nat (be_val (take 2 (drop 34 plain))))) w in
           case ap_authorized E serverPk port (plain ! 36 \<noteq> 0) (ap w1) of
             None \<Rightarrow> Inl Terminated
           | Some p \<Rightarrow> Inr (onOpened (set_state Idling (w1\<lparr>ap := p\<rparr>)))))"

definition onAttachResponse :: "world \<Rightarrow> world" where
  "onAttachResponse w = onOpened (set_state Idling w)"

definition allow :: "proxy \<Rightarrow> sockaddr \<Rightarrow> bool" where
  "allow p client = True"

definition onConnectRequest :: "proxy_env \<Rightarrow> u8 list \<Rightarrow> nat \<Rightarrow> world \<Rightarrow> outcome" where
  "onConnectRequest E packet len w =
     (if len < CONNECT_REQ_SIZE then Inr (pc_close E w)
      else let w1 = onBusy (set_state Relaying w) in
           case pe_boxDecrypt E (ap_box (ap w1)) (take (CONNECT_REQ_SIZE - PACKET_HEADER_BYTES) (drop PACKET_HEADER_BYTES packet)) (c_nonce (pc w1)) of
             None \<Rightarrow> Inl Terminated
           | Some plain \<Rightarrow>
               (case sa_of_blob (take (unat (hd plain)) (tl plain)) (word_of_nat (be_val (take 2 (drop 17 plain)))) of
                  None \<Rightarrow> Inl Terminated
                | Some client \<Rightarrow>
                    (if allow (ap w1) client then openUpstream E w1
                     else Inr (onIdle E (set_state Idling (sendConnectResponse E False w1))))))"

text \<open>The common end of \<^verbatim>\<open>onDisconnectRequest\<close> and \<^verbatim>\<open>onDisconnectResponse\<close>: the second confirmation makes the connection idle.\<close>

definition confirmDisconnect :: "proxy_env \<Rightarrow> world \<Rightarrow> world" where
  "confirmDisconnect E w =
     (let n = disconnectConfirms (pc w) + 1 in
      if n = 2 then onIdle E (set_state Idling (on_pc (disconnectConfirms_update (\<lambda>_. 0)) w))
      else on_pc (disconnectConfirms_update (\<lambda>_. n)) w)"

definition onDisconnectRequest :: "proxy_env \<Rightarrow> world \<Rightarrow> world" where
  "onDisconnectRequest E w = confirmDisconnect E (sendDisconnectResponse E (closeUpstream E w))"

definition onDisconnectResponse :: "proxy_env \<Rightarrow> world \<Rightarrow> world" where
  "onDisconnectResponse E w = confirmDisconnect E w"

text \<open>A size below header and tag makes \<^verbatim>\<open>new char[]\<close> throw for its wrapped length.\<close>

definition onDataRequest :: "proxy_env \<Rightarrow> u8 list \<Rightarrow> nat \<Rightarrow> world \<Rightarrow> outcome" where
  "onDataRequest E packet len w =
     (if len < PACKET_HEADER_BYTES + MAC_BYTES then Inl Terminated
      else case pe_boxDecrypt E (ap_box (ap w)) (take (len - PACKET_HEADER_BYTES) (drop PACKET_HEADER_BYTES packet)) (c_nonce (pc w)) of
        None \<Rightarrow> Inl Terminated
      | Some plain \<Rightarrow>
          Inr (if succeeds E (UvWriteUpstream plain) w then await WriteUpstream (ref (issue (UvWriteUpstream plain) w))
               else closeUpstream E (issue (UvWriteUpstream plain) w)))"

text \<open>
  In an error packet the length of the message wraps for a size below header and tag, which \<^verbatim>\<open>alloca\<close> cannot serve, and
  the error code is read from the first two bytes of the message even if there are fewer.
\<close>

definition processRelayPacket :: "proxy_env \<Rightarrow> u8 list \<Rightarrow> nat \<Rightarrow> world \<Rightarrow> outcome" where
  "processRelayPacket E packet len w =
     (if c_state (pc w) = Initializing then Inr (onChallenge E (drop 2 packet) (size_minus len 2) w)
      else if length packet < PACKET_HEADER_BYTES then Inl Undefined
      else case valueOf (packet ! 2) of
        None \<Rightarrow> Inl Terminated
      | Some type \<Rightarrow>
          if type = PT_ERROR then
            (if len < PACKET_HEADER_BYTES + MAC_BYTES then Inl Undefined
             else case pe_boxDecrypt E (ap_box (ap w)) (take (len - PACKET_HEADER_BYTES) (drop PACKET_HEADER_BYTES packet)) (c_nonce (pc w)) of
               None \<Rightarrow> Inl Terminated
             | Some plain \<Rightarrow> if length plain < 2 then Inl Undefined else Inr (pc_close E w))
          else if \<not> accept (c_state (pc w)) type then Inr (pc_close E w)
          else case type of
            PT_AUTH_ACK \<Rightarrow> onAuthenticateResponse E packet len w
          | PT_ATTACH_ACK \<Rightarrow> Inr (onAttachResponse w)
          | PT_PING_ACK \<Rightarrow> Inr w
          | PT_CONNECT \<Rightarrow> onConnectRequest E packet len w
          | PT_DATA \<Rightarrow> onDataRequest E packet len w
          | PT_DISCONNECT \<Rightarrow> Inr (onDisconnectRequest E w)
          | PT_DISCONNECT_ACK \<Rightarrow> Inr (onDisconnectResponse E w)
          | _ \<Rightarrow> Inr w)"

text \<open>The loop of \<^verbatim>\<open>onRelayRead\<close>; it may not end.\<close>

definition append_sticky :: "u8 list \<Rightarrow> world \<Rightarrow> world" where
  "append_sticky bs = on_pc (stickyBuffer_update (\<lambda>s. s @ bs))"

partial_function (option) relay_loop :: "proxy_env \<Rightarrow> u8 list \<Rightarrow> world \<Rightarrow> outcome option" where
  "relay_loop E ptr w =
     (if ptr = [] then Some (Inr w)
      else if length ptr < PACKET_HEADER_BYTES then Some (Inr (append_sticky ptr w))
      else if length ptr < packet_size ptr then Some (Inr (append_sticky ptr w))
      else case processRelayPacket E ptr (packet_size ptr) w of
        Inl f \<Rightarrow> Some (Inl f)
      | Inr w' \<Rightarrow> relay_loop E (drop (packet_size ptr) ptr) w')"

text \<open>
  \<^verbatim>\<open>remaining < rs\<close> compares a \<^verbatim>\<open>size_t\<close> with an \<^verbatim>\<open>int\<close>: a negative \<open>rs\<close> counts as a huge number.
\<close>

definition size_less :: "nat \<Rightarrow> int \<Rightarrow> bool" where
  "size_less remaining rs \<longleftrightarrow> int remaining < rs mod 2 ^ 64"

definition read_packet :: "proxy_env \<Rightarrow> u8 list \<Rightarrow> world \<Rightarrow> outcome option" where
  "read_packet E ptr w =
     (let rs = int (packet_size (stickyBuffer (pc w))) - int (length (stickyBuffer (pc w))) in
      if size_less (length ptr) rs then Some (Inr (append_sticky ptr w))
      else let w1 = append_sticky (take (nat rs) ptr) w in
           case processRelayPacket E (stickyBuffer (pc w1)) (length (stickyBuffer (pc w1))) w1 of
             Inl f \<Rightarrow> Some (Inl f)
           | Inr w2 \<Rightarrow> relay_loop E (drop (nat rs) ptr) (on_pc (stickyBuffer_update (\<lambda>_. [])) w2))"

definition onRelayRead :: "proxy_env \<Rightarrow> u8 list \<Rightarrow> world \<Rightarrow> outcome option" where
  "onRelayRead E data w0 =
     (let w = on_pc (keepAliveTimestamp_update (\<lambda>_. pe_now E)) w0; sticky = stickyBuffer (pc w) in
      if sticky = [] then relay_loop E data w
      else if length sticky < PACKET_HEADER_BYTES then
        (let rs = PACKET_HEADER_BYTES - length sticky in
         if length data < rs then Some (Inr (append_sticky data w))
         else read_packet E (drop rs data) (append_sticky (take rs data) w))
      else read_packet E data w)"

section \<open>Events\<close>

definition establish :: "proxy_env \<Rightarrow> world \<Rightarrow> world" where
  "establish E w = (if succeeds E UvReadRelay w then issue UvReadRelay w else pc_close E (issue UvReadRelay w))"

definition connectServer :: "proxy_env \<Rightarrow> world \<Rightarrow> world" where
  "connectServer E w =
     (if \<not> succeeds E UvInitRelay w then issue UvInitRelay w
      else let w1 = on_pc (relay_update (\<lambda>_. Open)) (ref (issue UvInitRelay w)) in
           if succeeds E UvConnectRelay w1 then await ConnectRelay (ref (issue UvConnectRelay w1))
           else on_pc (relay_update (\<lambda>_. Discarded)) (issue UvCloseRelay (unref (issue UvConnectRelay w1))))"

definition KEEP_ALIVE_INTERVAL :: u64 where [simp]: "KEEP_ALIVE_INTERVAL = 60000"
definition MAX_KEEP_ALIVE_RETRY :: u64 where [simp]: "MAX_KEEP_ALIVE_RETRY = 3"

definition periodicCheck :: "proxy_env \<Rightarrow> world \<Rightarrow> world" where
  "periodicCheck E w =
     (if c_state (pc w) = Relaying then w
      else let idle = pe_now E - keepAliveTimestamp (pc w) in
           if idle \<ge> MAX_KEEP_ALIVE_RETRY * KEEP_ALIVE_INTERVAL then pc_close E w
           else if c_state (pc w) = Idling \<and> idle \<ge> KEEP_ALIVE_INTERVAL - word_of_nat (uniform E w 5 10000) then sendPingRequest E w
           else w)"

text \<open>The callbacks of the requests; \<open>ok\<close> is \<^verbatim>\<open>status >= 0\<close>. Each request drops its reference at the end.\<close>

definition written :: "proxy_env \<Rightarrow> write_callback \<Rightarrow> world \<Rightarrow> world" where
  "written E h w =
     (case h of
        NoCallback \<Rightarrow> w
      | ConnectWritten success \<Rightarrow> (if success \<and> h_data (upstream (pc w)) then startReadUpstream E w else w)
      | DataWritten \<Rightarrow>
          (if upstreamPaused (pc w) \<and> pe_queue E (c_calls (pc w)) \<le> MAX_RELAY_WRITE_QUEUE_SIZE div 4
           then startReadUpstream E (on_pc (upstreamPaused_update (\<lambda>_. False)) w) else w))"

fun complete :: "proxy_env \<Rightarrow> request \<Rightarrow> bool \<Rightarrow> world \<Rightarrow> world" where
  "complete E ConnectRelay ok w = unref (if ok then establish E w else pc_close E w)"
| "complete E (WriteRelay type h) ok w = unref (if ok then written E h w else pc_close E w)"
| "complete E ConnectUpstream ok w =
     unref (sendConnectResponse E ok (if ok then w else onIdle E (set_state Idling (closeUpstream2 w))))"
| "complete E WriteUpstream ok w = unref (if ok then w else closeUpstream E w)"
| "complete E ShutdownUpstream ok w = unref (closeUpstream2 w)"
| "complete E CloseRelay ok w = unref (on_pc (relay_update (\<lambda>_. Unset)) w)"
| "complete E CloseUpstream ok w = unref (on_pc (upstream_update (\<lambda>_. Unset)) w)"

definition mk_conn :: "proxy_env \<Rightarrow> nat \<Rightarrow> conn" where
  "mk_conn E i = \<lparr>pc_id = i, refCount = 1, c_state = Initializing, relay = Unset, upstream = Unset, upstreamPaused = False,
     upstreamClosed = True, disconnectConfirms = 0, stickyBuffer = [], keepAliveTimestamp = pe_now E, c_nonce = [],
     closeHandler = True, c_calls = [], c_pending = []\<rparr>"

section \<open>Lemmas\<close>

lemma on_pc_simps [simp]: "pc (on_pc f w) = f (pc w)" "ap (on_pc f w) = ap w" "pc (on_ap g w) = pc w" "ap (on_ap g w) = g (ap w)"
  "on_pc f (on_ap g w) = on_ap g (on_pc f w)"
  by (simp_all add: on_pc_def on_ap_def)

subsection \<open>Reading is separate from handling\<close>

text \<open>No handler of a packet looks at the sticky buffer or at the keep-alive time, or changes them.\<close>

definition with_reader :: "u8 list \<times> u64 \<Rightarrow> world \<Rightarrow> world" where
  "with_reader r = on_pc (\<lambda>c. c\<lparr>stickyBuffer := fst r, keepAliveTimestamp := snd r\<rparr>)"

named_theorems reader_simps

lemma with_reader_fields [reader_simps]:
  "c_state (pc (with_reader r w)) = c_state (pc w)" "ap (with_reader r w) = ap w" "upstream (pc (with_reader r w)) = upstream (pc w)"
  "relay (pc (with_reader r w)) = relay (pc w)" "c_calls (pc (with_reader r w)) = c_calls (pc w)" "c_nonce (pc (with_reader r w)) = c_nonce (pc w)"
  "upstreamClosed (pc (with_reader r w)) = upstreamClosed (pc w)" "closeHandler (pc (with_reader r w)) = closeHandler (pc w)"
  "pc_id (pc (with_reader r w)) = pc_id (pc w)" "disconnectConfirms (pc (with_reader r w)) = disconnectConfirms (pc w)"
  "succeeds E a (with_reader r w) = succeeds E a w" "random_bytes E (with_reader r w) = random_bytes E w" "uniform E (with_reader r w) = uniform E w"
  "randomPadding E (with_reader r w) = randomPadding E w"
  by (simp_all add: with_reader_def succeeds_def handle_of_def fun_eq_iff random_bytes_def uniform_def randomPadding_def split: uv_call.splits)

lemma with_reader_basic [reader_simps]:
  "set_state q (with_reader r w) = with_reader r (set_state q w)" "issue a (with_reader r w) = with_reader r (issue a w)"
  "await q1 (with_reader r w) = with_reader r (await q1 w)" "ref (with_reader r w) = with_reader r (ref w)"
  "unref (with_reader r w) = with_reader r (unref w)" "on_ap g (with_reader r w) = with_reader r (on_ap g w)"
  "on_pc (upstream_update f1) (with_reader r w) = with_reader r (on_pc (upstream_update f1) w)"
  "on_pc (relay_update f1) (with_reader r w) = with_reader r (on_pc (relay_update f1) w)"
  "on_pc (c_nonce_update f2) (with_reader r w) = with_reader r (on_pc (c_nonce_update f2) w)"
  "on_pc (upstreamClosed_update f3) (with_reader r w) = with_reader r (on_pc (upstreamClosed_update f3) w)"
  "on_pc (disconnectConfirms_update f4) (with_reader r w) = with_reader r (on_pc (disconnectConfirms_update f4) w)"
  "on_pc (\<lambda>c. c\<lparr>upstream := h, upstreamClosed := b\<rparr>) (with_reader r w) = with_reader r (on_pc (\<lambda>c. c\<lparr>upstream := h, upstreamClosed := b\<rparr>) w)"
  "(with_reader r w)\<lparr>ap := p\<rparr> = with_reader r (w\<lparr>ap := p\<rparr>)"
  by (simp_all add: with_reader_def set_state_def issue_def await_def ref_def unref_def on_ap_def on_pc_def)

lemma with_reader_handlers [reader_simps]:
  "onOpened (with_reader r w) = with_reader r (onOpened w)" "onOpenFailed (with_reader r w) = with_reader r (onOpenFailed w)"
  "onBusy (with_reader r w) = with_reader r (onBusy w)" "onIdle E (with_reader r w) = with_reader r (onIdle E w)"
  "onClosed (with_reader r w) = with_reader r (onClosed w)"
  by (simp_all add: onOpened_def onOpenFailed_def onBusy_def onIdle_def onClosed_def reader_simps)

lemma with_reader_close [reader_simps]:
  "close_upstream_handle (with_reader r w) = with_reader r (close_upstream_handle w)"
  "close_relay_handle (with_reader r w) = with_reader r (close_relay_handle w)"
  by (simp_all add: close_upstream_handle_def close_relay_handle_def reader_simps)

lemma with_reader_close_handles [reader_simps]: "close_handles (with_reader r w) = with_reader r (close_handles w)"
proof -
  have "close_relay (with_reader r w) = with_reader r (close_relay w)" for w by (simp add: close_relay_def reader_simps Let_def)
  then show ?thesis by (simp add: close_handles_def reader_simps Let_def)
qed

lemma with_reader_pc_close [reader_simps]: "pc_close E (with_reader r w) = with_reader r (pc_close E w)"
  by (simp add: pc_close_def reader_simps Let_def)

lemma with_reader_send [reader_simps]:
  "sendRelayPacket E t p h (with_reader r w) = with_reader r (sendRelayPacket E t p h w)"
  by (simp add: sendRelayPacket_def reader_simps Let_def)

lemma with_reader_requests [reader_simps]:
  "sendAuthenticateRequest E sig (with_reader r w) = with_reader r (sendAuthenticateRequest E sig w)"
  "sendAttachRequest E sig (with_reader r w) = with_reader r (sendAttachRequest E sig w)"
  "sendConnectResponse E ok (with_reader r w) = with_reader r (sendConnectResponse E ok w)"
  "sendDisconnectRequest E (with_reader r w) = with_reader r (sendDisconnectRequest E w)"
  "sendDisconnectResponse E (with_reader r w) = with_reader r (sendDisconnectResponse E w)"
  by (simp_all add: sendAuthenticateRequest_def sendAttachRequest_def sendConnectResponse_def sendDisconnectRequest_def
      sendDisconnectResponse_def reader_simps Let_def)

lemma with_reader_upstream [reader_simps]:
  "closeUpstream2 (with_reader r w) = with_reader r (closeUpstream2 w)"
  "closeUpstream E (with_reader r w) = with_reader r (closeUpstream E w)"
  "confirmDisconnect E (with_reader r w) = with_reader r (confirmDisconnect E w)"
  by (simp_all add: closeUpstream2_def closeUpstream_def confirmDisconnect_def reader_simps Let_def)

lemma with_reader_outcomes [reader_simps]:
  "openUpstream E (with_reader r w) = map_sum id (with_reader r) (openUpstream E w)"
  "onAuthenticateResponse E p n (with_reader r w) = map_sum id (with_reader r) (onAuthenticateResponse E p n w)"
  "onDataRequest E p n (with_reader r w) = map_sum id (with_reader r) (onDataRequest E p n w)"
  by (simp_all add: openUpstream_def onAuthenticateResponse_def onDataRequest_def reader_simps Let_def split: option.splits)

lemma with_reader_connect [reader_simps]:
  "onConnectRequest E p n (with_reader r w) = map_sum id (with_reader r) (onConnectRequest E p n w)"
  by (simp add: onConnectRequest_def reader_simps Let_def split: option.splits)

lemma process_reader:
  "processRelayPacket E p n (with_reader r w) = map_sum id (with_reader r) (processRelayPacket E p n w)"
  by (simp add: processRelayPacket_def onChallenge_def onAttachResponse_def onDisconnectRequest_def onDisconnectResponse_def reader_simps Let_def
      split: option.splits packet_type.splits)

subsection \<open>Reading a stream\<close>

text \<open>Reference: the packets one after the other.\<close>

fun process_all :: "proxy_env \<Rightarrow> u8 list list \<Rightarrow> world \<Rightarrow> outcome" where
  "process_all E [] w = Inr w"
| "process_all E (p # ps) w = (case processRelayPacket E p (length p) w of Inl f \<Rightarrow> Inl f | Inr w' \<Rightarrow> process_all E ps w')"

lemma process_all_reader: "process_all E ps (with_reader r w) = map_sum id (with_reader r) (process_all E ps w)"
  by (induction ps arbitrary: w) (simp_all add: process_reader map_sum_def split: sum.splits)

lemma with_reader_idem [simp]: "with_reader r (with_reader r' w) = with_reader r w"
  by (simp add: with_reader_def on_pc_def)

lemma with_reader_self: "stickyBuffer (pc w) = fst r \<Longrightarrow> keepAliveTimestamp (pc w) = snd r \<Longrightarrow> with_reader r w = w"
  by (simp add: with_reader_def on_pc_def)

lemma process_all_append:
  "process_all E (ps @ qs) w = (case process_all E ps w of Inl f \<Rightarrow> Inl f | Inr w' \<Rightarrow> process_all E qs w')"
  by (induction ps arbitrary: w) (simp_all split: sum.splits)

text \<open>A handler reads its packet only.\<close>

lemma take_drop_packet: "k + i \<le> length p \<Longrightarrow> take k (drop i (p @ q)) = take k (drop i p)"
  by (cases "i \<le> length p") simp_all

lemma size_minus_le: "k \<le> n \<Longrightarrow> size_minus n k \<le> n - k"
  using zmod_le_nonneg_dividend [of "int n - int k" "2 ^ 64"] unfolding size_minus_def by linarith

lemma process_local:
  assumes "3 \<le> length p"
  shows "processRelayPacket E (p @ q) (length p) w = processRelayPacket E p (length p) w"
proof -
  have c: "onChallenge E (drop 2 (p @ q)) (size_minus (length p) 2) w = onChallenge E (drop 2 p) (size_minus (length p) 2) w"
    using size_minus_le [of 2 "length p"] assms take_drop_packet [of "size_minus (length p) 2" 2 p q] by (simp add: onChallenge_def)
  have a: "onAuthenticateResponse E (p @ q) (length p) w = onAuthenticateResponse E p (length p) w"
    using take_drop_packet [of 53 3 p q] by (simp add: onAuthenticateResponse_def)
  have k: "onConnectRequest E (p @ q) (length p) w = onConnectRequest E p (length p) w"
    using take_drop_packet [of 35 3 p q] by (simp add: onConnectRequest_def)
  have d: "onDataRequest E (p @ q) (length p) w = onDataRequest E p (length p) w"
    using take_drop_packet [of "length p - 3" 3 p q] by (simp add: onDataRequest_def)
  have e: "take (length p - 3) (drop 3 (p @ q)) = take (length p - 3) (drop 3 p)" "(p @ q) ! 2 = p ! 2"
    using take_drop_packet [of "length p - 3" 3 p q] assms by (simp_all add: nth_append)
  show ?thesis unfolding processRelayPacket_def c a k d using e assms by (simp split: option.splits)
qed

lemma well_sized_rest: "well_sized buf \<Longrightarrow> packets_of buf = ([], buf) \<Longrightarrow> length buf < 3 \<or> length buf < packet_size buf"
  by (simp add: well_sized_def Let_def)

lemma well_sized_step:
  assumes "3 \<le> packet_size buf" and "packet_size buf \<le> length buf"
  shows "well_sized (drop (packet_size buf) buf) = well_sized buf"
  using packets_of_step [OF assms] by (simp add: well_sized_def)

lemma well_sized_size:
  assumes "well_sized buf" and "3 \<le> length buf" and "packet_size buf \<le> length buf"
  shows "3 \<le> packet_size buf"
  using well_sized_rest [OF assms(1)] assms packets_of_short [of buf] by fastforce

lemma packets_of_rest: "packets_of (snd (packets_of buf)) = ([], snd (packets_of buf))"
proof (induction buf rule: packets_of.induct)
  case (1 buf)
  show ?case
  proof (cases "length buf < 3 \<or> packet_size buf < 3 \<or> length buf < packet_size buf")
    case False
    then show ?thesis using 1 packets_of_step [of buf] by simp
  qed (simp add: packets_of_short)
qed

lemma well_sized_prefix: "well_sized (xs @ ys) \<Longrightarrow> well_sized xs"
proof -
  define r where "r = snd (packets_of xs)"
  assume "well_sized (xs @ ys)"
  then have w: "well_sized (r @ ys)" using packets_of_append [of xs ys] by (simp add: well_sized_def r_def)
  show ?thesis
  proof (rule ccontr)
    assume "\<not> well_sized xs"
    then have "3 \<le> length r" "packet_size r \<le> length r" by (auto simp: well_sized_def Let_def r_def)
    moreover have "packets_of r = ([], r)" unfolding r_def by (rule packets_of_rest)
    ultimately have "packet_size r < 3" using packets_of_step [of r] by fastforce
    then have "packets_of (r @ ys) = ([], r @ ys)" "packet_size (r @ ys) < 3" "3 \<le> length (r @ ys)"
      using \<open>3 \<le> length r\<close> by (simp_all add: packets_of_short packet_size_append)
    then show False using w by (simp add: well_sized_def)
  qed
qed

lemma relay_loop_stream:
  assumes "well_sized buf" and "stickyBuffer (pc w) = []"
  shows "relay_loop E buf w = Some (map_sum id (with_reader (snd (packets_of buf), keepAliveTimestamp (pc w))) (process_all E (fst (packets_of buf)) w))"
  using assms
proof (induction buf arbitrary: w rule: length_induct)
  case (1 buf)
  let ?n = "packet_size buf"
  have self: "append_sticky s w = with_reader (s, keepAliveTimestamp (pc w)) w" for s
    using 1(3) by (simp add: append_sticky_def with_reader_def on_pc_def)
  show ?case
  proof (cases "length buf < 3 \<or> length buf < ?n")
    case True
    moreover have "append_sticky [] w = w" by (simp add: append_sticky_def on_pc_def)
    ultimately show ?thesis by (subst relay_loop.simps) (auto simp: packets_of_short self [symmetric])
  next
    case False
    then have n: "3 \<le> ?n" "?n \<le> length buf" using well_sized_size [OF 1(2)] by auto
    let ?p = "take ?n buf"
    have p: "processRelayPacket E buf ?n w = processRelayPacket E ?p (length ?p) w"
      using process_local [of ?p E "drop ?n buf" w] n by (simp add: min_absorb2)
    have loop: "relay_loop E buf w = (case processRelayPacket E ?p (length ?p) w of Inl f \<Rightarrow> Some (Inl f) | Inr w' \<Rightarrow> relay_loop E (drop ?n buf) w')"
      using False n by (subst relay_loop.simps) (auto simp: p)
    show ?thesis
    proof (cases "processRelayPacket E ?p (length ?p) w")
      case (Inl f)
      then show ?thesis using loop packets_of_step [OF n] by simp
    next
      case (Inr w')
      let ?r = "([], keepAliveTimestamp (pc w))"
      have "with_reader ?r w = w" using 1(3) by (simp add: with_reader_self)
      then have "w' = with_reader ?r w'" using process_reader [of E ?p "length ?p" ?r w] Inr by simp
      then have k: "stickyBuffer (pc w') = []" "keepAliveTimestamp (pc w') = keepAliveTimestamp (pc w)"
        by (metis with_reader_def on_pc_simps(1) conn.select_convs(9,10) conn.surjective conn.update_convs(9,10) fst_conv snd_conv)+
      have "relay_loop E (drop ?n buf) w' = Some (map_sum id (with_reader (snd (packets_of (drop ?n buf)), keepAliveTimestamp (pc w')))
          (process_all E (fst (packets_of (drop ?n buf))) w'))"
        using 1(1,2) n k(1) well_sized_step [OF n] by (simp add: id_def)
      then show ?thesis using loop Inr packets_of_step [OF n] k(2) by (simp add: id_def)
    qed
  qed
qed

lemma reader_fields [simp]: "stickyBuffer (pc (with_reader r w)) = fst r" "keepAliveTimestamp (pc (with_reader r w)) = snd r"
  by (simp_all add: with_reader_def)

lemma loop_from_reader:
  assumes "well_sized buf"
  shows "relay_loop E buf (with_reader ([], t) w) = Some (map_sum id (with_reader (snd (packets_of buf), t)) (process_all E (fst (packets_of buf)) w))"
proof -
  have "stickyBuffer (pc (with_reader ([], t) w)) = []" "keepAliveTimestamp (pc (with_reader ([], t) w)) = t" by (simp_all add: with_reader_def)
  then show ?thesis using relay_loop_stream [OF assms, of "with_reader ([], t) w" E]
    by (cases "process_all E (fst (packets_of buf)) w") (simp_all add: process_all_reader)
qed

lemma read_packet_stream:
  assumes s: "stickyBuffer (pc w) = s" "3 \<le> length s" "length s \<le> packet_size s" and ws: "well_sized (s @ data)"
  shows "read_packet E data w = Some (map_sum id (with_reader (snd (packets_of (s @ data)), keepAliveTimestamp (pc w)))
    (process_all E (fst (packets_of (s @ data))) w))"
proof -
  let ?n = "packet_size s" and ?t = "keepAliveTimestamp (pc w)"
  define k where "k = ?n - length s"
  have rs: "int ?n - int (length s) = int k" using s(3) by (simp add: k_def)
  have less: "size_less m (int k) \<longleftrightarrow> m < k" for m
    using packet_size_less [of s] by (simp add: size_less_def k_def)
  have app: "append_sticky bs w = with_reader (s @ bs, ?t) w" for bs using s(1) by (simp add: append_sticky_def with_reader_def on_pc_def)
  have size: "packet_size (s @ bs) = ?n" for bs using s(2) by (simp add: packet_size_append)
  show ?thesis
  proof (cases "length data < k")
    case True
    then have "packets_of (s @ data) = ([], s @ data)" using size s(3) by (intro packets_of_short) (auto simp: k_def)
    then show ?thesis using True by (simp add: read_packet_def s(1) rs less app)
  next
    case False
    define p where "p = s @ take k data"
    have p: "length p = ?n" "packet_size p = ?n" "s @ data = p @ drop k data" using False s(3) size by (simp_all add: p_def k_def)
    have n: "3 \<le> length p" using s(2,3) p by simp
    have parts: "packets_of (s @ data) = (p # fst (packets_of (drop k data)), snd (packets_of (drop k data)))"
      using packets_of_frame [of p "drop k data"] p n by simp
    have "well_sized (drop k data)" using ws parts by (simp add: well_sized_def)
    note loop = loop_from_reader [OF this]
    have "read_packet E data w = (case processRelayPacket E p (length p) (with_reader (p, ?t) w) of
        Inl f \<Rightarrow> Some (Inl f) | Inr w2 \<Rightarrow> relay_loop E (drop k data) (on_pc (stickyBuffer_update (\<lambda>_. [])) w2))"
      using False by (simp add: read_packet_def s(1) rs less app Let_def) (simp add: with_reader_def p_def split: sum.splits)
    moreover have "on_pc (stickyBuffer_update (\<lambda>_. [])) (with_reader (p, ?t) w') = with_reader ([], ?t) w'" for w'
      by (simp add: with_reader_def on_pc_def)
    ultimately show ?thesis using loop parts
      by (cases "processRelayPacket E p (length p) w") (simp_all add: process_reader)
  qed
qed

lemma onRelayRead_stream:
  assumes s: "stickyBuffer (pc w) = s" "packets_of s = ([], s)" and ws: "well_sized (s @ data)"
  shows "onRelayRead E data w = Some (map_sum id (with_reader (snd (packets_of (s @ data)), pe_now E)) (process_all E (fst (packets_of (s @ data))) w))"
proof -
  let ?w = "on_pc (keepAliveTimestamp_update (\<lambda>_. pe_now E)) w"
  have w: "?w = with_reader (s, pe_now E) w" using s(1) by (simp add: with_reader_def on_pc_def)
  have out: "map_sum id (with_reader (x, pe_now E)) (process_all E ps (with_reader (y, t) w)) = map_sum id (with_reader (x, pe_now E)) (process_all E ps w)"
    for x y ps t by (cases "process_all E ps w") (simp_all add: process_all_reader)
  have proper: "length s < 3 \<or> length s < packet_size s" using well_sized_rest [OF well_sized_prefix [OF ws] s(2)] .
  consider "s = []" | "s \<noteq> []" "length s < 3" "length data < 3 - length s" | "s \<noteq> []" "length s < 3" "3 - length s \<le> length data" | "3 \<le> length s" by linarith
  then show ?thesis
  proof cases
    case 1
    then show ?thesis using loop_from_reader [of data E "pe_now E" w] ws s(1) w [symmetric] by (simp add: onRelayRead_def Let_def)
  next
    case 2
    then have "packets_of (s @ data) = ([], s @ data)" by (intro packets_of_short) auto
    then show ?thesis using 2 s(1) by (simp add: onRelayRead_def append_sticky_def with_reader_def on_pc_def)
  next
    case 3
    define k where "k = 3 - length s"
    define h where "h = s @ take k data"
    have h: "length h = 3" "s @ data = h @ drop k data" using 3 by (simp_all add: h_def k_def)
    have "packet_size (s @ data) = packet_size h" using h by (simp add: packet_size_append)
    then have "3 \<le> packet_size h" using well_sized_size [OF ws] h by fastforce
    then have "read_packet E (drop k data) (with_reader (h, pe_now E) w) = Some (map_sum id (with_reader (snd (packets_of (h @ drop k data)), pe_now E))
      (process_all E (fst (packets_of (h @ drop k data))) (with_reader (h, pe_now E) w)))"
      using read_packet_stream [of "with_reader (h, pe_now E) w" h "drop k data" E] h ws by (simp add: with_reader_def)
    moreover have "append_sticky (take k data) ?w = with_reader (h, pe_now E) w"
      using s(1) by (simp add: append_sticky_def with_reader_def on_pc_def h_def)
    ultimately show ?thesis using 3 s(1) h(2) out by (simp add: onRelayRead_def k_def Let_def)
  next
    case 4
    then have "onRelayRead E data w = read_packet E data ?w" using s(1) by (auto simp: onRelayRead_def Let_def)
    moreover have "stickyBuffer (pc ?w) = s" using s(1) by simp
    ultimately show ?thesis using read_packet_stream [OF _ 4 _ ws, of ?w E] proper 4 w out by simp
  qed
qed

text \<open>The read callback for one buffer after the other.\<close>

fun relay_reads :: "proxy_env \<Rightarrow> u8 list list \<Rightarrow> world \<Rightarrow> outcome option" where
  "relay_reads E [] w = Some (Inr w)"
| "relay_reads E (c # cs) w = (case onRelayRead E c w of
     None \<Rightarrow> None | Some (Inl f) \<Rightarrow> Some (Inl f) | Some (Inr w') \<Rightarrow> relay_reads E cs w')"

lemma relay_reads_stream:
  assumes "stickyBuffer (pc w) = s" "packets_of s = ([], s)" and "well_sized (s @ concat cs)" and "cs \<noteq> []"
  shows "relay_reads E cs w = Some (map_sum id (with_reader (snd (packets_of (s @ concat cs)), pe_now E)) (process_all E (fst (packets_of (s @ concat cs))) w))"
  using assms
proof (induction cs arbitrary: w s)
  case (Cons c cs)
  define ps r where "ps = fst (packets_of (s @ c))" and "r = snd (packets_of (s @ c))"
  have ws: "well_sized (s @ c)" using Cons.prems(3) well_sized_prefix [of "s @ c" "concat cs"] by simp
  have app: "packets_of (s @ concat (c # cs)) = (ps @ fst (packets_of (r @ concat cs)), snd (packets_of (r @ concat cs)))"
    using packets_of_append [of "s @ c" "concat cs"] by (simp add: ps_def r_def)
  have one: "onRelayRead E c w = Some (map_sum id (with_reader (r, pe_now E)) (process_all E ps w))"
    using onRelayRead_stream [OF Cons.prems(1,2) ws] by (simp add: ps_def r_def)
  show ?case
  proof (cases "process_all E ps w")
    case (Inl f)
    then show ?thesis using one app by (simp add: process_all_append)
  next
    case (Inr w')
    show ?thesis
    proof (cases "cs = []")
      case True
      then show ?thesis using one Inr packets_of_rest [of "s @ c"] by (simp add: ps_def r_def)
    next
      case False
      have "well_sized (r @ concat cs)" using Cons.prems(3) app by (simp add: well_sized_def)
      moreover have "stickyBuffer (pc (with_reader (r, pe_now E) w')) = r" by (simp add: with_reader_def)
      moreover have "packets_of r = ([], r)" unfolding r_def by (rule packets_of_rest)
      ultimately show ?thesis using Cons.IH [of "with_reader (r, pe_now E) w'" r] one Inr app False
        by (cases "process_all E (fst (packets_of (r @ concat cs))) w'") (simp_all add: process_all_append process_all_reader)
    qed
  qed
qed simp

subsection \<open>What every packet keeps, a read keeps\<close>

lemma relay_loop_invariant:
  assumes "relay_loop E ptr w = Some (Inr w')" and "I w"
    and process: "\<And>packet n w w'. I w \<Longrightarrow> processRelayPacket E packet n w = Inr w' \<Longrightarrow> I w'"
    and sticky: "\<And>bs w. I w \<Longrightarrow> I (append_sticky bs w)"
  shows "I w'"
proof -
  have "E' = E \<longrightarrow> I w \<longrightarrow> (\<forall>w'. y = Inr w' \<longrightarrow> I w')" if "relay_loop E' ptr w = Some y" for E' y
  proof (rule relay_loop.raw_induct [OF _ that])
    fix loop E' ptr w y
    assume IH: "\<And>E' ptr w y. loop E' ptr w = Some y \<Longrightarrow> E' = E \<longrightarrow> I w \<longrightarrow> (\<forall>w'. y = Inr w' \<longrightarrow> I w')"
      and y: "(if ptr = [] then Some (Inr w) else if length ptr < PACKET_HEADER_BYTES then Some (Inr (append_sticky ptr w))
        else if length ptr < packet_size ptr then Some (Inr (append_sticky ptr w))
        else case processRelayPacket E' ptr (packet_size ptr) w of Inl f \<Rightarrow> Some (Inl f) | Inr w' \<Rightarrow> loop E' (drop (packet_size ptr) ptr) w') = Some y"
    show "E' = E \<longrightarrow> I w \<longrightarrow> (\<forall>w'. y = Inr w' \<longrightarrow> I w')"
    proof (intro impI allI)
      fix w' assume a: "E' = E" "I w" "y = Inr w'"
      consider "w' = w" | "w' = append_sticky ptr w"
        | w1 where "processRelayPacket E' ptr (packet_size ptr) w = Inr w1" "loop E' (drop (packet_size ptr) ptr) w1 = Some y"
        using y a(3) by (auto split: if_splits sum.splits)
      then show "I w'"
      proof cases
        case 3
        then show ?thesis using IH [OF 3(2)] process a by blast
      qed (use a(2) sticky in simp_all)
    qed
  qed
  then show ?thesis using assms(1,2) by blast
qed

lemma read_packet_cases:
  assumes "read_packet E ptr v = Some (Inr v')"
  obtains (more) "v' = append_sticky ptr v"
  | (packet) k packet n v2 where "processRelayPacket E packet n (append_sticky (take k ptr) v) = Inr v2"
      "relay_loop E (drop k ptr) (on_pc (stickyBuffer_update (\<lambda>_. [])) v2) = Some (Inr v')"
proof -
  define k where "k = nat (int (packet_size (stickyBuffer (pc v))) - int (length (stickyBuffer (pc v))))"
  show thesis using assms more packet [where k = k]
    unfolding read_packet_def Let_def k_def [symmetric] by (auto split: if_splits sum.splits)
qed

lemma onRelayRead_invariant:
  assumes read: "onRelayRead E data w = Some (Inr w')" and I: "I w"
    and process: "\<And>packet n w w'. I w \<Longrightarrow> processRelayPacket E packet n w = Inr w' \<Longrightarrow> I w'"
    and sticky: "\<And>bs w. I w \<Longrightarrow> I (append_sticky bs w)" "\<And>w. I w \<Longrightarrow> I (on_pc (stickyBuffer_update (\<lambda>_. [])) w)"
    and alive: "\<And>w. I w \<Longrightarrow> I (on_pc (keepAliveTimestamp_update (\<lambda>_. pe_now E)) w)"
  shows "I w'"
proof -
  note loop = relay_loop_invariant [where I = I and E = E, OF _ _ process sticky(1)]
  have packet: "I v'" if "read_packet E ptr v = Some (Inr v')" "I v" for ptr v v'
    using that(1)
  proof (cases rule: read_packet_cases)
    case more
    then show ?thesis using that(2) sticky(1) by simp
  next
    case (packet k packet n v2)
    have "I v2" by (rule process [OF _ packet(1)]) (rule sticky(1) [OF that(2)])
    then show ?thesis by (intro loop [OF packet(2)] sticky(2))
  qed
  let ?w = "on_pc (keepAliveTimestamp_update (\<lambda>_. pe_now E)) w"
  have "I ?w" using I by (rule alive)
  then show ?thesis using read packet loop [of data ?w w'] sticky(1) [of ?w]
    by (auto simp: onRelayRead_def Let_def split: if_splits)
qed

subsection \<open>Packets without a size\<close>

lemma process_initial_short: "c_state (pc w) = Initializing \<Longrightarrow> n < 2 \<Longrightarrow> processRelayPacket E p n w = Inr w"
  by (cases n) (auto simp: processRelayPacket_def onChallenge_def size_minus_def less_Suc_eq)

lemma relay_loop_zero:
  assumes "relay_loop E ptr w = Some y"
  shows "3 \<le> length ptr \<longrightarrow> packet_size ptr = 0 \<longrightarrow> (\<exists>f. y = Inl f) \<and> c_state (pc w) \<noteq> Initializing"
proof (rule relay_loop.raw_induct [OF _ assms])
  fix loop E ptr w y
  assume IH: "\<And>E ptr w y. loop E ptr w = Some y \<Longrightarrow> 3 \<le> length ptr \<longrightarrow> packet_size ptr = 0 \<longrightarrow> (\<exists>f. y = Inl f) \<and> c_state (pc w) \<noteq> Initializing"
    and y: "(if ptr = [] then Some (Inr w) else if length ptr < PACKET_HEADER_BYTES then Some (Inr (append_sticky ptr w))
      else if length ptr < packet_size ptr then Some (Inr (append_sticky ptr w))
      else case processRelayPacket E ptr (packet_size ptr) w of Inl f \<Rightarrow> Some (Inl f) | Inr w' \<Rightarrow> loop E (drop (packet_size ptr) ptr) w') = Some y"
  show "3 \<le> length ptr \<longrightarrow> packet_size ptr = 0 \<longrightarrow> (\<exists>f. y = Inl f) \<and> c_state (pc w) \<noteq> Initializing"
  proof (intro impI)
    assume z: "3 \<le> length ptr" "packet_size ptr = 0"
    have step: "(case processRelayPacket E ptr 0 w of Inl f \<Rightarrow> Some (Inl f) | Inr w' \<Rightarrow> loop E ptr w') = Some y"
      using y z by (auto split: if_splits sum.splits)
    show "(\<exists>f. y = Inl f) \<and> c_state (pc w) \<noteq> Initializing"
    proof (cases "processRelayPacket E ptr 0 w")
      case (Inl f)
      then show ?thesis using step process_initial_short [of w 0 E ptr] by (simp split: sum.splits) (metis Inl sum.distinct(1))
    next
      case (Inr w')
      then have "loop E ptr w' = Some y" using step by simp
      then have "(\<exists>f. y = Inl f) \<and> c_state (pc w') \<noteq> Initializing" using IH z by blast
      then show ?thesis using Inr process_initial_short [of w 0 E ptr] by auto
    qed
  qed
qed

subsection \<open>Relaying data\<close>

text \<open>The bytes written to the server.\<close>

fun relay_output :: "uv_call list \<Rightarrow> u8 list" where
  "relay_output [] = []"
| "relay_output (UvWriteRelay p # cs) = p @ relay_output cs"
| "relay_output (_ # cs) = relay_output cs"

lemma relay_output_append: "relay_output (xs @ ys) = relay_output xs @ relay_output ys"
  by (induction xs rule: relay_output.induct) simp_all

definition data_frame :: "proxy_env \<Rightarrow> u8 list \<times> u8 list \<Rightarrow> u8 list \<Rightarrow> u8 list \<Rightarrow> u8 list \<Rightarrow> bool" where
  "data_frame E keys n d f \<longleftrightarrow> (\<exists>r. f = relay_frame r PT_DATA (pe_boxEncrypt E keys d n) [])"

lemma basic_fields [simp]:
  "c_calls (pc (issue a w)) = c_calls (pc w) @ [a]" "c_state (pc (issue a w)) = c_state (pc w)" "ap (issue a w) = ap w" "c_nonce (pc (issue a w)) = c_nonce (pc w)"
  "relay (pc (issue a w)) = relay (pc w)" "upstream (pc (issue a w)) = upstream (pc w)" "c_pending (pc (issue a w)) = c_pending (pc w)"
  "refCount (pc (issue a w)) = refCount (pc w)" "closeHandler (pc (issue a w)) = closeHandler (pc w)" "pc_id (pc (issue a w)) = pc_id (pc w)"
  "c_calls (pc (await q w)) = c_calls (pc w)" "c_state (pc (await q w)) = c_state (pc w)" "ap (await q w) = ap w" "c_nonce (pc (await q w)) = c_nonce (pc w)"
  "relay (pc (await q w)) = relay (pc w)" "upstream (pc (await q w)) = upstream (pc w)" "c_pending (pc (await q w)) = c_pending (pc w) @ [q]"
  "refCount (pc (await q w)) = refCount (pc w)" "closeHandler (pc (await q w)) = closeHandler (pc w)" "pc_id (pc (await q w)) = pc_id (pc w)"
  "c_calls (pc (ref w)) = c_calls (pc w)" "c_state (pc (ref w)) = c_state (pc w)" "ap (ref w) = ap w" "c_nonce (pc (ref w)) = c_nonce (pc w)"
  "relay (pc (ref w)) = relay (pc w)" "upstream (pc (ref w)) = upstream (pc w)" "c_pending (pc (ref w)) = c_pending (pc w)"
  "refCount (pc (ref w)) = refCount (pc w) + 1" "closeHandler (pc (ref w)) = closeHandler (pc w)" "pc_id (pc (ref w)) = pc_id (pc w)"
  by (simp_all add: issue_def await_def ref_def)

lemma send_data_step:
  assumes "c_state (pc v) \<noteq> Closed" and "relay (pc v) = Open" and "\<forall>cs p. pe_uv E cs Open (UvWriteRelay p)"
  obtains f where "data_frame E (ap_box (ap v)) (c_nonce (pc v)) d f"
    and "relay_output (c_calls (pc (sendDataRequest E d v))) = relay_output (c_calls (pc v)) @ f"
    and "c_state (pc (sendDataRequest E d v)) = c_state (pc v)" "relay (pc (sendDataRequest E d v)) = Open"
      "ap (sendDataRequest E d v) = ap v" "c_nonce (pc (sendDataRequest E d v)) = c_nonce (pc v)"
  using assms by (intro that [of "relay_frame (uniform E v 1 256) PT_DATA (pe_boxEncrypt E (ap_box (ap v)) d (c_nonce (pc v))) []"])
    (auto simp: sendDataRequest_def sendRelayPacket_def succeeds_def handle_of_def data_frame_def Let_def relay_output_append)

lemma send_data_all:
  assumes "c_state (pc v) \<noteq> Closed" and "relay (pc v) = Open" and "\<forall>cs p. pe_uv E cs Open (UvWriteRelay p)"
  shows "\<exists>fs. list_all2 (data_frame E (ap_box (ap v)) (c_nonce (pc v))) ds fs \<and>
    relay_output (c_calls (pc (fold (sendDataRequest E) ds v))) = relay_output (c_calls (pc v)) @ concat fs"
  using assms
proof (induction ds arbitrary: v)
  case (Cons d ds)
  obtain f where f: "data_frame E (ap_box (ap v)) (c_nonce (pc v)) d f"
    "relay_output (c_calls (pc (sendDataRequest E d v))) = relay_output (c_calls (pc v)) @ f"
    "c_state (pc (sendDataRequest E d v)) = c_state (pc v)" "relay (pc (sendDataRequest E d v)) = Open"
    "ap (sendDataRequest E d v) = ap v" "c_nonce (pc (sendDataRequest E d v)) = c_nonce (pc v)"
    using send_data_step [OF Cons.prems] by blast
  moreover obtain fs where "list_all2 (data_frame E (ap_box (ap v)) (c_nonce (pc v))) ds fs"
    "relay_output (c_calls (pc (fold (sendDataRequest E) ds (sendDataRequest E d v)))) = relay_output (c_calls (pc (sendDataRequest E d v))) @ concat fs"
    using Cons.IH [of "sendDataRequest E d v"] f Cons.prems by auto
  ultimately show ?case by (intro exI [of _ "f # fs"]) simp
qed simp

lemma receive_data_step:
  assumes "c_state (pc w) = Relaying" and "upstream (pc w) = Open" and "\<forall>cs p. pe_uv E cs Open (UvWriteUpstream p)"
    and "data_frame E' keys (c_nonce (pc w)) d f" and "pe_boxDecrypt E (ap_box (ap w)) (pe_boxEncrypt E' keys d (c_nonce (pc w))) (c_nonce (pc w)) = Some d"
    and "length (pe_boxEncrypt E' keys d (c_nonce (pc w))) = length d + MAC_BYTES"
  shows "processRelayPacket E f (length f) w = Inr (await WriteUpstream (ref (issue (UvWriteUpstream d) w)))"
proof -
  obtain r where f: "f = relay_frame r PT_DATA (pe_boxEncrypt E' keys d (c_nonce (pc w))) []" using assms(4) by (auto simp: data_frame_def)
  have "valueOf (f ! 2) = Some PT_DATA" "drop 3 f = pe_boxEncrypt E' keys d (c_nonce (pc w))" "length f = length d + 19"
    using assms(6) by (simp_all add: f relay_frame_parts(2,3) valueOf_pt_value del: pt_value.simps)
  then show ?thesis using assms by (simp add: processRelayPacket_def onDataRequest_def succeeds_def handle_of_def)
qed

lemma receive_data_all:
  assumes "list_all2 (data_frame E' keys n) ds fs" and "c_nonce (pc w) = n"
    and "c_state (pc w) = Relaying" and "upstream (pc w) = Open" and "\<forall>cs p. pe_uv E cs Open (UvWriteUpstream p)"
    and "\<forall>d \<in> set ds. pe_boxDecrypt E (ap_box (ap w)) (pe_boxEncrypt E' keys d n) n = Some d \<and> length (pe_boxEncrypt E' keys d n) = length d + MAC_BYTES"
  shows "\<exists>w'. process_all E fs w = Inr w' \<and> c_calls (pc w') = c_calls (pc w) @ map UvWriteUpstream ds \<and> c_state (pc w') = Relaying"
  using assms
proof (induction ds fs arbitrary: w rule: list_all2_induct)
  case (Cons d ds f fs)
  let ?w = "await WriteUpstream (ref (issue (UvWriteUpstream d) w))"
  have "processRelayPacket E f (length f) w = Inr ?w"
    using Cons by (intro receive_data_step [where keys = keys and E' = E']) simp_all
  moreover have "\<exists>w'. process_all E fs ?w = Inr w' \<and> c_calls (pc w') = c_calls (pc ?w) @ map UvWriteUpstream ds \<and> c_state (pc w') = Relaying"
    using Cons by (intro Cons.IH) simp_all
  ultimately show ?case by auto
qed simp

text \<open>A concrete environment: libuv accepts what is allowed, the box appends a tag.\<close>

definition open_env :: proxy_env where
  "open_env = \<lparr>pe_now = 5000, pe_uv = (\<lambda>cs h a. a = UvInitRelay \<or> a = UvInitUpstream \<or> h = Open), pe_queue = (\<lambda>_. 0), pe_random = (\<lambda>_ _ _. 7),
     pe_uniform = (\<lambda>_ _. 1), pe_keys = ([1], [2]), pe_crypto = \<lparr>c_sha256 = (\<lambda>d. d), c_public = (\<lambda>_. zero_id), c_sign = (\<lambda>_ _. []), c_verify = (\<lambda>_ _ _. True),
       c_encrypt = (\<lambda>d _ _ _. d), c_decrypt = (\<lambda>d _ _ _. d), c_nfc = (\<lambda>s. s)\<rparr>, pe_sign = (\<lambda>_. replicate 64 1),
     pe_nodeEncrypt = (\<lambda>d. d @ replicate 16 0), pe_nodeDecrypt = (\<lambda>c. Some (take (length c - 16) c)),
     pe_boxEncrypt = (\<lambda>_ d _. d @ replicate 16 0), pe_boxDecrypt = (\<lambda>_ c _. Some (take (length c - 16) c))\<rparr>"

definition new_proxy :: proxy where
  "new_proxy = \<lparr>ap_nodeId = zero_id, ap_serverId = MAX_ID, ap_sessionKey = ([1], [2]), ap_serverPk = None, ap_box = ([], []), ap_domainName = [],
     ap_relayPort = 0, ap_peerKeypair = None, ap_peer = None, maxConnections = 16, inFlights = 0, connections = [0], serverFails = 0, reconnectDelay = 0,
     lastConnectTimestamp = 0, idleTimestamp = -1, lastIdleCheckTimestamp = 0, lastHealthCheckTimestamp = 0, lastAnnouncePeerTimestamp = 0, ap_running = True\<rparr>"

definition new_world :: world where "new_world = \<lparr>pc = mk_conn open_env 0, ap = new_proxy\<rparr>"

definition relaying :: world where
  "relaying = \<lparr>pc = (mk_conn open_env 0)\<lparr>c_state := Relaying, relay := Open, upstream := Open, upstreamClosed := False, refCount := 3\<rparr>, ap = new_proxy\<lparr>inFlights := 1\<rparr>\<rparr>"

section \<open>Correctness\<close>

text \<open>
  C34: the packets a connection handles do not depend on how the network cuts the stream. For every stream of packets that have at
  least a header, read in any pieces, the read callback ends, handles exactly the complete packets of the stream
  in their order, and keeps the incomplete rest.
\<close>

theorem relay_stream_framing:
  assumes "stickyBuffer (pc w) = []" and "well_sized (concat chunks)" and "chunks \<noteq> []"
  shows "relay_reads E chunks w = Some (map_sum id (\<lambda>w'. on_pc (\<lambda>c. c\<lparr>stickyBuffer := snd (packets_of (concat chunks)), keepAliveTimestamp := pe_now E\<rparr>) w')
    (process_all E (fst (packets_of (concat chunks))) w))"
proof -
  have "with_reader (snd (packets_of (concat chunks)), pe_now E) =
      (\<lambda>w'. on_pc (\<lambda>c. c\<lparr>stickyBuffer := snd (packets_of (concat chunks)), keepAliveTimestamp := pe_now E\<rparr>) w')"
    by (simp add: with_reader_def fun_eq_iff)
  then show ?thesis using relay_reads_stream [OF assms(1) _ _ assms(3), of E] assms(2) by (simp add: packets_of_short)
qed

theorem relay_stream_framing_witness:
  "relay_reads open_env [[0, 3], [0x90, 0], [3, 0x91, 0, 9]] relaying =
    Some (Inr (on_pc (\<lambda>c. c\<lparr>stickyBuffer := [0, 9], keepAliveTimestamp := 5000\<rparr>) relaying))"
proof -
  have p: "packets_of [0, 3, 0x90, 0, 3, 0x91, 0, 9] = ([[0, 3, 0x90], [0, 3, 0x91]], [0, 9])" by code_simp
  have v: "valueOf 0x90 = Some PT_PING_ACK" "valueOf 0x91 = Some PT_PING_ACK" by code_simp+
  have "process_all open_env [[0, 3, 0x90], [0, 3, 0x91]] relaying = Inr relaying"
    using v by (simp add: processRelayPacket_def relaying_def)
  moreover have "stickyBuffer (pc relaying) = []" "well_sized [0, 3, 0x90, 0, 3, 0x91, 0, 9]" "pe_now open_env = 5000"
    by (simp_all add: relaying_def mk_conn_def well_sized_def p open_env_def)
  ultimately show ?thesis using relay_stream_framing [of relaying "[[0, 3], [0x90, 0], [3, 0x91, 0, 9]]" open_env] p by simp
qed

text \<open>
  A packet whose size field is too small stops a connection for good. With size 0 the read callback never returns before the server
  is authenticated, and never returns normally afterwards. A header with a size below three that is completed
  by a second read is never handled: this and every later read only extends the sticky buffer.
\<close>

theorem undersized_packets:
  assumes "length data < 2 ^ 63"
  shows "(stickyBuffer (pc w) = [] \<and> 3 \<le> length data \<and> packet_size data = 0 \<longrightarrow>
      (c_state (pc w) = Initializing \<longrightarrow> onRelayRead E data w = None) \<and> (\<forall>w'. onRelayRead E data w \<noteq> Some (Inr w'))) \<and>
    (3 \<le> length (stickyBuffer (pc w)) \<and> packet_size (stickyBuffer (pc w)) < 3 \<and> length (stickyBuffer (pc w)) < 2 ^ 62 \<longrightarrow>
      packet_size (stickyBuffer (pc w)) < length (stickyBuffer (pc w)) \<and>
      onRelayRead E data w = Some (Inr (append_sticky data (on_pc (keepAliveTimestamp_update (\<lambda>_. pe_now E)) w))))"
proof (intro conjI impI allI)
  let ?w = "on_pc (keepAliveTimestamp_update (\<lambda>_. pe_now E)) w"
  assume z: "stickyBuffer (pc w) = [] \<and> 3 \<le> length data \<and> packet_size data = 0"
  have loop: "onRelayRead E data w = relay_loop E data ?w" using z by (simp add: onRelayRead_def)
  show "onRelayRead E data w = None" if "c_state (pc w) = Initializing"
    using relay_loop_zero [of E data ?w] z that unfolding loop by (cases "relay_loop E data ?w") auto
  show "onRelayRead E data w \<noteq> Some (Inr w')" for w' using relay_loop_zero [of E data ?w "Inr w'"] z unfolding loop by auto
next
  assume s: "3 \<le> length (stickyBuffer (pc w)) \<and> packet_size (stickyBuffer (pc w)) < 3 \<and> length (stickyBuffer (pc w)) < 2 ^ 62"
  then show "packet_size (stickyBuffer (pc w)) < length (stickyBuffer (pc w))" by linarith
  let ?rs = "int (packet_size (stickyBuffer (pc w))) - int (length (stickyBuffer (pc w)))"
  have "(?rs + 2 ^ 64) mod 2 ^ 64 = ?rs + 2 ^ 64" using s by (intro mod_pos_pos_trivial) auto
  then have "?rs mod 2 ^ 64 = ?rs + 2 ^ 64" by (simp only: mod_add_self2)
  then have "size_less (length data) ?rs" using s assms by (simp add: size_less_def)
  then show "onRelayRead E data w = Some (Inr (append_sticky data (on_pc (keepAliveTimestamp_update (\<lambda>_. pe_now E)) w)))"
    using s by (auto simp: onRelayRead_def read_packet_def Let_def)
qed

theorem undersized_packets_witness:
  "onRelayRead open_env [0, 0, 0x90] new_world = None \<and>
   onRelayRead open_env [9, 9] (on_pc (stickyBuffer_update (\<lambda>_. [0, 2, 0x90])) relaying) =
     Some (Inr (append_sticky [9, 9] (on_pc (keepAliveTimestamp_update (\<lambda>_. pe_now open_env)) (on_pc (stickyBuffer_update (\<lambda>_. [0, 2, 0x90])) relaying))))"
proof -
  have z: "packet_size [0, 0, 0x90] = 0" "packet_size [0, 2, 0x90] = 2" by code_simp+
  have "stickyBuffer (pc new_world) = []" "c_state (pc new_world) = Initializing" by (simp_all add: new_world_def mk_conn_def)
  then have "onRelayRead open_env [0, 0, 0x90] new_world = None" using undersized_packets [of "[0, 0, 0x90]" new_world open_env] z by simp
  moreover have "stickyBuffer (pc (on_pc (stickyBuffer_update (\<lambda>_. [0, 2, 0x90])) relaying)) = [0, 2, 0x90]" by simp
  ultimately show ?thesis
    using undersized_packets [of "[9, 9]" "on_pc (stickyBuffer_update (\<lambda>_. [0, 2, 0x90])) relaying" open_env] z by simp
qed

text \<open>
  C35: data passes through. What one end sends with \<^verbatim>\<open>sendDataRequest\<close>, buffer by buffer, as the other end reads it in
  any pieces, is decrypted and written upstream: the same buffers in the same order and nothing else. The
  boxes of the two ends must fit, and a buffer is at most what the read callback hands over (32767 bytes).
\<close>

theorem data_relayed:
  assumes "c_state (pc v) \<noteq> Closed" and "relay (pc v) = Open" and "\<forall>cs p. pe_uv E' cs Open (UvWriteRelay p)" and "relay_output (c_calls (pc v)) = []"
    and "c_state (pc w) = Relaying" and "upstream (pc w) = Open" and "\<forall>cs p. pe_uv E cs Open (UvWriteUpstream p)" and "stickyBuffer (pc w) = []"
    and nonce: "c_nonce (pc v) = c_nonce (pc w)"
    and box: "\<forall>d. pe_boxDecrypt E (ap_box (ap w)) (pe_boxEncrypt E' (ap_box (ap v)) d (c_nonce (pc w))) (c_nonce (pc w)) = Some d \<and>
      length (pe_boxEncrypt E' (ap_box (ap v)) d (c_nonce (pc w))) = length d + MAC_BYTES"
    and short: "\<forall>d \<in> set ds. length d \<le> 0x7FFF"
    and chunks: "concat chunks = relay_output (c_calls (pc (fold (sendDataRequest E') ds v)))" "chunks \<noteq> []"
  shows "\<exists>w'. relay_reads E chunks w = Some (Inr w') \<and> c_calls (pc w') = c_calls (pc w) @ map UvWriteUpstream ds \<and>
    c_state (pc w') = Relaying \<and> stickyBuffer (pc w') = []"
proof -
  obtain fs where fs: "list_all2 (data_frame E' (ap_box (ap v)) (c_nonce (pc w))) ds fs" "concat chunks = concat fs"
    using send_data_all [OF assms(1,2,3), of ds] assms(4) chunks(1) nonce by auto
  have "packet_size f = length f \<and> 3 \<le> length f" if f: "f \<in> set fs" for f
  proof -
    obtain i where i: "i < length fs" "f = fs ! i" using f by (auto simp: in_set_conv_nth)
    have "ds ! i \<in> set ds" "data_frame E' (ap_box (ap v)) (c_nonce (pc w)) (ds ! i) f"
      using list_all2_nthD2 [OF fs(1) i(1)] list_all2_lengthD [OF fs(1)] i by simp_all
    then obtain d r where "d \<in> set ds" "f = relay_frame r PT_DATA (pe_boxEncrypt E' (ap_box (ap v)) d (c_nonce (pc w))) []"
      unfolding data_frame_def by blast
    moreover then have "length d \<le> 0x7FFF" using short by blast
    ultimately show ?thesis using box by (simp add: relay_frame_parts(1))
  qed
  then have parts: "packets_of (concat chunks) = (fs, [])" using packets_of_frames fs(2) by simp
  then have "well_sized (concat chunks)" by (simp add: well_sized_def)
  note reads = relay_reads_stream [of w "[]" chunks E, OF assms(8)]
  obtain w' where "process_all E fs w = Inr w'" "c_calls (pc w') = c_calls (pc w) @ map UvWriteUpstream ds" "c_state (pc w') = Relaying"
    using receive_data_all [OF fs(1) refl assms(5-7)] box by blast
  then show ?thesis using reads parts \<open>well_sized (concat chunks)\<close> chunks(2) by (simp add: packets_of_short reader_simps)
qed

theorem data_relayed_witness:
  "\<exists>w'. relay_reads open_env [take 5 (relay_output (c_calls (pc (fold (sendDataRequest open_env) [[1, 2], [3]] relaying)))),
      drop 5 (relay_output (c_calls (pc (fold (sendDataRequest open_env) [[1, 2], [3]] relaying))))] relaying = Some (Inr w') \<and>
    c_calls (pc w') = [UvWriteUpstream [1, 2], UvWriteUpstream [3]] \<and> c_state (pc w') = Relaying \<and> stickyBuffer (pc w') = []"
  using data_relayed [of relaying open_env relaying open_env "[[1, 2], [3]]"
      "[take 5 (relay_output (c_calls (pc (fold (sendDataRequest open_env) [[1, 2], [3]] relaying)))),
        drop 5 (relay_output (c_calls (pc (fold (sendDataRequest open_env) [[1, 2], [3]] relaying))))]"]
  by (simp add: relaying_def mk_conn_def open_env_def del: fold.simps)

end
