(* ===== verification/Proxy_References.thy ===== *)
theory Proxy_References
  imports Proxy_Connection
begin

text \<open>
  Reference counting of a proxy connection. A connection is referred to by the list of the proxy, by the
  \<^verbatim>\<open>data\<close> fields of its two TCP handles and by every request that libuv has accepted; the code counts these
  references by hand and deletes the connection when the count is zero. \<open>pc_event\<close> lists the events a connection is
  driven by, \<open>pc_ok\<close> is the invariant that makes the count exact.
\<close>

section \<open>The references to a connection\<close>

definition owned :: "world \<Rightarrow> bool" where
  "owned w \<longleftrightarrow> pc_id (pc w) \<in> set (connections (ap w))"

definition holds :: "handle \<Rightarrow> bool" where
  "holds h \<longleftrightarrow> h = Open \<or> h = Closing"

fun on_relay :: "request \<Rightarrow> bool" where
  "on_relay ConnectRelay = True"
| "on_relay (WriteRelay _ _) = True"
| "on_relay _ = False"

fun on_upstream :: "request \<Rightarrow> bool" where
  "on_upstream ConnectUpstream = True"
| "on_upstream WriteUpstream = True"
| "on_upstream ShutdownUpstream = True"
| "on_upstream _ = False"

definition refs_of :: "bool \<Rightarrow> handle \<Rightarrow> handle \<Rightarrow> request list \<Rightarrow> nat" where
  "refs_of own rel up rs = of_bool own + of_bool (holds rel) + of_bool (holds up) + length (filter (\<lambda>r. on_relay r \<or> on_upstream r) rs)"

definition refs_ok :: "bool \<Rightarrow> handle \<Rightarrow> handle \<Rightarrow> request list \<Rightarrow> u32 \<Rightarrow> bool" where
  "refs_ok own rel up rs n \<longleftrightarrow>
     n = word_of_nat (refs_of own rel up rs) \<and>
     count_list rs CloseRelay = of_bool (rel = Closing) \<and> count_list rs CloseUpstream = of_bool (up = Closing) \<and>
     up \<noteq> Discarded \<and>
     ((\<exists>r \<in> set rs. on_relay r) \<longrightarrow> holds rel) \<and> ((\<exists>r \<in> set rs. on_upstream r) \<longrightarrow> holds up)"

text \<open>
  The handler of \<^verbatim>\<open>onClosed\<close> must not run a second time: after the first time the relay is being closed or gone, and with
  the relay gone there is no open upstream either.
\<close>

definition let_go :: "bool \<Rightarrow> bool \<Rightarrow> handle \<Rightarrow> handle \<Rightarrow> bool" where
  "let_go handler own rel up \<longleftrightarrow> (handler \<and> \<not> own \<longrightarrow> rel \<noteq> Open \<and> rel \<noteq> Discarded \<and> (up = Open \<longrightarrow> rel = Closing))"

definition pc_ok :: "world \<Rightarrow> bool" where
  "pc_ok w \<longleftrightarrow> let_go (closeHandler (pc w)) (owned w) (relay (pc w)) (upstream (pc w)) \<and> distinct (connections (ap w)) \<and>
     refs_ok (owned w) (relay (pc w)) (upstream (pc w)) (c_pending (pc w)) (refCount (pc w))"

definition touched :: "world \<Rightarrow> bool" where
  "touched w \<longleftrightarrow> relay (pc w) \<noteq> Unset \<or> upstream (pc w) \<noteq> Unset"

definition good :: "world \<Rightarrow> bool" where
  "good w \<longleftrightarrow> pc_ok w \<and> touched w"

section \<open>Events\<close>

definition dequeue :: "request \<Rightarrow> world \<Rightarrow> world" where
  "dequeue r = on_pc (c_pending_update (remove1 r))"

text \<open>The callback of \<^verbatim>\<open>uv_close\<close> comes after those of the requests on the handle.\<close>

definition in_order :: "request \<Rightarrow> request list \<Rightarrow> bool" where
  "in_order r rs \<longleftrightarrow> (r = CloseRelay \<longrightarrow> (\<forall>q \<in> set rs. \<not> on_relay q)) \<and> (r = CloseUpstream \<longrightarrow> (\<forall>q \<in> set rs. \<not> on_upstream q))"

inductive pc_event :: "world \<Rightarrow> world \<Rightarrow> bool" where
  relay_data: "uv_contract E \<Longrightarrow> relay (pc w) = Open \<Longrightarrow> onRelayRead E data w = Some (Inr w') \<Longrightarrow> pc_event w w'"
| relay_end: "uv_contract E \<Longrightarrow> relay (pc w) = Open \<Longrightarrow> pc_event w (pc_close E w)"
| upstream_data: "uv_contract E \<Longrightarrow> upstream (pc w) = Open \<Longrightarrow> pc_event w (sendDataRequest E data w)"
| upstream_end: "uv_contract E \<Longrightarrow> upstream (pc w) = Open \<Longrightarrow> pc_event w (closeUpstream E w)"
| request_done: "uv_contract E \<Longrightarrow> r \<in> set (c_pending (pc w)) \<Longrightarrow> in_order r (c_pending (pc w)) \<Longrightarrow> pc_event w (dequeue r (complete E r ok w))"
| health_check: "uv_contract E \<Longrightarrow> owned w \<Longrightarrow> pc_event w (periodicCheck E w)"

text \<open>
  What \<^verbatim>\<open>idleCheck\<close> and \<^verbatim>\<open>onStop\<close> do with a connection of the list: \<^verbatim>\<open>onClosed(nullptr)\<close>, \<^verbatim>\<open>close()\<close>, \<^verbatim>\<open>unref()\<close>.
\<close>

definition pc_drop :: "proxy_env \<Rightarrow> world \<Rightarrow> world" where
  "pc_drop E w = unref (pc_close E (on_pc (closeHandler_update (\<lambda>_. False)) w))"

text \<open>
  Besides its own events, a connection is dropped from the list by the proxy, and it sees the proxy change otherwise, but not
  its own place in the list.
\<close>

inductive pc_step :: "world \<Rightarrow> world \<Rightarrow> bool" where
  event: "pc_event w w' \<Longrightarrow> pc_step w w'"
| dropped: "uv_contract E \<Longrightarrow> owned w \<Longrightarrow> pc_step w (on_ap (connections_update (remove1 (pc_id (pc w)))) (pc_drop E w))"
| other: "distinct (connections p) \<Longrightarrow> (pc_id (pc w) \<in> set (connections p)) = owned w \<Longrightarrow> pc_step w (w\<lparr>ap := p\<rparr>)"

inductive_cases pc_event_cases: "pc_event w w'"

section \<open>Every operation keeps the count\<close>

named_theorems good_intros

lemma frame_ok [simp]:
  "pc_ok (set_state s w) = pc_ok w" "pc_ok (issue a w) = pc_ok w" "pc_ok (onOpened w) = pc_ok w" "pc_ok (onOpenFailed w) = pc_ok w"
  "pc_ok (onBusy w) = pc_ok w" "pc_ok (onIdle E w) = pc_ok w" "pc_ok (append_sticky bs w) = pc_ok w"
  "pc_ok (on_pc (c_nonce_update f) w) = pc_ok w" "pc_ok (on_pc (upstreamPaused_update g) w) = pc_ok w" "pc_ok (on_pc (upstreamClosed_update g) w) = pc_ok w"
  "pc_ok (on_pc (disconnectConfirms_update h) w) = pc_ok w" "pc_ok (on_pc (stickyBuffer_update f) w) = pc_ok w" "pc_ok (on_pc (keepAliveTimestamp_update k) w) = pc_ok w"
  "pc_ok (on_ap (maxConnections_update m) w) = pc_ok w"
  by (simp_all add: pc_ok_def owned_def set_state_def issue_def onOpened_def onOpenFailed_def onBusy_def onIdle_def append_sticky_def
      ap_opened_def ap_openFailed_def ap_busy_def ap_idle_def Let_def)

lemma frame_touched [simp]:
  "touched (set_state s w) = touched w" "touched (issue a w) = touched w" "touched (onOpened w) = touched w" "touched (onOpenFailed w) = touched w"
  "touched (onBusy w) = touched w" "touched (onIdle E w) = touched w" "touched (append_sticky bs w) = touched w"
  "touched (on_pc (c_nonce_update f) w) = touched w" "touched (on_pc (upstreamPaused_update g) w) = touched w" "touched (on_pc (upstreamClosed_update g) w) = touched w"
  "touched (on_pc (disconnectConfirms_update h) w) = touched w" "touched (on_pc (stickyBuffer_update f) w) = touched w"
  "touched (on_pc (keepAliveTimestamp_update k) w) = touched w" "touched (on_ap (maxConnections_update m) w) = touched w"
  "touched (ref w) = touched w" "touched (unref w) = touched w" "touched (await r w) = touched w" "touched (dequeue r w) = touched w"
  by (simp_all add: touched_def set_state_def issue_def onOpened_def onOpenFailed_def onBusy_def onIdle_def append_sticky_def ref_def unref_def await_def dequeue_def)

lemma frame_owned [simp]:
  "owned (set_state s w) = owned w" "owned (issue a w) = owned w" "owned (onOpenFailed w) = owned w" "owned (onIdle E w) = owned w"
  by (simp_all add: owned_def set_state_def issue_def onOpenFailed_def onIdle_def ap_openFailed_def ap_idle_def Let_def)

lemma frame_handler [simp]:
  "closeHandler (pc (set_state s w)) = closeHandler (pc w)" "closeHandler (pc (issue a w)) = closeHandler (pc w)"
  "closeHandler (pc (onOpenFailed w)) = closeHandler (pc w)" "closeHandler (pc (onIdle E w)) = closeHandler (pc w)"
  by (simp_all add: set_state_def issue_def onOpenFailed_def onIdle_def)

lemma refs_more:
  "refs_ok own rel up rs n \<Longrightarrow> on_relay r \<Longrightarrow> holds rel \<Longrightarrow> refs_ok own rel up (rs @ [r]) (n + 1)"
  "refs_ok own rel up rs n \<Longrightarrow> on_upstream r \<Longrightarrow> holds up \<Longrightarrow> refs_ok own rel up (rs @ [r]) (n + 1)"
  by (cases r; auto simp: refs_ok_def refs_of_def ac_simps)+

lemma refs_closing:
  "refs_ok own rel Open rs n \<Longrightarrow> refs_ok own rel Closing (rs @ [CloseUpstream]) n"
  "refs_ok own Open up rs n \<Longrightarrow> refs_ok own Closing up (rs @ [CloseRelay]) n"
  by (auto simp: refs_ok_def refs_of_def holds_def)

lemma let_go_closing:
  "let_go k own rel up \<Longrightarrow> let_go k own rel Closing" "let_go k own Open up \<Longrightarrow> let_go k own Closing up"
  by (auto simp: let_go_def)

lemma refs_disown: "refs_ok True rel up rs n \<Longrightarrow> refs_ok False rel up rs (n - 1)"
  by (auto simp: refs_ok_def refs_of_def)

lemma relay_request_ok: "pc_ok w \<Longrightarrow> relay (pc w) = Open \<Longrightarrow> on_relay r \<Longrightarrow> pc_ok (await r (ref w))"
  unfolding pc_ok_def by (auto simp: owned_def holds_def intro: refs_more)

lemma upstream_request_ok: "pc_ok w \<Longrightarrow> upstream (pc w) = Open \<Longrightarrow> on_upstream r \<Longrightarrow> pc_ok (await r (ref w))"
  unfolding pc_ok_def by (auto simp: owned_def holds_def intro: refs_more)

lemma contract_open:
  "uv_contract E \<Longrightarrow> succeeds E (UvWriteRelay p) w \<Longrightarrow> relay (pc w) = Open"
  "uv_contract E \<Longrightarrow> succeeds E UvConnectRelay w \<Longrightarrow> relay (pc w) = Open"
  "uv_contract E \<Longrightarrow> succeeds E (UvWriteUpstream p) w \<Longrightarrow> upstream (pc w) = Open"
  "uv_contract E \<Longrightarrow> succeeds E UvShutdown w \<Longrightarrow> upstream (pc w) = Open"
  "uv_contract E \<Longrightarrow> succeeds E UvConnectUpstream w \<Longrightarrow> upstream (pc w) = Open"
  by (fastforce simp: uv_contract_def succeeds_def handle_of_def)+

lemma close_upstream_handle_ok:
  assumes "pc_ok w" and "upstream (pc w) = Open"
  shows "pc_ok (close_upstream_handle w)" "relay (pc (close_upstream_handle w)) = relay (pc w)" "upstream (pc (close_upstream_handle w)) = Closing"
    "owned (close_upstream_handle w) = owned w" "closeHandler (pc (close_upstream_handle w)) = closeHandler (pc w)"
  using assms by (auto simp: pc_ok_def close_upstream_handle_def owned_def refs_closing let_go_closing)

lemma onClosed_ok:
  assumes "pc_ok w" and "closeHandler (pc w) \<longrightarrow> owned w \<and> relay (pc w) \<in> {Unset, Closing} \<and> upstream (pc w) \<noteq> Open"
  shows "pc_ok (onClosed w)" "touched (onClosed w) = touched w"
proof -
  have d: "distinct (connections (ap w))" "refs_ok (owned w) (relay (pc w)) (upstream (pc w)) (c_pending (pc w)) (refCount (pc w))"
    using assms(1) by (simp_all add: pc_ok_def)
  show "pc_ok (onClosed w)" "touched (onClosed w) = touched w"
  proof -
    show "pc_ok (onClosed w)"
    proof (cases "closeHandler (pc w)")
      case True
      then show ?thesis using assms(2) d refs_disown [of "relay (pc w)"] by (auto simp: onClosed_def pc_ok_def owned_def unref_def let_go_def)
    qed (use assms(1) in \<open>simp add: onClosed_def\<close>)
  qed (simp add: onClosed_def touched_def unref_def)
qed

text \<open>A connection that nothing refers to is not closed again.\<close>

lemma close_relay_ok:
  assumes "pc_ok w" and "owned w \<or> \<not> closeHandler (pc w) \<or> relay (pc w) \<noteq> Unset" and "upstream (pc w) \<noteq> Open"
  shows "pc_ok (close_relay w)" "touched (close_relay w) = touched w"
proof -
  let ?w = "issue UvStopRelay w"
  have "pc_ok (close_relay w) \<and> touched (close_relay w) = touched w"
  proof (cases "relay (pc w)")
    case Unset
    then show ?thesis using assms onClosed_ok [of w] by (auto simp: close_relay_def h_data_def)
  next
    case Open
    then have "closeHandler (pc w) \<longrightarrow> owned w" using assms(1) by (auto simp: pc_ok_def let_go_def)
    moreover have "pc_ok (close_relay_handle ?w)" using assms(1) Open by (auto simp: pc_ok_def close_relay_handle_def owned_def refs_closing let_go_closing)
    ultimately show ?thesis using Open assms(3) onClosed_ok [of "close_relay_handle ?w"]
      by (simp add: close_relay_def h_data_def uv_is_closing_def close_relay_handle_def owned_def touched_def)
  qed (use assms in \<open>simp_all add: close_relay_def h_data_def uv_is_closing_def\<close>)
  then show "pc_ok (close_relay w)" "touched (close_relay w) = touched w" by simp_all
qed

text \<open>Closing is safe while the list, a handle or no handler at all stands for the connection.\<close>

abbreviation closable :: "world \<Rightarrow> bool" where
  "closable w \<equiv> owned w \<or> \<not> closeHandler (pc w) \<or> touched w"

lemma close_handles_ok:
  assumes "pc_ok w" and "closable w"
  shows "pc_ok (close_handles w)" "touched (close_handles w) = touched w"
proof -
  let ?w = "issue UvStopUpstream w"
  have "pc_ok (close_handles w) \<and> touched (close_handles w) = touched w"
  proof (cases "upstream (pc w)")
    case Unset
    then show ?thesis using close_relay_ok [OF assms(1)] assms(2) by (simp add: close_handles_def h_data_def touched_def)
  next
    case Open
    have "owned w \<or> \<not> closeHandler (pc w) \<or> relay (pc w) \<noteq> Unset" using Open assms(1) by (auto simp: pc_ok_def let_go_def)
    then show ?thesis using Open close_upstream_handle_ok [of ?w] close_relay_ok [of "close_upstream_handle ?w"] assms(1)
      by (simp add: close_handles_def h_data_def uv_is_closing_def touched_def)
  qed (use assms in \<open>simp_all add: close_handles_def h_data_def uv_is_closing_def\<close>)
  then show "pc_ok (close_handles w)" "touched (close_handles w) = touched w" by simp_all
qed

lemma pc_close_ok:
  assumes "pc_ok w" and "closable w"
  shows "pc_ok (pc_close E w)" "touched (pc_close E w) = touched w"
  using assms by (simp_all add: pc_close_def Let_def close_handles_ok)

lemma send_ok:
  assumes "uv_contract E" and "pc_ok w" and "closable w"
  shows "pc_ok (sendRelayPacket E t p h w)" "touched (sendRelayPacket E t p h w) = touched w"
  using assms by (simp_all add: sendRelayPacket_def Let_def pc_close_ok relay_request_ok contract_open(1))

lemma good_frame [good_intros]:
  "good w \<Longrightarrow> good (set_state s w)" "good w \<Longrightarrow> good (issue a w)" "good w \<Longrightarrow> good (onOpened w)" "good w \<Longrightarrow> good (onBusy w)"
  "good w \<Longrightarrow> good (onIdle E w)" "good w \<Longrightarrow> good (append_sticky bs w)" "good w \<Longrightarrow> good (on_pc (c_nonce_update f) w)"
  "good w \<Longrightarrow> good (on_pc (upstreamPaused_update g) w)" "good w \<Longrightarrow> good (on_pc (upstreamClosed_update g) w)"
  "good w \<Longrightarrow> good (on_pc (disconnectConfirms_update h) w)" "good w \<Longrightarrow> good (on_pc (stickyBuffer_update f) w)"
  "good w \<Longrightarrow> good (on_pc (keepAliveTimestamp_update k) w)" "good w \<Longrightarrow> good (on_ap (maxConnections_update m) w)"
  by (simp_all add: good_def)

lemma good_close [good_intros]: "good w \<Longrightarrow> good (pc_close E w)"
  by (simp add: good_def pc_close_ok)

lemma good_send [good_intros]: "uv_contract E \<Longrightarrow> good w \<Longrightarrow> good (sendRelayPacket E t p h w)"
  by (simp add: good_def send_ok)

lemma good_requests [good_intros]:
  assumes "uv_contract E" and "good w"
  shows "good (sendAuthenticateRequest E sig w)" "good (sendAttachRequest E sig w)" "good (sendPingRequest E w)" "good (sendConnectResponse E ok w)"
    "good (sendDisconnectRequest E w)" "good (sendDisconnectResponse E w)" "good (sendDataRequest E data w)"
  using assms by (simp_all add: sendAuthenticateRequest_def sendAttachRequest_def sendPingRequest_def sendConnectResponse_def sendDisconnectRequest_def
      sendDisconnectResponse_def sendDataRequest_def Let_def good_intros)

lemma good_closeUpstream2 [good_intros]: "good w \<Longrightarrow> good (closeUpstream2 w)"
proof -
  assume g: "good w"
  let ?w = "on_pc (upstreamClosed_update (\<lambda>_. True)) w"
  have "good (close_upstream_handle ?w)" if "upstream (pc w) \<noteq> Unset" "\<not> uv_is_closing (upstream (pc w))"
  proof -
    have "upstream (pc w) = Open" using that by (cases "upstream (pc w)") (simp_all add: uv_is_closing_def)
    then show ?thesis using g close_upstream_handle_ok [of ?w] by (simp add: good_def touched_def)
  qed
  then show ?thesis using g by (simp add: closeUpstream2_def Let_def h_data_def good_intros)
qed

lemma good_closeUpstream [good_intros]: "uv_contract E \<Longrightarrow> good w \<Longrightarrow> good (closeUpstream E w)"
proof -
  assume E: "uv_contract E" and g: "good w"
  define w2 where "w2 = issue UvStopUpstream (sendDisconnectRequest E (set_state Disconnecting (on_pc (upstreamClosed_update (\<lambda>_. True)) w)))"
  have w2: "good w2" using E g by (simp add: w2_def good_intros)
  have "good (await ShutdownUpstream (ref (issue UvShutdown w2)))" if "succeeds E UvShutdown w2"
    using upstream_request_ok [of "issue UvShutdown w2" ShutdownUpstream] w2 contract_open(4) [OF E that] by (simp add: good_def)
  then show ?thesis using g w2 by (simp add: closeUpstream_def Let_def w2_def [symmetric] good_intros)
qed

lemma good_startRead [good_intros]: "uv_contract E \<Longrightarrow> good w \<Longrightarrow> good (startReadUpstream E w)"
  by (simp add: startReadUpstream_def good_intros)

lemma good_confirm [good_intros]: "good w \<Longrightarrow> good (confirmDisconnect E w)"
  by (simp add: confirmDisconnect_def Let_def good_intros)

section \<open>Handling the packets of a read\<close>

text \<open>While packets are handled, the callback of the relay's close does not run, so the relay is there.\<close>

definition reading :: "world \<Rightarrow> bool" where
  "reading w \<longleftrightarrow> good w \<and> holds (relay (pc w))"

lemma keeps_relay [simp]:
  "relay (pc (set_state s w)) = relay (pc w)" "relay (pc (onIdle E w)) = relay (pc w)" "relay (pc (onOpened w)) = relay (pc w)" "relay (pc (onBusy w)) = relay (pc w)"
  "relay (pc (closeUpstream2 w)) = relay (pc w)" "relay (pc (confirmDisconnect E w)) = relay (pc w)" "relay (pc (on_ap g w)) = relay (pc w)"
  "relay (pc (onOpenFailed w)) = relay (pc w)" "relay (pc (onClosed w)) = relay (pc w)"
  by (simp_all add: set_state_def onIdle_def onOpened_def onBusy_def closeUpstream2_def close_upstream_handle_def confirmDisconnect_def Let_def
      onOpenFailed_def onClosed_def unref_def)

lemma close_holds: "holds (relay (pc w)) \<Longrightarrow> holds (relay (pc (pc_close E w)))"
proof -
  have r: "holds (relay (pc (close_relay v)))" if "holds (relay (pc v))" for v
    using that by (simp add: close_relay_def Let_def close_relay_handle_def holds_def)
  have "holds (relay (pc (close_handles v)))" if "holds (relay (pc v))" for v
    using that r by (simp add: close_handles_def Let_def close_upstream_handle_def)
  then show "holds (relay (pc w)) \<Longrightarrow> holds (relay (pc (pc_close E w)))" by (simp add: pc_close_def Let_def)
qed

lemma send_holds: "holds (relay (pc w)) \<Longrightarrow> holds (relay (pc (sendRelayPacket E t p h w)))"
  by (simp add: sendRelayPacket_def Let_def close_holds)

lemma requests_hold:
  assumes "holds (relay (pc w))"
  shows "holds (relay (pc (sendAuthenticateRequest E sig w)))" "holds (relay (pc (sendAttachRequest E sig w)))" "holds (relay (pc (sendConnectResponse E ok w)))"
    "holds (relay (pc (sendDisconnectRequest E w)))" "holds (relay (pc (sendDisconnectResponse E w)))" "holds (relay (pc (closeUpstream E w)))"
  using assms by (simp_all add: sendAuthenticateRequest_def sendAttachRequest_def sendConnectResponse_def sendDisconnectRequest_def
      sendDisconnectResponse_def closeUpstream_def Let_def send_holds)

lemma closed_state: "c_state (pc (pc_close E w)) = Closed"
proof -
  have c: "c_state (pc (close_relay w)) = c_state (pc w)" for w
    by (simp add: close_relay_def Let_def onClosed_def unref_def close_relay_handle_def)
  then have "c_state (pc (close_handles w)) = c_state (pc w)" for w
    by (simp add: close_handles_def Let_def close_upstream_handle_def)
  then show ?thesis by (simp add: pc_close_def Let_def set_state_def onIdle_def onOpenFailed_def)
qed

lemma closed_again: "c_state (pc w) = Closed \<Longrightarrow> pc_close E w = w"
  by (simp add: pc_close_def)

lemma reading_close: "reading w \<Longrightarrow> reading (pc_close E w)"
  by (simp add: reading_def good_close close_holds)

lemma openUpstream_reading:
  assumes E: "uv_contract E" and g: "reading w" and r: "openUpstream E w = Inr w'"
  shows "reading w'"
proof -
  have g: "good w" and o: "holds (relay (pc w))" using g by (simp_all add: reading_def)
  have u: "upstream (pc w) = Unset" using r by (simp add: openUpstream_def split: if_splits)
  define w1 where "w1 = on_pc (\<lambda>c. c\<lparr>upstream := Open, upstreamClosed := False\<rparr>) (ref (issue UvInitUpstream w))"
  have "refs_ok (owned w) (relay (pc w)) Open (c_pending (pc w)) (refCount (pc w) + 1)"
    using g u by (auto simp: good_def pc_ok_def refs_ok_def refs_of_def holds_def)
  moreover have "let_go (closeHandler (pc w)) (owned w) (relay (pc w)) Open"
    using g o by (auto simp: good_def pc_ok_def let_go_def holds_def)
  ultimately have w1: "good w1" "holds (relay (pc w1))" "upstream (pc w1) = Open"
    using g o by (auto simp: good_def pc_ok_def w1_def touched_def owned_def)
  have "good (await ConnectUpstream (ref (issue UvConnectUpstream w1)))"
    using upstream_request_ok [of "issue UvConnectUpstream w1" ConnectUpstream] w1 by (simp add: good_def)
  moreover have "good (sendConnectResponse E False (onIdle E (set_state Idling (closeUpstream2 (issue UvConnectUpstream w1)))))"
    "good (onIdle E (set_state Idling (sendConnectResponse E False (issue UvInitUpstream w))))"
    using E w1(1) g by (simp_all add: good_intros)
  ultimately show ?thesis using r u E o w1(2)
    by (auto simp: reading_def openUpstream_def Let_def w1_def [symmetric] requests_hold split: if_splits)
qed

lemma authorized_connections: "ap_authorized E pk port en p = Some p' \<Longrightarrow> connections p' = connections p"
  by (auto simp: ap_authorized_def Let_def split: option.splits sum.splits)

lemma good_ap: "good w \<Longrightarrow> connections p = connections (ap w) \<Longrightarrow> good (w\<lparr>ap := p\<rparr>)"
  by (simp add: good_def pc_ok_def owned_def touched_def)

lemma process_reading:
  assumes E: "uv_contract E" and r: "reading w" and p: "processRelayPacket E packet len w = Inr w'"
  shows "reading w'"
proof -
  have g: "good w" and o: "holds (relay (pc w))" using r by (simp_all add: reading_def)
  have close: "reading (pc_close E w)" using r by (rule reading_close)
  have chal: "reading (onChallenge E d n w)" for d n
    using E g o by (auto simp: onChallenge_def Let_def reading_def good_intros requests_hold)
  have auth: "reading v" if "onAuthenticateResponse E packet len w = Inr v" for v
    using that g o close authorized_connections
    by (auto simp: onAuthenticateResponse_def Let_def reading_def good_intros good_ap split: if_splits option.splits)
  have conn: "reading v" if "onConnectRequest E packet len w = Inr v" for v
  proof -
    have "reading (onBusy (set_state Relaying w))" using g o by (simp add: reading_def good_intros)
    then show ?thesis using that close openUpstream_reading [OF E, of "onBusy (set_state Relaying w)" v]
      by (auto simp: onConnectRequest_def Let_def allow_def split: if_splits option.splits)
  qed
  have data: "reading v" if v: "onDataRequest E packet len w = Inr v" for v
  proof -
    have "good (await WriteUpstream (ref (issue (UvWriteUpstream d) w)))" if "succeeds E (UvWriteUpstream d) w" for d
      using upstream_request_ok [of "issue (UvWriteUpstream d) w" WriteUpstream] g contract_open(3) [OF E that] by (simp add: good_def)
    then show ?thesis using v g o E by (auto simp: onDataRequest_def Let_def reading_def good_intros requests_hold split: if_splits option.splits)
  qed
  have "reading (onDisconnectRequest E w)" "reading (onDisconnectResponse E w)" "reading (onAttachResponse w)"
    using E g o by (simp_all add: reading_def onDisconnectRequest_def onDisconnectResponse_def onAttachResponse_def good_intros requests_hold)
  then show ?thesis using p r close chal auth conn data
    by (auto simp: processRelayPacket_def split: option.splits if_splits packet_type.splits)
qed

lemma reading_fields: "reading w \<Longrightarrow> reading (append_sticky bs w)" "reading w \<Longrightarrow> reading (on_pc (stickyBuffer_update f) w)"
  "reading w \<Longrightarrow> reading (on_pc (keepAliveTimestamp_update k) w)"
  by (simp_all add: reading_def good_intros) (simp add: append_sticky_def)

lemma onRelayRead_reading: "uv_contract E \<Longrightarrow> reading w \<Longrightarrow> onRelayRead E data w = Some (Inr w') \<Longrightarrow> reading w'"
  by (rule onRelayRead_invariant [where I = reading]) (auto intro: process_reading reading_fields)

section \<open>All events\<close>

named_theorems pending_intros

lemma pending_basic [pending_intros]:
  assumes "r \<in> set (c_pending (pc w))"
  shows "r \<in> set (c_pending (pc (set_state s w)))" "r \<in> set (c_pending (pc (issue a w)))" "r \<in> set (c_pending (pc (await q w)))" "r \<in> set (c_pending (pc (ref w)))"
    "r \<in> set (c_pending (pc (onIdle E w)))" "r \<in> set (c_pending (pc (onOpenFailed w)))" "r \<in> set (c_pending (pc (onClosed w)))"
    "r \<in> set (c_pending (pc (on_pc (upstreamClosed_update g) w)))" "r \<in> set (c_pending (pc (on_pc (upstreamPaused_update g) w)))"
    "r \<in> set (c_pending (pc (close_upstream_handle w)))" "r \<in> set (c_pending (pc (close_relay_handle w)))"
  using assms by (simp_all add: set_state_def onIdle_def onOpenFailed_def onClosed_def unref_def close_upstream_handle_def close_relay_handle_def)

lemma pending_close [pending_intros]: "r \<in> set (c_pending (pc w)) \<Longrightarrow> r \<in> set (c_pending (pc (pc_close E w)))"
  by (simp add: pc_close_def close_handles_def close_relay_def Let_def pending_intros)

lemma pending_send [pending_intros]: "r \<in> set (c_pending (pc w)) \<Longrightarrow> r \<in> set (c_pending (pc (sendRelayPacket E t p h w)))"
  by (simp add: sendRelayPacket_def Let_def pending_intros)

lemma pending_upstream [pending_intros]:
  assumes "r \<in> set (c_pending (pc w))"
  shows "r \<in> set (c_pending (pc (closeUpstream2 w)))" "r \<in> set (c_pending (pc (closeUpstream E w)))" "r \<in> set (c_pending (pc (sendConnectResponse E ok w)))"
    "r \<in> set (c_pending (pc (establish E w)))"
  using assms by (simp_all add: closeUpstream2_def closeUpstream_def sendConnectResponse_def sendDisconnectRequest_def establish_def Let_def pending_intros)

lemma pending_written [pending_intros]: "r \<in> set (c_pending (pc w)) \<Longrightarrow> r \<in> set (c_pending (pc (written E h w)))"
  by (simp add: written_def startReadUpstream_def pending_intros split: write_callback.splits)

lemma count_filter_remove1:
  "r \<in> set rs \<Longrightarrow> P r \<Longrightarrow> length (filter P rs) = Suc (length (filter P (remove1 r rs)))"
  by (induction rs) auto

lemma count_list_remove1: "count_list (remove1 x xs) y = count_list xs y - of_bool (x = y)"
  by (induction xs) (auto simp: count_notin)

lemma filter_remove1_other: "\<not> P x \<Longrightarrow> filter P (remove1 x xs) = filter P xs"
  by (induction xs) auto

lemma refs_less:
  assumes "refs_ok own rel up rs n" and "r \<in> set rs" and "on_relay r \<or> on_upstream r"
  shows "refs_ok own rel up (remove1 r rs) (n - 1)"
proof -
  have "r \<noteq> CloseRelay" "r \<noteq> CloseUpstream" using assms(3) by auto
  moreover have "length (filter (\<lambda>r. on_relay r \<or> on_upstream r) rs) = Suc (length (filter (\<lambda>r. on_relay r \<or> on_upstream r) (remove1 r rs)))"
    using assms(2,3) by (intro count_filter_remove1) auto
  ultimately show ?thesis using assms(1) set_remove1_subset [of r rs] by (auto simp: refs_ok_def refs_of_def count_list_remove1)
qed

lemma refs_closed:
  "refs_ok own rel up rs n \<Longrightarrow> CloseRelay \<in> set rs \<Longrightarrow> \<forall>q \<in> set rs. \<not> on_relay q \<Longrightarrow> refs_ok own Unset up (remove1 CloseRelay rs) (n - 1)"
  "refs_ok own rel up rs n \<Longrightarrow> CloseUpstream \<in> set rs \<Longrightarrow> \<forall>q \<in> set rs. \<not> on_upstream q \<Longrightarrow> refs_ok own rel Unset (remove1 CloseUpstream rs) (n - 1)"
proof -
  assume a: "refs_ok own rel up rs n" "CloseRelay \<in> set rs" "\<forall>q \<in> set rs. \<not> on_relay q"
  then have "rel = Closing" using count_list_0_iff [of rs CloseRelay] by (auto simp: refs_ok_def split: if_splits)
  then show "refs_ok own Unset up (remove1 CloseRelay rs) (n - 1)"
    using a set_remove1_subset [of CloseRelay rs] by (auto simp: refs_ok_def refs_of_def holds_def count_list_remove1 filter_remove1_other)
next
  assume a: "refs_ok own rel up rs n" "CloseUpstream \<in> set rs" "\<forall>q \<in> set rs. \<not> on_upstream q"
  then have "up = Closing" using count_list_0_iff [of rs CloseUpstream] by (auto simp: refs_ok_def split: if_splits)
  then show "refs_ok own rel Unset (remove1 CloseUpstream rs) (n - 1)"
    using a set_remove1_subset [of CloseUpstream rs] by (auto simp: refs_ok_def refs_of_def holds_def count_list_remove1 filter_remove1_other)
qed

lemma finish_ok: "good v \<Longrightarrow> r \<in> set (c_pending (pc v)) \<Longrightarrow> on_relay r \<or> on_upstream r \<Longrightarrow> pc_ok (dequeue r (unref v))"
  using refs_less by (auto simp: good_def pc_ok_def dequeue_def unref_def owned_def)

lemma request_touched: "pc_ok w \<Longrightarrow> r \<in> set (c_pending (pc w)) \<Longrightarrow> on_relay r \<or> on_upstream r \<Longrightarrow> good w"
  by (auto simp: good_def touched_def pc_ok_def refs_ok_def holds_def)

lemma good_callbacks [good_intros]:
  assumes "uv_contract E" and "good w"
  shows "good (establish E w)" "good (written E h w)"
  using assms by (auto simp: establish_def written_def good_intros split: write_callback.splits)

text \<open>
  The one thing that can go wrong: the close callback of the relay runs after the list has let the connection
  go, while its upstream is open.
\<close>

definition stranded :: "world \<Rightarrow> bool" where
  "stranded w \<longleftrightarrow> closeHandler (pc w) \<and> \<not> owned w \<and> relay (pc w) = Unset \<and> upstream (pc w) = Open"

lemma complete_ok:
  assumes E: "uv_contract E" and ok: "pc_ok w" and r: "r \<in> set (c_pending (pc w))" and o: "in_order r (c_pending (pc w))"
    and s: "\<not> stranded (dequeue r (complete E r success w))"
  shows "pc_ok (dequeue r (complete E r success w))"
proof (cases "on_relay r \<or> on_upstream r")
  case True
  then have "good w" using request_touched ok r by blast
  then show ?thesis using r E True
    by (cases r) (simp_all add: finish_ok good_intros pending_intros)
next
  case False
  then show ?thesis using ok r o s refs_closed
    by (cases r) (auto simp: pc_ok_def dequeue_def unref_def owned_def in_order_def let_go_def stranded_def)
qed

lemma drop_ok:
  assumes "pc_ok w" and "owned w"
  shows "pc_ok (on_ap (connections_update (remove1 (pc_id (pc w)))) (pc_drop E w))"
proof -
  define v where "v = on_pc (closeHandler_update (\<lambda>_. False)) w"
  have v: "pc_ok v" "owned v" "\<not> closeHandler (pc v)" "pc_id (pc v) = pc_id (pc w)"
    using assms by (simp_all add: v_def pc_ok_def owned_def let_go_def)
  have h: "closeHandler (pc (pc_close E u)) = closeHandler (pc u)" "pc_id (pc (pc_close E u)) = pc_id (pc u)" for u
    by (simp_all add: pc_close_def close_handles_def close_relay_def Let_def onClosed_def unref_def close_relay_handle_def close_upstream_handle_def
        set_state_def onIdle_def onOpenFailed_def)
  have "owned (pc_close E v)" using v(2,3)
    by (simp add: owned_def pc_close_def close_handles_def close_relay_def Let_def onClosed_def unref_def close_relay_handle_def close_upstream_handle_def
        set_state_def onIdle_def onOpenFailed_def ap_openFailed_def ap_idle_def)
  moreover have "pc_ok (pc_close E v)" using pc_close_ok(1) v by simp
  ultimately show ?thesis using refs_disown h v(3,4)
    by (auto simp: pc_drop_def v_def [symmetric] pc_ok_def owned_def unref_def let_go_def)
qed

lemma pc_event_ok:
  assumes "pc_event w w'" and ok: "pc_ok w" and s: "\<not> stranded w'"
  shows "pc_ok w'"
  using assms(1)
proof cases
  case (relay_data E data)
  have "reading w" using ok relay_data(2) by (simp add: reading_def good_def touched_def holds_def)
  then show ?thesis using onRelayRead_reading [OF relay_data(1) _ relay_data(3)] by (simp add: reading_def good_def)
next
  case (request_done E r ok')
  then show ?thesis using complete_ok ok s by simp
next
  case (health_check E)
  then show ?thesis using ok by (simp add: periodicCheck_def Let_def pc_close_ok send_ok sendPingRequest_def)
next
  case (relay_end E)
  then show ?thesis using ok by (simp add: pc_close_ok touched_def)
next
  case (upstream_data E data)
  then have "good w" using ok by (simp add: good_def touched_def)
  then show ?thesis using good_requests(7) [OF upstream_data(2)] upstream_data(1) by (simp add: good_def)
next
  case (upstream_end E)
  then have "good w" using ok by (simp add: good_def touched_def)
  then show ?thesis using good_closeUpstream [OF upstream_end(2)] upstream_end(1) by (simp add: good_def)
qed

lemma pc_step_ok: "pc_step w w' \<Longrightarrow> \<not> stranded w' \<Longrightarrow> pc_ok w \<Longrightarrow> pc_ok w'"
  by (erule pc_step.cases) (simp add: pc_event_ok, simp add: drop_ok, simp add: pc_ok_def owned_def)

lemma reachable_ok: "(\<lambda>w w'. pc_step w w' \<and> \<not> stranded w')\<^sup>*\<^sup>* w w' \<Longrightarrow> pc_ok w \<Longrightarrow> pc_ok w'"
  by (induction rule: rtranclp_induct) (auto intro: pc_step_ok)

lemma connectServer_ok:
  assumes E: "uv_contract E" and i: "i \<in> set (connections p)" "distinct (connections p)"
  shows "pc_ok (connectServer E \<lparr>pc = mk_conn E i, ap = p\<rparr>)"
proof -
  let ?w = "\<lparr>pc = mk_conn E i, ap = p\<rparr>"
  have w: "pc_ok ?w" using i by (simp add: pc_ok_def mk_conn_def owned_def refs_ok_def refs_of_def holds_def let_go_def)
  define w1 where "w1 = on_pc (relay_update (\<lambda>_. Open)) (ref (issue UvInitRelay ?w))"
  have "pc_ok w1" "relay (pc w1) = Open"
    using i by (simp_all add: w1_def pc_ok_def mk_conn_def owned_def refs_ok_def refs_of_def holds_def let_go_def)
  then have "pc_ok (await ConnectRelay (ref (issue UvConnectRelay w1)))" by (simp add: relay_request_ok)
  moreover have "pc_ok (on_pc (relay_update (\<lambda>_. Discarded)) (issue UvCloseRelay (unref (issue UvConnectRelay w1))))"
    using i by (simp add: w1_def pc_ok_def mk_conn_def owned_def refs_ok_def refs_of_def holds_def let_go_def unref_def)
  ultimately show ?thesis using w unfolding connectServer_def Let_def w1_def [symmetric] by simp
qed

section \<open>Correctness\<close>

text \<open>
  C36: a connection is deleted exactly when nothing can call it any more. In every state the events of libuv and of the proxy lead to, the closing
  of idle connections and the stop of the proxy included, and whatever libuv refuses,
  the reference count is the number of references: from the list of the proxy, from each of the two TCP handles
  until its close callback has run, and from each request libuv has not completed. So, as long as the requests
  do not overflow the counter, it is zero just when the connection is in no list, both handles are gone and no callback is left. The one
  exception is a connection that is stranded: a write to the server refused while a packet is handled closes it, the rest of the
  handler makes it idle again, and the next packet of the same read opens an upstream that outlives the relay (\<open>stranded_freed_early\<close>). The count is
  shown for the states reached without passing through a stranded one, and without initialising a handle in use, which is undefined (\<open>handle_reused\<close>).
\<close>

theorem references_counted:
  assumes "uv_contract E" and "i \<in> set (connections p)" "distinct (connections p)"
    and "(\<lambda>w w'. pc_step w w' \<and> \<not> stranded w')\<^sup>*\<^sup>* (connectServer E \<lparr>pc = mk_conn E i, ap = p\<rparr>) w" and "length (c_pending (pc w)) < 2 ^ 31"
  shows "refCount (pc w) = word_of_nat (of_bool (pc_id (pc w) \<in> set (connections (ap w))) + of_bool (relay (pc w) \<in> {Open, Closing}) +
      of_bool (upstream (pc w) \<in> {Open, Closing}) + length (filter (\<lambda>r. r \<noteq> CloseRelay \<and> r \<noteq> CloseUpstream) (c_pending (pc w)))) \<and>
    (refCount (pc w) = 0 \<longleftrightarrow> pc_id (pc w) \<notin> set (connections (ap w)) \<and> relay (pc w) \<notin> {Open, Closing} \<and>
      upstream (pc w) \<notin> {Open, Closing} \<and> c_pending (pc w) = [])"
proof -
  have "pc_ok w" using reachable_ok [OF assms(4)] connectServer_ok [OF assms(1-3)] by blast
  then have ok: "refs_ok (owned w) (relay (pc w)) (upstream (pc w)) (c_pending (pc w)) (refCount (pc w))" by (simp add: pc_ok_def)
  have req: "(\<lambda>r. on_relay r \<or> on_upstream r) = (\<lambda>r. r \<noteq> CloseRelay \<and> r \<noteq> CloseUpstream)"
    by (rule ext, case_tac r) simp_all
  let ?n = "refs_of (owned w) (relay (pc w)) (upstream (pc w)) (c_pending (pc w))"
  have n: "refCount (pc w) = word_of_nat ?n" using ok by (simp add: refs_ok_def)
  have b: "of_bool x \<le> (1 :: nat)" for x by simp
  have "?n \<le> 1 + 1 + 1 + length (c_pending (pc w))" unfolding refs_of_def by (intro add_mono b length_filter_le)
  then have "?n < 2 ^ 32" using assms(5) by simp
  then have "refCount (pc w) = 0 \<longleftrightarrow> ?n = 0" using n by (auto simp: word_of_nat_eq_0_iff dest: dvd_imp_le)
  moreover have "?n = 0 \<longleftrightarrow> \<not> owned w \<and> \<not> holds (relay (pc w)) \<and> \<not> holds (upstream (pc w)) \<and> c_pending (pc w) = []"
  proof
    assume z: "?n = 0"
    then have o: "\<not> owned w" "\<not> holds (relay (pc w))" "\<not> holds (upstream (pc w))" by (auto simp: refs_of_def split: if_splits)
    then have "CloseRelay \<notin> set (c_pending (pc w))" "CloseUpstream \<notin> set (c_pending (pc w))"
      using ok by (auto simp: refs_ok_def holds_def count_list_0_iff)
    moreover have "\<not> on_relay r \<and> \<not> on_upstream r" if "r \<in> set (c_pending (pc w))" for r using ok o that by (auto simp: refs_ok_def)
    ultimately have "c_pending (pc w) = []" by (metis list.set_intros(1) neq_Nil_conv on_relay.simps(1,2) on_upstream.simps(1,2,3) request.exhaust)
    then show "\<not> owned w \<and> \<not> holds (relay (pc w)) \<and> \<not> holds (upstream (pc w)) \<and> c_pending (pc w) = []" using o by simp
  qed (simp add: refs_of_def)
  ultimately show ?thesis using n by (simp add: owned_def refs_of_def req holds_def)
qed

text \<open>The connection to the server is refused, and the handle is closed; or the proxy stops while it is being made.\<close>

definition refused :: world where
  "refused = dequeue ConnectRelay (complete open_env ConnectRelay False (connectServer open_env new_world))"

definition stopped :: world where
  "stopped = on_ap (connections_update (remove1 0)) (pc_drop open_env (connectServer open_env new_world))"

lemmas connection_eval = connectServer_def succeeds_def handle_of_def open_env_def new_world_def new_proxy_def mk_conn_def Let_def issue_def await_def ref_def unref_def
  pc_close_def set_state_def onOpenFailed_def close_handles_def close_relay_def h_data_def uv_is_closing_def close_relay_handle_def onClosed_def dequeue_def on_pc_def on_ap_def
  ap_openFailed_def pc_drop_def

lemma open_contract: "uv_contract open_env"
  by (simp add: uv_contract_def open_env_def)

theorem references_counted_witness:
  "refCount (pc (dequeue CloseRelay (complete open_env CloseRelay True refused))) = 0 \<and>
   c_pending (pc refused) = [CloseRelay] \<and> refCount (pc refused) = 1 \<and> refCount (pc stopped) = 2"
proof -
  let ?w0 = "connectServer open_env \<lparr>pc = mk_conn open_env 0, ap = new_proxy\<rparr>" and ?R = "\<lambda>w w'. pc_step w w' \<and> \<not> stranded w'"
  let ?gone = "dequeue CloseRelay (complete open_env CloseRelay True refused)"
  have p: "c_pending (pc ?w0) = [ConnectRelay]" "owned ?w0" "pc_id (pc ?w0) = 0" by (simp_all add: connection_eval owned_def)
  have r: "c_pending (pc refused) = [CloseRelay]" "pc_id (pc refused) \<notin> set (connections (ap refused))" "relay (pc refused) = Closing" "upstream (pc refused) = Unset"
    by (simp_all add: refused_def connection_eval)
  have s: "c_pending (pc stopped) = [ConnectRelay, CloseRelay]" "pc_id (pc stopped) \<notin> set (connections (ap stopped))" "relay (pc stopped) = Closing"
    "upstream (pc stopped) = Unset" by (simp_all add: stopped_def connection_eval)
  have "?R ?w0 refused" using event [OF request_done [OF open_contract, of ConnectRelay ?w0 False]] p r(4) by (simp add: refused_def in_order_def new_world_def stranded_def)
  moreover have "?R refused ?gone"
    using event [OF request_done [OF open_contract, of CloseRelay refused True]] r(1,4) by (simp add: in_order_def stranded_def dequeue_def unref_def)
  moreover have "?R ?w0 stopped" using dropped [OF open_contract p(2)] p(3) s(4) by (simp add: stopped_def new_world_def stranded_def)
  ultimately have reach: "?R\<^sup>*\<^sup>* ?w0 refused" "?R\<^sup>*\<^sup>* ?w0 ?gone" "?R\<^sup>*\<^sup>* ?w0 stopped" by (auto intro: rtranclp.rtrancl_into_rtrancl)
  have i: "0 \<in> set (connections new_proxy)" "distinct (connections new_proxy)" by (simp_all add: new_proxy_def)
  have "refCount (pc refused) = 1" using references_counted [OF open_contract i reach(1)] r by simp
  moreover have "refCount (pc ?gone) = 0" using references_counted [OF open_contract i reach(2)] r by (simp add: dequeue_def unref_def)
  moreover have "refCount (pc stopped) = 2" using references_counted [OF open_contract i reach(3)] s by simp
  ultimately show ?thesis using r(1) by blast
qed

section \<open>The two ways it fails\<close>

text \<open>A DISCONNECT and a CONNECT, in one read, for a connection whose disconnect handshake lacks one confirmation.\<close>

definition disconnect_connect :: "u8 list" where
  "disconnect_connect = [0, 3, 48] @ [0, 38, 32, 4, 127, 0, 0, 1] @ replicate 30 0"

definition finishing :: "handle \<Rightarrow> request list \<Rightarrow> u32 \<Rightarrow> world" where
  "finishing up rs n = \<lparr>pc = (mk_conn open_env 0)\<lparr>c_state := Disconnecting, disconnectConfirms := 1, relay := Open, upstream := up, c_pending := rs, refCount := n\<rparr>,
     ap = new_proxy\<lparr>inFlights := 1\<rparr>\<rparr>"

lemma finishing_ok: "pc_ok (finishing Unset [] 2)" "pc_ok (finishing Open [ShutdownUpstream] 4)"
  by (simp_all add: pc_ok_def finishing_def mk_conn_def new_proxy_def owned_def refs_ok_def refs_of_def holds_def let_go_def)

lemma flags [simp]: "valueOf 48 = Some PT_DISCONNECT" "valueOf 32 = Some PT_CONNECT"
  by code_simp+

lemmas packet_eval = connection_eval processRelayPacket_def onDisconnectRequest_def closeUpstream_def sendDisconnectResponse_def sendRelayPacket_def
  confirmDisconnect_def onIdle_def ap_idle_def onConnectRequest_def onBusy_def ap_busy_def openUpstream_def sa_of_blob_def allow_def packet_size_def

lemma two_packets:
  assumes "stickyBuffer (pc w) = []"
  shows "onRelayRead E disconnect_connect w =
    (case processRelayPacket E disconnect_connect 3 (on_pc (keepAliveTimestamp_update (\<lambda>_. pe_now E)) w) of
       Inl f \<Rightarrow> Some (Inl f) | Inr v \<Rightarrow> Some (processRelayPacket E (drop 3 disconnect_connect) 38 v))"
proof -
  have second: "relay_loop E (drop 3 disconnect_connect) v = Some (processRelayPacket E (drop 3 disconnect_connect) 38 v)" for v
  proof (cases "processRelayPacket E (drop 3 disconnect_connect) 38 v")
    case (Inr w')
    moreover have "relay_loop E [] w' = Some (Inr w')" by (subst relay_loop.simps) simp
    ultimately show ?thesis by (subst relay_loop.simps) (simp add: disconnect_connect_def packet_size_def)
  qed (subst relay_loop.simps, simp add: disconnect_connect_def packet_size_def)
  have first: "length disconnect_connect = 41" "packet_size disconnect_connect = 3" by (simp_all add: disconnect_connect_def packet_size_def)
  have "relay_loop E disconnect_connect v = (case processRelayPacket E disconnect_connect 3 v of
       Inl f \<Rightarrow> Some (Inl f) | Inr v \<Rightarrow> Some (processRelayPacket E (drop 3 disconnect_connect) 38 v))" for v
    using first second by (subst relay_loop.simps) (cases "processRelayPacket E disconnect_connect 3 v"; auto)
  then show ?thesis using assms by (simp add: onRelayRead_def)
qed

text \<open>
  When the shutdown of the upstream has not been completed, \<^verbatim>\<open>openUpstream\<close> initialises a handle that is in use.
\<close>

lemma handle_reused: "onRelayRead open_env disconnect_connect (finishing Open [ShutdownUpstream] 4) = Some (Inl HandleReused)"
proof -
  have "stickyBuffer (pc (finishing Open [ShutdownUpstream] 4)) = []" by (simp add: finishing_def mk_conn_def)
  from two_packets [OF this] show ?thesis by (simp add: finishing_def disconnect_connect_def packet_eval)
qed

text \<open>
  When the write of the confirmation is refused, the connection is closed and taken out of the list, becomes idle again and opens an upstream. Once
  the relay has been closed, the upstream connects; the refused answer closes the connection again, its handler gives up the reference of
  the list a second time, and the count is zero while the close callback of the upstream is still to come.
\<close>

definition deaf_env :: proxy_env where
  "deaf_env = open_env\<lparr>pe_uv := (\<lambda>cs h a. (a = UvInitRelay \<or> a = UvInitUpstream \<or> h = Open) \<and> (\<forall>p. a \<noteq> UvWriteRelay p))\<rparr>"

definition revived :: world where
  "revived = (case onRelayRead deaf_env disconnect_connect (finishing Unset [] 2) of Some (Inr w) \<Rightarrow> w | _ \<Rightarrow> new_world)"

definition ended :: "request \<Rightarrow> world \<Rightarrow> world" where
  "ended r w = dequeue r (complete deaf_env r True w)"

lemma stranded_freed_early:
  "uv_contract deaf_env" "pc_ok (finishing Unset [] 2)" "pc_step (finishing Unset [] 2) revived"
  "pc_step revived (ended CloseRelay revived)" "stranded (ended CloseRelay revived)"
  "pc_step (ended CloseRelay revived) (ended ConnectUpstream (ended CloseRelay revived))"
  "refCount (pc (ended ConnectUpstream (ended CloseRelay revived))) = 0"
  "c_pending (pc (ended ConnectUpstream (ended CloseRelay revived))) = [CloseUpstream]"
proof -
  show E: "uv_contract deaf_env" by (simp add: uv_contract_def deaf_env_def open_env_def)
  show "pc_ok (finishing Unset [] 2)" by (rule finishing_ok)
  have f: "stickyBuffer (pc (finishing Unset [] 2)) = []" "relay (pc (finishing Unset [] 2)) = Open" by (simp_all add: finishing_def mk_conn_def)
  have r: "onRelayRead deaf_env disconnect_connect (finishing Unset [] 2) = Some (Inr revived)"
    unfolding revived_def two_packets [OF f(1)] by (simp add: finishing_def disconnect_connect_def packet_eval deaf_env_def)
  show "pc_step (finishing Unset [] 2) revived" by (rule event [OF relay_data [OF E f(2) r]])
  have v: "c_pending (pc revived) = [CloseRelay, ConnectUpstream]" "relay (pc revived) = Closing" "upstream (pc revived) = Open"
    "refCount (pc revived) = 3" "closeHandler (pc revived)" "connections (ap revived) = []" "c_state (pc revived) = Relaying" "pc_id (pc revived) = 0"
    unfolding revived_def two_packets [OF f(1)] by (simp_all add: finishing_def disconnect_connect_def packet_eval deaf_env_def)
  show "pc_step revived (ended CloseRelay revived)" unfolding ended_def by (rule event [OF request_done [OF E]]) (simp_all add: v in_order_def)
  have u: "c_pending (pc (ended CloseRelay revived)) = [ConnectUpstream]" "relay (pc (ended CloseRelay revived)) = Unset" "upstream (pc (ended CloseRelay revived)) = Open"
    "refCount (pc (ended CloseRelay revived)) = 2" "closeHandler (pc (ended CloseRelay revived))" "connections (ap (ended CloseRelay revived)) = []"
    "c_state (pc (ended CloseRelay revived)) = Relaying"
    by (simp_all add: ended_def dequeue_def unref_def v)
  show "stranded (ended CloseRelay revived)" using u by (simp add: stranded_def owned_def)
  show "pc_step (ended CloseRelay revived) (ended ConnectUpstream (ended CloseRelay revived))"
    unfolding ended_def [of ConnectUpstream] by (rule event [OF request_done [OF E]]) (simp_all add: u in_order_def)
  have "refCount (pc (ended ConnectUpstream w)) = 0 \<and> c_pending (pc (ended ConnectUpstream w)) = [CloseUpstream]"
    if "c_pending (pc w) = [ConnectUpstream]" "relay (pc w) = Unset" "upstream (pc w) = Open" "refCount (pc w) = 2" "closeHandler (pc w)" "c_state (pc w) = Relaying" for w
    using that by (simp add: ended_def sendConnectResponse_def sendRelayPacket_def Let_def succeeds_def deaf_env_def pc_close_def set_state_def onIdle_def
        close_handles_def close_relay_def h_data_def uv_is_closing_def close_upstream_handle_def onClosed_def dequeue_def unref_def)
  then show "refCount (pc (ended ConnectUpstream (ended CloseRelay revived))) = 0"
    "c_pending (pc (ended ConnectUpstream (ended CloseRelay revived))) = [CloseUpstream]" using u by blast+
qed

end
