(* ===== verification/Active_Proxy.thy ===== *)
theory Active_Proxy
  imports Proxy_References Messages
begin

text \<open>
  The active proxy, \<^verbatim>\<open>src/addons/activeproxy/activeproxy.cc\<close> and \<^verbatim>\<open>activeproxy.h\<close>: its pool of connections, the iteration of
  its event loop with the periodic checks, and how it finds its server. The objects behind the vector of pointers are
  the map \<open>po_conns\<close>; a connection acts on its object and on the proxy through \<open>on_conn\<close>. Files, the
  lookups of the node and the reading of identifiers and CBOR are parameters. The locale \<open>proxy_handlers\<close> gives the client's
  view of a connection: a property of the proxy that the handlers keep is kept by every event.
\<close>

section \<open>The pool\<close>

record pool =
  po_conns :: "nat \<rightharpoonup> conn"
  po_proxy :: proxy
  lastConnectionId :: nat
  po_announced :: "peer_info list"

definition on_conn :: "nat \<Rightarrow> (world \<Rightarrow> world) \<Rightarrow> pool \<Rightarrow> pool" where
  "on_conn i f po =
     (case po_conns po i of
        None \<Rightarrow> po
      | Some c \<Rightarrow> let w = f \<lparr>pc = c, ap = po_proxy po\<rparr> in po\<lparr>po_conns := (po_conns po)(i \<mapsto> pc w), po_proxy := ap w\<rparr>)"

definition ap_reset :: "proxy_env \<Rightarrow> proxy \<Rightarrow> proxy" where
  "ap_reset E p = p\<lparr>ap_sessionKey := pe_keys E, ap_serverPk := None, lastConnectTimestamp := 0, serverFails := 0, reconnectDelay := 0,
     idleTimestamp := -1, lastIdleCheckTimestamp := 0, lastHealthCheckTimestamp := 0, lastAnnouncePeerTimestamp := 0, inFlights := 0\<rparr>"

definition needsNewConnection :: "proxy_env \<Rightarrow> proxy \<Rightarrow> bool \<times> proxy" where
  "needsNewConnection E p =
     (if length (connections p) \<ge> unat (maxConnections p) then (False, p)
      else if reconnectDelay p \<noteq> 0 \<and> pe_now E - lastConnectTimestamp p < ucast (reconnectDelay p) then (False, p)
      else if connections p = [] then (True, if ap_serverPk p \<noteq> None then ap_reset E p else p)
      else (unat (inFlights p) = length (connections p), p))"

text \<open>\<^verbatim>\<open>connect\<close>: a new connection with the handlers of the proxy.\<close>

definition ap_connect :: "proxy_env \<Rightarrow> pool \<Rightarrow> pool" where
  "ap_connect E po =
     (let i = lastConnectionId po;
          p = (po_proxy po)\<lparr>connections := connections (po_proxy po) @ [i], lastConnectTimestamp := pe_now E\<rparr> in
      on_conn i (connectServer E) (po\<lparr>po_conns := (po_conns po)(i \<mapsto> mk_conn E i), po_proxy := p, lastConnectionId := i + 1\<rparr>))"

definition IDLE_CHECK_INTERVAL :: u64 where [simp]: "IDLE_CHECK_INTERVAL = 60000"
definition MAX_IDLE_TIME :: u64 where [simp]: "MAX_IDLE_TIME = 300000"
definition RE_ANNOUNCE_INTERVAL :: u64 where [simp]: "RE_ANNOUNCE_INTERVAL = 3600000"
definition HEALTH_CHECK_INTERVAL :: u64 where [simp]: "HEALTH_CHECK_INTERVAL = 10000"

definition drop_conn :: "proxy_env \<Rightarrow> nat \<Rightarrow> pool \<Rightarrow> pool" where
  "drop_conn E i = on_conn i (pc_drop E)"

definition idleCheck :: "proxy_env \<Rightarrow> pool \<Rightarrow> pool" where
  "idleCheck E po =
     (let p = po_proxy po in
      if idleTimestamp p = -1 \<or> pe_now E - idleTimestamp p < MAX_IDLE_TIME then po
      else if inFlights p \<noteq> 0 \<or> length (connections p) \<le> 1 then po
      else let po1 = fold (drop_conn E) (rev (tl (connections p))) po in
           po1\<lparr>po_proxy := (po_proxy po1)\<lparr>connections := take 1 (connections (po_proxy po1))\<rparr>\<rparr>)"

text \<open>
  The range-based loop of \<^verbatim>\<open>healthCheck\<close> over the vector: when a connection is taken out of the vector
  in its body, the iterators of the loop are invalid.
\<close>

fun healthCheck_loop :: "proxy_env \<Rightarrow> nat list \<Rightarrow> pool \<Rightarrow> fault + pool" where
  "healthCheck_loop E [] po = Inr po"
| "healthCheck_loop E (i # is) po =
     (let po1 = on_conn i (periodicCheck E) po in
      if connections (po_proxy po1) \<noteq> connections (po_proxy po) then Inl Undefined else healthCheck_loop E is po1)"

definition healthCheck :: "proxy_env \<Rightarrow> pool \<Rightarrow> fault + pool" where
  "healthCheck E po = healthCheck_loop E (connections (po_proxy po)) po"

definition ap_announcePeer :: "pool \<Rightarrow> pool" where
  "ap_announcePeer po = (case ap_peer (po_proxy po) of None \<Rightarrow> po | Some q \<Rightarrow> po\<lparr>po_announced := po_announced po @ [q]\<rparr>)"

definition onIteration :: "proxy_env \<Rightarrow> pool \<Rightarrow> fault + pool" where
  "onIteration E po0 =
     (let (fresh, p) = needsNewConnection E (po_proxy po0);
          po1 = (if fresh then ap_connect E (po0\<lparr>po_proxy := p\<rparr>) else po0\<lparr>po_proxy := p\<rparr>);
          now = pe_now E;
          po2 = (if now - lastIdleCheckTimestamp (po_proxy po1) \<ge> IDLE_CHECK_INTERVAL
                 then idleCheck E (po1\<lparr>po_proxy := (po_proxy po1)\<lparr>lastIdleCheckTimestamp := now\<rparr>\<rparr>) else po1) in
      case (if now - lastHealthCheckTimestamp (po_proxy po2) \<ge> HEALTH_CHECK_INTERVAL
            then healthCheck E (po2\<lparr>po_proxy := (po_proxy po2)\<lparr>lastHealthCheckTimestamp := now\<rparr>\<rparr>) else Inr po2) of
        Inl f \<Rightarrow> Inl f
      | Inr po3 \<Rightarrow>
          Inr (if ap_peer (po_proxy po3) \<noteq> None \<and> now - lastAnnouncePeerTimestamp (po_proxy po3) \<ge> RE_ANNOUNCE_INTERVAL
               then ap_announcePeer (po3\<lparr>po_proxy := (po_proxy po3)\<lparr>lastAnnouncePeerTimestamp := now\<rparr>\<rparr>) else po3))"

definition onStop :: "proxy_env \<Rightarrow> pool \<Rightarrow> pool" where
  "onStop E po =
     (let po1 = fold (drop_conn E) (connections (po_proxy po)) (po\<lparr>po_proxy := (po_proxy po)\<lparr>ap_running := False\<rparr>\<rparr>) in
      po1\<lparr>po_proxy := (po_proxy po1)\<lparr>connections := []\<rparr>\<rparr>)"

section \<open>The server\<close>

text \<open>A configuration value (\<^verbatim>\<open>std::any\<close>); casting to another type throws.\<close>

datatype any = AnyString string | AnyInt int | AnyOther

datatype config_error = BadCast | Invalid string

definition cast_string :: "any \<Rightarrow> config_error + string" where
  "cast_string a = (case a of AnyString s \<Rightarrow> Inr s | _ \<Rightarrow> Inl BadCast)"
definition cast_int :: "any \<Rightarrow> config_error + int" where
  "cast_int a = (case a of AnyInt n \<Rightarrow> Inr n | _ \<Rightarrow> Inl BadCast)"

record service =
  persistPath :: string
  upstreamHost :: string
  upstreamPort :: u16
  serverPeerId :: string
  serverHost :: string
  serverPort :: int
  serverId :: id
  peerPrivateKey :: "string option"
  domainName :: string
  sv_maxConnections :: u32

text \<open>
  What comes from outside: the cached file as a JSON document, reading an identifier, the peers of an
  identifier in the order after shuffling, and the host of a node.
\<close>

record outside =
  os_cache :: "json option"
  os_id :: "string \<Rightarrow> id option"
  os_idText :: "id \<Rightarrow> string"
  os_peers :: "id \<Rightarrow> peer_info list"
  os_host :: "id \<Rightarrow> string option"

definition json_string :: "json \<Rightarrow> string \<Rightarrow> string option" where
  "json_string j k = (case j of JObj fs \<Rightarrow> (case map_of fs k of Some (JStr s) \<Rightarrow> Some s | _ \<Rightarrow> None) | _ \<Rightarrow> None)"
definition json_int :: "json \<Rightarrow> string \<Rightarrow> int option" where
  "json_int j k = (case j of JObj fs \<Rightarrow> (case map_of fs k of Some (JInt n) \<Rightarrow> Some n | _ \<Rightarrow> None) | _ \<Rightarrow> None)"

text \<open>\<^verbatim>\<open>loadServicePeer\<close> assigns the host and the port even when it then finds the rest unusable.\<close>

definition loadServicePeer :: "outside \<Rightarrow> service \<Rightarrow> bool \<times> service" where
  "loadServicePeer X s =
     (if persistPath s = [] \<or> serverPeerId s = [] then (False, s)
      else case os_cache X of
        None \<Rightarrow> (False, s)
      | Some root \<Rightarrow>
          (case json_string root ''peerId'' of
             None \<Rightarrow> (False, s)
           | Some peerId \<Rightarrow>
               if serverPeerId s \<noteq> peerId then (False, s)
               else case json_string root ''serverHost'' of
                 None \<Rightarrow> (False, s)
               | Some h \<Rightarrow>
                   (case json_int root ''serverPort'' of
                      None \<Rightarrow> (False, s\<lparr>serverHost := h\<rparr>)
                    | Some port \<Rightarrow>
                        (let s1 = s\<lparr>serverHost := h, serverPort := port\<rparr> in
                         case json_string root ''serverId'' of
                           None \<Rightarrow> (False, s1)
                         | Some idstr \<Rightarrow>
                             (if h = [] \<or> port = 0 \<or> idstr = [] then (False, s1)
                              else case os_id X idstr of None \<Rightarrow> (False, s1) | Some i \<Rightarrow> (True, s1\<lparr>serverId := i\<rparr>))))))"

definition saveServicePeer :: "outside \<Rightarrow> service \<Rightarrow> json option" where
  "saveServicePeer X s =
     (if persistPath s = [] then None
      else if serverHost s = [] \<or> serverPort s = 0 then None
      else Some (JObj [(''peerId'', JStr (serverPeerId s)), (''serverHost'', JStr (serverHost s)), (''serverPort'', JInt (serverPort s)),
                       (''serverId'', JStr (os_idText X (serverId s)))]))"

fun locate_service :: "outside \<Rightarrow> peer_info list \<Rightarrow> service \<Rightarrow> bool \<times> service" where
  "locate_service X [] s = (False, s)"
| "locate_service X (q # qs) s =
     (let s1 = s\<lparr>serverPort := uint (p_port q), serverId := p_nodeId q\<rparr> in
      case os_host X (serverId s1) of None \<Rightarrow> locate_service X qs s1 | Some h \<Rightarrow> (True, s1\<lparr>serverHost := h\<rparr>))"

definition lookupServicePeer :: "outside \<Rightarrow> service \<Rightarrow> config_error + (bool \<times> service)" where
  "lookupServicePeer X s =
     (case os_id X (serverPeerId s) of
        None \<Rightarrow> Inl (Invalid ''id'')
      | Some i \<Rightarrow> (let peers = os_peers X i in if peers = [] then Inr (False, s) else Inr (locate_service X peers s)))"

definition ebind :: "'e + 'a \<Rightarrow> ('a \<Rightarrow> 'e + 'b) \<Rightarrow> 'e + 'b" where
  "ebind x f = (case x of Inl e \<Rightarrow> Inl e | Inr a \<Rightarrow> f a)"

definition optional :: "(string \<rightharpoonup> any) \<Rightarrow> string \<Rightarrow> (any \<Rightarrow> config_error + 'a) \<Rightarrow> ('a \<Rightarrow> service \<Rightarrow> service) \<Rightarrow> service \<Rightarrow> config_error + service" where
  "optional configure k cast upd s = (case configure k of None \<Rightarrow> Inr s | Some a \<Rightarrow> ebind (cast a) (\<lambda>v. Inr (upd v s)))"

text \<open>The server: from the cache or by a lookup of its peer, or else directly from the configuration.\<close>

definition find_server :: "outside \<Rightarrow> (string \<rightharpoonup> any) \<Rightarrow> service \<Rightarrow> config_error + service" where
  "find_server X configure s =
     (case configure ''serverPeerId'' of
        Some a \<Rightarrow>
          ebind (cast_string a) (\<lambda>peer.
            (case loadServicePeer X (s\<lparr>serverPeerId := peer\<rparr>) of
               (True, s1) \<Rightarrow> Inr s1
             | (False, s1) \<Rightarrow> ebind (lookupServicePeer X s1) (\<lambda>(found, s2). if found then Inr s2 else Inl (Invalid ''no service''))))
      | None \<Rightarrow>
          (case (configure ''serverId'', configure ''serverHost'', configure ''serverPort'') of
             (Some a, Some b, Some c) \<Rightarrow>
               ebind (cast_string a) (\<lambda>idstr. case os_id X idstr of None \<Rightarrow> Inl (Invalid ''id'') | Some i \<Rightarrow>
               ebind (cast_string b) (\<lambda>h. ebind (cast_int c) (\<lambda>port.
                 Inr (s\<lparr>serverId := i, serverHost := h, serverPort := port mod 65536\<rparr>))))
           | _ \<Rightarrow> Inl (Invalid ''missing serverPeerId'')))"

definition ap_initialize :: "outside \<Rightarrow> (string \<rightharpoonup> any) \<Rightarrow> service \<Rightarrow> config_error + service" where
  "ap_initialize X configure s =
     ebind (optional configure ''logLevel'' cast_string (\<lambda>_ s. s) s) (\<lambda>s1.
     ebind (optional configure ''persistPath'' cast_string (\<lambda>d s. s\<lparr>persistPath := d @ ''/activeProxy.cache''\<rparr>) s1) (\<lambda>s2.
     case (configure ''upstreamHost'', configure ''upstreamPort'') of
       (None, _) \<Rightarrow> Inl (Invalid ''missing upstreamHost'')
     | (_, None) \<Rightarrow> Inl (Invalid ''missing upstreamPort'')
     | (Some a, Some b) \<Rightarrow>
         ebind (cast_string a) (\<lambda>h. ebind (cast_int b) (\<lambda>n.
           let port = word_of_int n :: u16 in
           if h = [] \<or> port = 0 then Inl (Invalid ''empty upstreamHost or upstreamPort'')
           else ebind (find_server X configure (s2\<lparr>upstreamHost := h, upstreamPort := port\<rparr>)) (\<lambda>s3.
             if serverHost s3 = [] \<or> serverPort s3 = 0 then Inl (Invalid ''empty serverHost or serverPort'')
             else ebind (optional configure ''peerPrivateKey'' cast_string (\<lambda>k s. s\<lparr>peerPrivateKey := Some k\<rparr>) s3) (\<lambda>s4.
               ebind (optional configure ''domainName'' cast_string (\<lambda>d s. s\<lparr>domainName := d\<rparr>) s4) (\<lambda>s5.
                 optional configure ''maxConnections'' cast_int (\<lambda>m s. s\<lparr>sv_maxConnections := word_of_int m\<rparr>) s5)))))))"

section \<open>Steps\<close>

inductive ap_step :: "pool \<Rightarrow> pool \<Rightarrow> bool" where
  iteration: "onIteration E po = Inr po' \<Longrightarrow> ap_step po po'"
| connection: "po_conns po i = Some c \<Longrightarrow> pc_event \<lparr>pc = c, ap = po_proxy po\<rparr> w \<Longrightarrow>
    ap_step po (po\<lparr>po_conns := (po_conns po)(i \<mapsto> pc w), po_proxy := ap w\<rparr>)"
| stop: "ap_step po (onStop E po)"

definition new_pool :: "proxy \<Rightarrow> pool" where
  "new_pool p = \<lparr>po_conns = Map.empty, po_proxy = p, lastConnectionId = 0, po_announced = []\<rparr>"

section \<open>What the handlers keep, every event keeps\<close>

locale proxy_handlers =
  fixes P :: "proxy \<Rightarrow> bool"
  assumes authorized: "P p \<Longrightarrow> ap_authorized E pk port en p = Some p' \<Longrightarrow> P p'"
    and opened: "P p \<Longrightarrow> P (ap_opened p)"
    and openFailed: "P p \<Longrightarrow> P (ap_openFailed p)"
    and busy: "P p \<Longrightarrow> P (ap_busy p)"
    and idle: "P p \<Longrightarrow> P (ap_idle E p)"
    and closed: "P p \<Longrightarrow> P (connections_update (remove1 i) p)"
    and granted: "P p \<Longrightarrow> P (maxConnections_update g p)"
begin

definition keeps :: "world \<Rightarrow> bool" where "keeps w \<longleftrightarrow> P (ap w)"

lemma keeps_basic [simp]:
  "keeps (on_pc f w) = keeps w" "keeps (set_state s w) = keeps w" "keeps (issue a w) = keeps w" "keeps (await r w) = keeps w" "keeps (ref w) = keeps w"
  "keeps (unref w) = keeps w" "keeps (dequeue r w) = keeps w" "keeps (append_sticky bs w) = keeps w"
  by (simp_all add: keeps_def set_state_def issue_def await_def ref_def unref_def dequeue_def append_sticky_def)

lemma keeps_handlers [simp]:
  "keeps w \<Longrightarrow> keeps (onOpened w)" "keeps w \<Longrightarrow> keeps (onOpenFailed w)" "keeps w \<Longrightarrow> keeps (onBusy w)" "keeps w \<Longrightarrow> keeps (onIdle E w)"
  "keeps w \<Longrightarrow> keeps (onClosed w)" "keeps w \<Longrightarrow> keeps (on_ap (maxConnections_update g) w)"
  using opened openFailed busy idle closed granted
  by (simp_all add: keeps_def onOpened_def onOpenFailed_def onBusy_def onIdle_def onClosed_def unref_def)

lemma keeps_close_handles [simp]: "keeps (close_upstream_handle w) = keeps w" "keeps (close_relay_handle w) = keeps w" "keeps w \<Longrightarrow> keeps (close_handles w)"
  by (simp_all add: close_upstream_handle_def close_relay_handle_def close_handles_def close_relay_def Let_def)

lemma keeps_close [simp]: "keeps w \<Longrightarrow> keeps (pc_close E w)"
  by (simp add: pc_close_def Let_def)

lemma keeps_send [simp]: "keeps w \<Longrightarrow> keeps (sendRelayPacket E t p h w)"
  by (simp add: sendRelayPacket_def Let_def)

lemma keeps_requests [simp]:
  assumes "keeps w"
  shows "keeps (sendAuthenticateRequest E sig w)" "keeps (sendAttachRequest E sig w)" "keeps (sendPingRequest E w)" "keeps (sendConnectResponse E ok w)"
    "keeps (sendDisconnectRequest E w)" "keeps (sendDisconnectResponse E w)" "keeps (sendDataRequest E data w)" "keeps (closeUpstream2 w)"
  using assms by (simp_all add: sendAuthenticateRequest_def sendAttachRequest_def sendPingRequest_def sendConnectResponse_def sendDisconnectRequest_def
      sendDisconnectResponse_def sendDataRequest_def closeUpstream2_def Let_def)

lemma keeps_upstream [simp]:
  assumes "keeps w"
  shows "keeps (closeUpstream E w)" "keeps (confirmDisconnect E w)" "keeps (onChallenge E data n w)" "keeps (establish E w)"
  using assms by (simp_all add: closeUpstream_def confirmDisconnect_def onChallenge_def establish_def Let_def)

lemma keeps_start [simp]: "keeps w \<Longrightarrow> keeps (startReadUpstream E w)"
  by (simp add: startReadUpstream_def)

lemma keeps_open: "keeps w \<Longrightarrow> openUpstream E w = Inr w' \<Longrightarrow> keeps w'"
  by (auto simp: openUpstream_def Let_def split: if_splits)

lemma keeps_authenticate: "keeps w \<Longrightarrow> onAuthenticateResponse E packet n w = Inr w' \<Longrightarrow> keeps w'"
proof -
  assume k: "keeps w" and r: "onAuthenticateResponse E packet n w = Inr w'"
  have "keeps (onOpened (set_state Idling (v\<lparr>ap := p\<rparr>)))" if "keeps v" "ap_authorized E pk port en (ap v) = Some p" for v p pk port en
    using that authorized opened by (simp add: keeps_def onOpened_def set_state_def)
  then show ?thesis using k r by (auto simp: onAuthenticateResponse_def Let_def split: if_splits option.splits)
qed

lemma keeps_process: "keeps w \<Longrightarrow> processRelayPacket E packet n w = Inr w' \<Longrightarrow> keeps w'"
proof -
  assume k: "keeps w" and r: "processRelayPacket E packet n w = Inr w'"
  have "keeps w'" if "onConnectRequest E packet n w = Inr w'"
  proof -
    have "keeps (onBusy (set_state Relaying w))" using k by simp
    then have "keeps v" if "openUpstream E (onBusy (set_state Relaying w)) = Inr v" for v using that keeps_open by blast
    then show ?thesis using that keeps_close [OF k, of E] by (simp add: onConnectRequest_def Let_def allow_def split: if_splits option.splits)
  qed
  moreover have "keeps w'" if "onDataRequest E packet n w = Inr w'"
    using that k by (auto simp: onDataRequest_def split: if_splits option.splits)
  ultimately show ?thesis using k r keeps_authenticate
    by (auto simp: processRelayPacket_def onAttachResponse_def onDisconnectRequest_def onDisconnectResponse_def split: if_splits option.splits packet_type.splits)
qed

lemma keeps_read: "keeps w \<Longrightarrow> onRelayRead E data w = Some (Inr w') \<Longrightarrow> keeps w'"
  by (rule onRelayRead_invariant [where I = keeps]) (auto intro: keeps_process)

lemma keeps_event: "pc_event w w' \<Longrightarrow> P (ap w) \<Longrightarrow> P (ap w')"
proof -
  have "keeps w \<Longrightarrow> pc_event w w' \<Longrightarrow> keeps w'"
  proof (erule pc_event.cases)
    fix E r v ok assume "keeps w" "w = v" "w' = dequeue r (complete E r ok v)"
    then show "keeps w'" by (cases r) (simp_all add: written_def split: write_callback.splits)
  qed (auto simp: periodicCheck_def Let_def intro: keeps_read)
  then show "pc_event w w' \<Longrightarrow> P (ap w) \<Longrightarrow> P (ap w')" by (simp add: keeps_def)
qed

lemma keeps_on_conn: "P (po_proxy po) \<Longrightarrow> (\<And>w. keeps w \<Longrightarrow> keeps (f w)) \<Longrightarrow> P (po_proxy (on_conn i f po))"
  by (simp add: on_conn_def keeps_def Let_def split: option.splits)

lemma keeps_drop: "P (po_proxy po) \<Longrightarrow> P (po_proxy (fold (drop_conn E) is po))"
  by (induction "is" arbitrary: po) (simp_all add: drop_conn_def pc_drop_def keeps_on_conn)

lemma keeps_check: "P (po_proxy po) \<Longrightarrow> healthCheck_loop E is po = Inr po' \<Longrightarrow> P (po_proxy po')"
proof (induction "is" arbitrary: po)
  case (Cons i is')
  have "P (po_proxy (on_conn i (periodicCheck E) po))" using Cons.prems(1) by (rule keeps_on_conn) (simp add: periodicCheck_def Let_def)
  then show ?case using Cons by (simp add: Let_def split: if_splits)
qed simp

end

text \<open>The same for the operations of the proxy itself.\<close>

locale pool_handlers = proxy_handlers +
  assumes reset: "P p \<Longrightarrow> P (ap_reset E p)"
    and listed: "P p \<Longrightarrow> P (p\<lparr>connections := is\<rparr>)"
    and stamped: "P p \<Longrightarrow> P (p\<lparr>lastConnectTimestamp := t\<rparr>)" "P p \<Longrightarrow> P (p\<lparr>lastIdleCheckTimestamp := t\<rparr>)" "P p \<Longrightarrow> P (p\<lparr>lastHealthCheckTimestamp := t\<rparr>)"
      "P p \<Longrightarrow> P (p\<lparr>lastAnnouncePeerTimestamp := t\<rparr>)" "P p \<Longrightarrow> P (p\<lparr>ap_running := b\<rparr>)"
begin

lemma keeps_connect: "P (po_proxy po) \<Longrightarrow> P (po_proxy (ap_connect E po))"
proof -
  assume p: "P (po_proxy po)"
  have "keeps (connectServer E w)" if "keeps w" for w using that by (simp add: connectServer_def Let_def)
  moreover have "P (po_proxy po\<lparr>connections := is, lastConnectTimestamp := t\<rparr>)" for "is" t
    using stamped(1) [OF listed [OF p, of "is"], of t] by simp
  ultimately show ?thesis unfolding ap_connect_def Let_def by (intro keeps_on_conn) simp_all
qed

lemma keeps_idleCheck: "P (po_proxy po) \<Longrightarrow> P (po_proxy (idleCheck E po))"
  using keeps_drop by (simp add: idleCheck_def Let_def listed)

lemma keeps_iteration:
  assumes p: "P (po_proxy po)" and r: "onIteration E po = Inr po'"
  shows "P (po_proxy po')"
proof -
  obtain fresh q where q: "needsNewConnection E (po_proxy po) = (fresh, q)" by fastforce
  then have "P q" using p reset by (auto simp: needsNewConnection_def split: if_splits)
  define po1 where "po1 = (if fresh then ap_connect E (po\<lparr>po_proxy := q\<rparr>) else po\<lparr>po_proxy := q\<rparr>)"
  define po2 where "po2 = (if pe_now E - lastIdleCheckTimestamp (po_proxy po1) \<ge> IDLE_CHECK_INTERVAL
    then idleCheck E (po1\<lparr>po_proxy := (po_proxy po1)\<lparr>lastIdleCheckTimestamp := pe_now E\<rparr>\<rparr>) else po1)"
  have "P (po_proxy po1)" using \<open>P q\<close> by (simp add: po1_def keeps_connect)
  then have po2: "P (po_proxy po2)" by (simp add: po2_def keeps_idleCheck stamped)
  have check: "P (po_proxy po3)" if "healthCheck E (po2\<lparr>po_proxy := (po_proxy po2)\<lparr>lastHealthCheckTimestamp := pe_now E\<rparr>\<rparr>) = Inr po3" for po3
    using keeps_check [OF _ that [unfolded healthCheck_def]] po2 by (simp add: stamped)
  have ann: "P (po_proxy (ap_announcePeer v))" if "P (po_proxy v)" for v using that by (simp add: ap_announcePeer_def split: option.splits)
  have "\<exists>po3. P (po_proxy po3) \<and> (po' = po3 \<or> po' = ap_announcePeer (po3\<lparr>po_proxy := (po_proxy po3)\<lparr>lastAnnouncePeerTimestamp := pe_now E\<rparr>\<rparr>))"
    using r po2 check unfolding onIteration_def q Let_def prod.case po1_def [symmetric] po2_def [symmetric]
    by (auto split: sum.splits if_splits)
  then show ?thesis using ann stamped(4) by auto
qed

lemma keeps_ap_step: "ap_step po po' \<Longrightarrow> P (po_proxy po) \<Longrightarrow> P (po_proxy po')"
proof (erule ap_step.cases)
  fix E v assume "P (po_proxy po)" "po = v" "po' = onStop E v"
  then show "P (po_proxy po')" using keeps_drop [of "v\<lparr>po_proxy := (po_proxy v)\<lparr>ap_running := False\<rparr>\<rparr>"] by (simp add: onStop_def Let_def listed stamped)
qed (auto intro: keeps_iteration keeps_event)

lemma keeps_reachable: "ap_step\<^sup>*\<^sup>* po po' \<Longrightarrow> P (po_proxy po) \<Longrightarrow> P (po_proxy po')"
  by (induction rule: rtranclp_induct) (auto intro: keeps_ap_step)

end

section \<open>Correctness\<close>

text \<open>No event of a connection lists a connection twice.\<close>

interpretation uniq: proxy_handlers "\<lambda>p. distinct (connections p)"
  by unfold_locales
    (auto simp: ap_authorized_def ap_opened_def ap_openFailed_def ap_busy_def ap_idle_def Let_def distinct_remove1 split: option.splits sum.splits)

lemma event_keeps_distinct: "pc_event w w' \<Longrightarrow> distinct (connections (ap w)) \<Longrightarrow> distinct (connections (ap w'))"
  by (rule uniq.keeps_event)

text \<open>After a failure the delay is two seconds, whatever came before.\<close>

definition delay_ok :: "proxy \<Rightarrow> bool" where
  "delay_ok p \<longleftrightarrow> reconnectDelay p = 0 \<and> serverFails p = 0 \<or> reconnectDelay p = 2000"

interpretation delay: pool_handlers delay_ok
  by unfold_locales
    (auto simp: delay_ok_def ap_authorized_def ap_opened_def ap_openFailed_def ap_busy_def ap_idle_def ap_reset_def Let_def split: option.splits sum.splits)

text \<open>
  C37: the delay before the proxy connects again does not grow with the failures. In every state the event loop leads to, it
  is zero, or two seconds however often the server has failed; the bound 64 is compared with milliseconds, so
  the doubling happens once. So with room for a connection a proxy that waits for two seconds tries again.
\<close>

theorem reconnect_delay_constant:
  assumes "reconnectDelay p = 0" and "serverFails p = 0" and "ap_step\<^sup>*\<^sup>* (new_pool p) po"
  shows "(reconnectDelay (po_proxy po) = 0 \<or> reconnectDelay (po_proxy po) = 2000) \<and>
    (reconnectDelay (po_proxy po) = 0 \<longrightarrow> serverFails (po_proxy po) = 0) \<and>
    (connections (po_proxy po) = [] \<and> 0 < maxConnections (po_proxy po) \<and> 2000 \<le> pe_now E - lastConnectTimestamp (po_proxy po) \<longrightarrow>
      fst (needsNewConnection E (po_proxy po)))"
proof -
  have d: "delay_ok (po_proxy po)" using delay.keeps_reachable [OF assms(3)] assms(1,2) by (simp add: new_pool_def delay_ok_def)
  have "fst (needsNewConnection E (po_proxy po))"
    if "connections (po_proxy po) = []" "0 < maxConnections (po_proxy po)" "2000 \<le> pe_now E - lastConnectTimestamp (po_proxy po)"
  proof -
    have "\<not> pe_now E - lastConnectTimestamp (po_proxy po) < ucast (reconnectDelay (po_proxy po))" if "reconnectDelay (po_proxy po) \<noteq> 0"
      using d that \<open>2000 \<le> _\<close> by (auto simp: delay_ok_def)
    moreover have "unat (maxConnections (po_proxy po)) \<noteq> 0" using that(2) by (simp add: unat_eq_0 word_neq_0_conv)
    ultimately show ?thesis using that(1) by (auto simp: needsNewConnection_def)
  qed
  then show ?thesis using d by (auto simp: delay_ok_def)
qed

text \<open>The first connection is refused.\<close>

definition idle_proxy :: proxy where "idle_proxy = new_proxy\<lparr>connections := []\<rparr>"

definition failed_pool :: pool where
  "failed_pool = (let po = ap_connect open_env (new_pool idle_proxy); w = dequeue ConnectRelay (complete open_env ConnectRelay False \<lparr>pc = the (po_conns po 0), ap = po_proxy po\<rparr>) in
     po\<lparr>po_conns := (po_conns po)(0 \<mapsto> pc w), po_proxy := ap w\<rparr>)"

lemmas pool_eval = connectServer_def succeeds_def handle_of_def open_env_def new_proxy_def mk_conn_def Let_def issue_def await_def ref_def unref_def
  pc_close_def set_state_def onOpenFailed_def close_handles_def close_relay_def h_data_def uv_is_closing_def close_relay_handle_def onClosed_def dequeue_def
  on_pc_def on_ap_def ap_openFailed_def ap_connect_def on_conn_def new_pool_def idle_proxy_def

lemma failed_pool_reached: "ap_step\<^sup>*\<^sup>* (new_pool idle_proxy) failed_pool"
proof -
  let ?po = "ap_connect open_env (new_pool idle_proxy)"
  have "onIteration open_env (new_pool idle_proxy) = Inr ?po"
    by (simp add: onIteration_def needsNewConnection_def pool_eval)
  then have s1: "ap_step (new_pool idle_proxy) ?po" by (rule iteration)
  have c: "po_conns ?po 0 = Some (the (po_conns ?po 0))" "c_pending (the (po_conns ?po 0)) = [ConnectRelay]" by (simp_all add: pool_eval)
  have "uv_contract open_env" by (simp add: uv_contract_def open_env_def)
  then have "pc_event \<lparr>pc = the (po_conns ?po 0), ap = po_proxy ?po\<rparr> (dequeue ConnectRelay (complete open_env ConnectRelay False \<lparr>pc = the (po_conns ?po 0), ap = po_proxy ?po\<rparr>))"
    using c by (intro request_done) (simp_all add: in_order_def)
  from connection [OF c(1) this] have "ap_step ?po failed_pool" by (simp add: failed_pool_def Let_def)
  with s1 show ?thesis by auto
qed

theorem reconnect_delay_constant_witness:
  "reconnectDelay (po_proxy failed_pool) = 2000 \<and> fst (needsNewConnection (open_env\<lparr>pe_now := 7000\<rparr>) (po_proxy failed_pool))"
proof -
  have "reconnectDelay (po_proxy failed_pool) \<noteq> 0" "connections (po_proxy failed_pool) = []" "maxConnections (po_proxy failed_pool) = 16"
    "lastConnectTimestamp (po_proxy failed_pool) = 5000" by (simp_all add: failed_pool_def pool_eval)
  moreover have "reconnectDelay idle_proxy = 0" "serverFails idle_proxy = 0" by (simp_all add: idle_proxy_def new_proxy_def)
  ultimately show ?thesis using reconnect_delay_constant [OF _ _ failed_pool_reached, of "open_env\<lparr>pe_now := 7000\<rparr>"] by simp
qed

lemma handles_connections [simp]:
  "connections (ap (close_upstream_handle w)) = connections (ap w)" "connections (ap (close_relay_handle w)) = connections (ap w)"
  "closeHandler (pc (close_upstream_handle w)) = closeHandler (pc w)" "closeHandler (pc (close_relay_handle w)) = closeHandler (pc w)"
  "pc_id (pc (close_upstream_handle w)) = pc_id (pc w)" "pc_id (pc (close_relay_handle w)) = pc_id (pc w)"
  "inFlights (ap (close_upstream_handle w)) = inFlights (ap w)" "inFlights (ap (close_relay_handle w)) = inFlights (ap w)"
  "relay (pc (close_upstream_handle w)) = relay (pc w)" "relay (pc (close_relay_handle w)) = Closing"
  by (simp_all add: close_upstream_handle_def close_relay_handle_def)

lemma close_proxy:
  "inFlights (ap (close_handles w)) = inFlights (ap w)"
  "\<not> closeHandler (pc w) \<Longrightarrow> connections (ap (close_handles w)) = connections (ap w)"
  "closeHandler (pc w) \<Longrightarrow> relay (pc w) = Open \<Longrightarrow> upstream (pc w) \<noteq> Closing \<Longrightarrow> upstream (pc w) \<noteq> Discarded \<Longrightarrow>
     connections (ap (close_handles w)) = remove1 (pc_id (pc w)) (connections (ap w)) \<and> relay (pc (close_handles w)) = Closing"
  by (auto simp: close_handles_def close_relay_def Let_def onClosed_def unref_def h_data_def uv_is_closing_def)

lemma pc_close_inFlights:
  "inFlights (ap (pc_close E w)) = (if c_state (pc w) = Relaying then inFlights (ap w) - 1 else inFlights (ap w))"
  by (auto simp: pc_close_def Let_def close_proxy set_state_def onOpenFailed_def onIdle_def ap_openFailed_def ap_idle_def)

lemma pc_close_connections:
  "\<not> closeHandler (pc w) \<Longrightarrow> connections (ap (pc_close E w)) = connections (ap w)"
  "c_state (pc w) \<noteq> Closed \<Longrightarrow> closeHandler (pc w) \<Longrightarrow> relay (pc w) = Open \<Longrightarrow> upstream (pc w) \<noteq> Closing \<Longrightarrow> upstream (pc w) \<noteq> Discarded \<Longrightarrow>
     connections (ap (pc_close E w)) = remove1 (pc_id (pc w)) (connections (ap w)) \<and> relay (pc (pc_close E w)) = Closing"
proof -
  have h: "connections (ap (onOpenFailed w)) = connections (ap w)" "connections (ap (onIdle E w)) = connections (ap w)" "connections (ap (set_state s w)) = connections (ap w)"
    "pc (onOpenFailed w) = pc w" "pc (onIdle E w) = pc w" "pc (set_state s w) = (pc w)\<lparr>c_state := s\<rparr>" for w s
    by (simp_all add: onOpenFailed_def onIdle_def set_state_def ap_openFailed_def ap_idle_def Let_def)
  show "\<not> closeHandler (pc w) \<Longrightarrow> connections (ap (pc_close E w)) = connections (ap w)"
    by (simp add: pc_close_def Let_def close_proxy(2) h)
  show "c_state (pc w) \<noteq> Closed \<Longrightarrow> closeHandler (pc w) \<Longrightarrow> relay (pc w) = Open \<Longrightarrow> upstream (pc w) \<noteq> Closing \<Longrightarrow> upstream (pc w) \<noteq> Discarded \<Longrightarrow>
     connections (ap (pc_close E w)) = remove1 (pc_id (pc w)) (connections (ap w)) \<and> relay (pc (pc_close E w)) = Closing"
    by (simp add: pc_close_def Let_def close_proxy(3) h)
qed

text \<open>
  The count of busy connections drifts. Closing a relaying connection takes it off the count, but closing one that is
  disconnecting does not, although it was counted; and when a relaying connection is closed while the
  connection to the upstream service is still being set up, the cancelled request takes it off a second time.
\<close>

theorem in_flights_drift:
  assumes "uv_contract E"
  shows "(c_state (pc w) = Disconnecting \<longrightarrow> c_state (pc (pc_close E w)) = Closed \<and> inFlights (ap (pc_close E w)) = inFlights (ap w)) \<and>
    (c_state (pc w) = Relaying \<longrightarrow> inFlights (ap (pc_close E w)) = inFlights (ap w) - 1) \<and>
    (c_state (pc w) = Relaying \<and> closeHandler (pc w) \<and> relay (pc w) = Open \<and> upstream (pc w) = Open \<longrightarrow>
      inFlights (ap (complete E ConnectUpstream False (pc_close E w))) = inFlights (ap w) - 2)"
proof (intro conjI impI)
  assume r: "c_state (pc w) = Relaying \<and> closeHandler (pc w) \<and> relay (pc w) = Open \<and> upstream (pc w) = Open"
  define w1 where "w1 = pc_close E w"
  have w1: "c_state (pc w1) = Closed" "relay (pc w1) = Closing" "inFlights (ap w1) = inFlights (ap w) - 1"
    using r pc_close_connections(2) [of w E] pc_close_inFlights [of E w] closed_state [of E w] by (auto simp: w1_def)
  define w2 where "w2 = onIdle E (set_state Idling w1)"
  have w2: "c_state (pc w2) = Idling" "relay (pc w2) = Closing" "inFlights (ap w2) = inFlights (ap w) - 2"
    using w1 by (simp_all add: w2_def onIdle_def set_state_def ap_idle_def Let_def)
  have "inFlights (ap (sendRelayPacket E t p h w2)) = inFlights (ap w2)" for t p h
    using w2 assms contract_open(1) [OF assms, of _ w2] by (auto simp: sendRelayPacket_def Let_def pc_close_inFlights)
  then show "inFlights (ap (complete E ConnectUpstream False (pc_close E w))) = inFlights (ap w) - 2"
    using w1 w2(3) by (simp add: w1_def [symmetric] closeUpstream2_def w2_def [symmetric] sendConnectResponse_def unref_def)
qed (simp_all add: pc_close_inFlights closed_state)

theorem in_flights_drift_witness:
  "inFlights (ap (complete open_env ConnectUpstream False (pc_close open_env relaying))) = -1"
proof -
  have "uv_contract open_env" by (simp add: uv_contract_def open_env_def)
  moreover have "c_state (pc relaying) = Relaying \<and> closeHandler (pc relaying) \<and> relay (pc relaying) = Open \<and> upstream (pc relaying) = Open"
    "inFlights (ap relaying) = 1" by (simp_all add: relaying_def mk_conn_def)
  ultimately show ?thesis using in_flights_drift [of open_env relaying] by simp
qed

lemma on_conn_other: "j \<noteq> i \<Longrightarrow> po_conns (on_conn i f po) j = po_conns po j"
  by (simp add: on_conn_def Let_def split: option.splits)

definition dead :: "proxy_env \<Rightarrow> conn \<Rightarrow> bool" where
  "dead E c \<longleftrightarrow> c_state c \<noteq> Relaying \<and> c_state c \<noteq> Closed \<and> 180000 \<le> pe_now E - keepAliveTimestamp c"

text \<open>The write queue of an open relay takes every packet.\<close>

definition writable :: "proxy_env \<Rightarrow> bool" where
  "writable E \<longleftrightarrow> (\<forall>cs p. pe_uv E cs Open (UvWriteRelay p))"

lemma periodicCheck_connections:
  assumes "writable E" and "closeHandler (pc w)" "relay (pc w) = Open" "upstream (pc w) \<noteq> Closing" "upstream (pc w) \<noteq> Discarded"
  shows "connections (ap (periodicCheck E w)) = (if dead E (pc w) then remove1 (pc_id (pc w)) (connections (ap w)) else connections (ap w))"
proof -
  have "connections (ap (sendPingRequest E w)) = connections (ap w)"
    using assms by (simp add: sendPingRequest_def sendRelayPacket_def Let_def succeeds_def handle_of_def writable_def)
  moreover have "pc_close E w = w" if "c_state (pc w) = Closed" using that by (rule closed_again)
  ultimately show ?thesis using pc_close_connections(2) [of w E] assms(2-5) by (auto simp: periodicCheck_def Let_def dead_def)
qed

lemma remove1_changes: "x \<in> set xs \<Longrightarrow> remove1 x xs \<noteq> xs"
  by (metis length_remove1 length_pos_if_in_set diff_less less_irrefl zero_less_one)

lemma healthCheck_loop_cases:
  assumes "writable E" and "distinct is" and "set is \<subseteq> set (connections (po_proxy po))"
    and "\<forall>i \<in> set is. \<exists>c. po_conns po i = Some c \<and> pc_id c = i \<and> closeHandler c \<and> relay c = Open \<and> upstream c \<noteq> Closing \<and> upstream c \<noteq> Discarded"
  shows "if \<exists>i \<in> set is. \<exists>c. po_conns po i = Some c \<and> dead E c then healthCheck_loop E is po = Inl Undefined
    else \<exists>po'. healthCheck_loop E is po = Inr po' \<and> connections (po_proxy po') = connections (po_proxy po)"
  using assms(2-4)
proof (induction "is" arbitrary: po)
  case (Cons i js)
  obtain c where c: "po_conns po i = Some c" "pc_id c = i" "closeHandler c" "relay c = Open" "upstream c \<noteq> Closing" "upstream c \<noteq> Discarded"
    using Cons.prems(3) by auto
  define po1 where "po1 = on_conn i (periodicCheck E) po"
  have conns: "connections (po_proxy po1) = (if dead E c then remove1 i (connections (po_proxy po)) else connections (po_proxy po))"
    using periodicCheck_connections [OF assms(1), of "\<lparr>pc = c, ap = po_proxy po\<rparr>"] c by (simp add: po1_def on_conn_def Let_def)
  have same: "po_conns po1 j = po_conns po j" if "j \<in> set js" for j using that Cons.prems(1) on_conn_other [of j i] by (auto simp: po1_def)
  show ?case
  proof (cases "dead E c")
    case True
    then show ?thesis using c(1) conns remove1_changes [of i "connections (po_proxy po)"] Cons.prems(2) by (auto simp: po1_def Let_def)
  next
    case False
    have "if \<exists>i \<in> set js. \<exists>c. po_conns po1 i = Some c \<and> dead E c then healthCheck_loop E js po1 = Inl Undefined
      else \<exists>po'. healthCheck_loop E js po1 = Inr po' \<and> connections (po_proxy po') = connections (po_proxy po1)"
      using Cons.prems same conns False by (intro Cons.IH) auto
    then show ?thesis using False c(1) conns same by (auto simp: po1_def [symmetric] Let_def split: if_splits)
  qed
qed simp

text \<open>
  The health check runs into undefined behaviour exactly when it finds a dead connection. A connection that has been silent for three
  minutes is closed inside the loop over the vector of connections, its handler erases it from that vector, and the
  loop goes on with invalid iterators. If no connection is dead and libuv takes the pings, the check ends and keeps the list.
\<close>

theorem health_check_dead:
  assumes "writable E" and "distinct (connections (po_proxy po))"
    and "\<forall>i \<in> set (connections (po_proxy po)). \<exists>c. po_conns po i = Some c \<and> pc_id c = i \<and> closeHandler c \<and> relay c = Open \<and>
      upstream c \<noteq> Closing \<and> upstream c \<noteq> Discarded"
  shows "if \<exists>i \<in> set (connections (po_proxy po)). \<exists>c. po_conns po i = Some c \<and> c_state c \<noteq> Relaying \<and> c_state c \<noteq> Closed \<and>
      180000 \<le> pe_now E - keepAliveTimestamp c
    then healthCheck E po = Inl Undefined
    else \<exists>po'. healthCheck E po = Inr po' \<and> connections (po_proxy po') = connections (po_proxy po)"
  using healthCheck_loop_cases [OF assms(1,2) order_refl assms(3)] by (simp add: healthCheck_def dead_def)

definition silent_pool :: pool where
  "silent_pool = \<lparr>po_conns = [0 \<mapsto> (mk_conn open_env 0)\<lparr>c_state := Idling, relay := Open, refCount := 2, keepAliveTimestamp := -200000\<rparr>],
     po_proxy = new_proxy, lastConnectionId = 1, po_announced = []\<rparr>"

theorem health_check_dead_witness:
  "healthCheck open_env silent_pool = Inl Undefined"
proof -
  have "writable open_env" by (simp add: writable_def open_env_def)
  then show ?thesis using health_check_dead [of open_env silent_pool] by (simp add: silent_pool_def new_proxy_def mk_conn_def open_env_def)
qed

lemma drop_conn_effect:
  "connections (po_proxy (drop_conn E i po)) = connections (po_proxy po)" "j \<noteq> i \<Longrightarrow> po_conns (drop_conn E i po) j = po_conns po j"
  "po_conns po i \<noteq> None \<Longrightarrow> \<exists>c. po_conns (drop_conn E i po) i = Some c \<and> c_state c = Closed"
  by (auto simp: drop_conn_def pc_drop_def on_conn_def Let_def unref_def pc_close_connections(1) closed_state split: option.splits)

lemma drop_all_effect:
  "connections (po_proxy (fold (drop_conn E) is po)) = connections (po_proxy po)"
  "j \<notin> set is \<Longrightarrow> po_conns (fold (drop_conn E) is po) j = po_conns po j"
  by (induction "is" arbitrary: po) (auto simp: drop_conn_effect)

text \<open>Each connection of the list is dropped once, and the list does not change meanwhile: for the connection it is the step \<open>dropped\<close>.\<close>

lemma drop_all_each:
  "distinct is \<Longrightarrow> j \<in> set is \<Longrightarrow> po_conns po j = Some c \<Longrightarrow>
     \<exists>p. connections p = connections (po_proxy po) \<and> po_conns (fold (drop_conn E) is po) j = Some (pc (pc_drop E \<lparr>pc = c, ap = p\<rparr>))"
proof (induction "is" arbitrary: po)
  case (Cons i js)
  show ?case
  proof (cases "j = i")
    case True
    then have "po_conns (drop_conn E i po) j = Some (pc (pc_drop E \<lparr>pc = c, ap = po_proxy po\<rparr>))"
      using Cons.prems(3) by (simp add: drop_conn_def on_conn_def Let_def)
    then show ?thesis using True Cons.prems(1) drop_all_effect(2) [of j js E "drop_conn E i po"] by auto
  next
    case False
    then show ?thesis using Cons.IH [of "drop_conn E i po"] Cons.prems by (auto simp: drop_conn_effect)
  qed
qed simp

lemma stop_drops_each:
  assumes "uv_contract E" and "distinct (connections (po_proxy po))" and "i \<in> set (connections (po_proxy po))" and "po_conns po i = Some c" "pc_id c = i"
  shows "\<exists>p p'. connections p = connections (po_proxy po) \<and>
    pc_step \<lparr>pc = c, ap = p\<rparr> \<lparr>pc = the (po_conns (onStop E po) i), ap = p'\<rparr> \<and> i \<notin> set (connections p')"
proof -
  obtain p where p: "connections p = connections (po_proxy po)" "po_conns (onStop E po) i = Some (pc (pc_drop E \<lparr>pc = c, ap = p\<rparr>))"
    using drop_all_each [OF assms(2,3), of "po\<lparr>po_proxy := (po_proxy po)\<lparr>ap_running := False\<rparr>\<rparr>" c E] assms(4) by (auto simp: onStop_def Let_def)
  let ?w = "pc_drop E \<lparr>pc = c, ap = p\<rparr>"
  have o: "owned \<lparr>pc = c, ap = p\<rparr>" using assms(3,5) p(1) by (simp add: owned_def)
  have "connections (ap ?w) = connections p" by (simp add: pc_drop_def unref_def pc_close_connections(1))
  moreover have "pc_step \<lparr>pc = c, ap = p\<rparr> (on_ap (connections_update (remove1 i)) ?w)" using dropped [OF assms(1) o] assms(5) by simp
  moreover have "on_ap (connections_update (remove1 i)) ?w = \<lparr>pc = pc ?w, ap = connections_update (remove1 i) (ap ?w)\<rparr>"
    by (cases ?w) (simp add: on_ap_def)
  ultimately have "pc_step \<lparr>pc = c, ap = p\<rparr> \<lparr>pc = pc ?w, ap = connections_update (remove1 i) (ap ?w)\<rparr>"
    "i \<notin> set (connections (connections_update (remove1 i) (ap ?w)))" using p(1) assms(2) by (metis, simp)
  then show ?thesis using p by (metis option.sel)
qed

lemma drop_all_closed:
  "distinct is \<Longrightarrow> \<forall>i \<in> set is. po_conns po i \<noteq> None \<Longrightarrow> j \<in> set is \<Longrightarrow> \<exists>c. po_conns (fold (drop_conn E) is po) j = Some c \<and> c_state c = Closed"
proof (induction "is" arbitrary: po)
  case (Cons i js)
  show ?case
  proof (cases "j = i")
    case True
    then show ?thesis using Cons.prems drop_all_effect(2) [of i js E "drop_conn E i po"] drop_conn_effect(3) [of po i E] by auto
  next
    case False
    have "po_conns (drop_conn E i po) k \<noteq> None" if "k \<in> set js" for k
      using that Cons.prems drop_conn_effect(2) [of k i E po] by (cases "k = i") auto
    then show ?thesis using Cons False by auto
  qed
qed simp

text \<open>
  The idle check closes the redundant connections and nothing else. After five minutes in which no connection was busy it keeps
  the oldest connection as it is and closes all others; while a connection is busy, or before that time, it changes nothing.
\<close>

theorem idle_check_keeps_one:
  assumes "distinct (connections (po_proxy po))" and "\<forall>i \<in> set (connections (po_proxy po)). po_conns po i \<noteq> None"
  shows "(inFlights (po_proxy po) \<noteq> 0 \<or> idleTimestamp (po_proxy po) = -1 \<or> pe_now E - idleTimestamp (po_proxy po) < 300000 \<longrightarrow> idleCheck E po = po) \<and>
    (inFlights (po_proxy po) = 0 \<and> idleTimestamp (po_proxy po) \<noteq> -1 \<and> 300000 \<le> pe_now E - idleTimestamp (po_proxy po) \<and> connections (po_proxy po) = i # j # js \<longrightarrow>
      connections (po_proxy (idleCheck E po)) = [i] \<and> po_conns (idleCheck E po) i = po_conns po i \<and>
      (\<forall>k \<in> set (j # js). \<exists>c. po_conns (idleCheck E po) k = Some c \<and> c_state c = Closed))"
proof (intro conjI impI)
  assume a: "inFlights (po_proxy po) = 0 \<and> idleTimestamp (po_proxy po) \<noteq> -1 \<and> 300000 \<le> pe_now E - idleTimestamp (po_proxy po) \<and> connections (po_proxy po) = i # j # js"
  let ?l = "rev (j # js)" and ?po = "fold (drop_conn E) (rev (j # js)) po"
  have e: "idleCheck E po = ?po\<lparr>po_proxy := (po_proxy ?po)\<lparr>connections := take 1 (connections (po_proxy ?po))\<rparr>\<rparr>"
    using a by (auto simp: idleCheck_def Let_def not_less)
  show "connections (po_proxy (idleCheck E po)) = [i]" unfolding e using a drop_all_effect(1) [of E ?l po] by simp
  show "po_conns (idleCheck E po) i = po_conns po i" unfolding e using a assms(1) drop_all_effect(2) [of i ?l E po] by simp
  have "\<exists>c. po_conns ?po k = Some c \<and> c_state c = Closed" if "k \<in> set (j # js)" for k
    using drop_all_closed [of ?l po k E] a assms that by simp
  then show "\<forall>k \<in> set (j # js). \<exists>c. po_conns (idleCheck E po) k = Some c \<and> c_state c = Closed" unfolding e by simp
qed (auto simp: idleCheck_def Let_def)

definition two_idle :: pool where
  "two_idle = silent_pool\<lparr>po_conns := [0 \<mapsto> mk_conn open_env 0, 1 \<mapsto> (mk_conn open_env 1)\<lparr>c_state := Idling, relay := Open, refCount := 2\<rparr>],
     po_proxy := new_proxy\<lparr>connections := [0, 1], idleTimestamp := 1\<rparr>\<rparr>"

theorem idle_check_keeps_one_witness:
  "connections (po_proxy (idleCheck (open_env\<lparr>pe_now := 400000\<rparr>) two_idle)) = [0] \<and>
   (\<exists>c. po_conns (idleCheck (open_env\<lparr>pe_now := 400000\<rparr>) two_idle) 1 = Some c \<and> c_state c = Closed)"
  using idle_check_keeps_one [of two_idle "open_env\<lparr>pe_now := 400000\<rparr>" 0 1 "[]"] by (simp add: two_idle_def new_proxy_def)

subsection \<open>Further facts\<close>

text \<open>
  A connection that closes while its upstream handle is still closing is never taken out of the list: \<^verbatim>\<open>close\<close> returns before it reaches the relay, and
  a second call does nothing.
\<close>

lemma half_closed_stays:
  assumes "upstream (pc w) = Closing" and "c_state (pc w) \<noteq> Closed"
  shows "c_state (pc (pc_close E w)) = Closed" "relay (pc (pc_close E w)) = relay (pc w)" "connections (ap (pc_close E w)) = connections (ap w)"
    "periodicCheck E' (pc_close E w) = pc_close E w"
proof -
  show closed: "c_state (pc (pc_close E w)) = Closed" by (rule closed_state)
  show "relay (pc (pc_close E w)) = relay (pc w)" "connections (ap (pc_close E w)) = connections (ap w)"
    using assms by (auto simp: pc_close_def Let_def close_handles_def h_data_def uv_is_closing_def set_state_def onOpenFailed_def onIdle_def
        ap_openFailed_def ap_idle_def)
  show "periodicCheck E' (pc_close E w) = pc_close E w" using closed by (simp add: periodicCheck_def Let_def closed_again)
qed

text \<open>What is saved of the server is what is loaded at the next start.\<close>

lemma service_round_trip:
  assumes "saveServicePeer X s = Some j" and "os_id X (os_idText X (serverId s)) = Some (serverId s)" "os_idText X (serverId s) \<noteq> []"
    and "persistPath s' = persistPath s" "serverPeerId s' = serverPeerId s" "serverPeerId s \<noteq> []"
  shows "loadServicePeer (X\<lparr>os_cache := Some j\<rparr>) s' = (True, s'\<lparr>serverHost := serverHost s, serverPort := serverPort s, serverId := serverId s\<rparr>)"
  using assms by (auto simp: saveServicePeer_def loadServicePeer_def json_string_def json_int_def Let_def split: if_splits)

lemma ebind_Inr: "ebind x f = Inr y \<longleftrightarrow> (\<exists>a. x = Inr a \<and> f a = Inr y)"
  by (simp add: ebind_def split: sum.splits)

lemma guard_Inr: "((if b then Inl e else x) = Inr y) = (\<not> b \<and> x = Inr y)" "((if b then x else Inl e) = Inr y) = (b \<and> x = Inr y)"
  by simp_all

lemma optional_keeps: "optional configure k cast upd v = Inr v' \<Longrightarrow> (\<And>x v. f (upd x v) = f v) \<Longrightarrow> f v' = f v"
  by (auto simp: optional_def ebind_Inr split: option.splits)

lemma load_keeps: "loadServicePeer X s = (b, s') \<Longrightarrow> upstreamHost s' = upstreamHost s \<and> upstreamPort s' = upstreamPort s"
  by (auto simp: loadServicePeer_def Let_def split: if_splits option.splits)

lemma locate_keeps: "locate_service X qs s = (b, s') \<Longrightarrow> upstreamHost s' = upstreamHost s \<and> upstreamPort s' = upstreamPort s"
  by (induction qs arbitrary: s) (auto simp: Let_def split: option.splits)

lemma find_server_keeps:
  assumes "find_server X configure s = Inr s'"
  shows "upstreamHost s' = upstreamHost s \<and> upstreamPort s' = upstreamPort s"
proof (cases "configure ''serverPeerId''")
  case None
  then show ?thesis using assms by (auto simp: find_server_def ebind_Inr split: option.splits)
next
  case (Some a)
  then obtain peer where "cast_string a = Inr peer" using assms by (auto simp: find_server_def ebind_Inr)
  obtain b s1 where l: "loadServicePeer X (s\<lparr>serverPeerId := peer\<rparr>) = (b, s1)" by fastforce
  then have s1: "upstreamHost s1 = upstreamHost s \<and> upstreamPort s1 = upstreamPort s" using load_keeps by fastforce
  show ?thesis
  proof (cases b)
    case True
    then show ?thesis using assms Some \<open>cast_string a = _\<close> l s1 by (simp add: find_server_def ebind_def)
  next
    case False
    then have "ebind (lookupServicePeer X s1) (\<lambda>(found, s2). if found then Inr s2 else Inl (Invalid ''no service'')) = Inr s'"
      using assms Some \<open>cast_string a = _\<close> l by (simp add: find_server_def ebind_def [of "Inr peer"])
    then obtain found where "lookupServicePeer X s1 = Inr (found, s')" by (auto simp: ebind_Inr guard_Inr)
    then show ?thesis using s1 locate_keeps [of X _ s1 found s'] by (auto simp: lookupServicePeer_def Let_def split: option.splits if_splits)
  qed
qed

text \<open>An accepted configuration names an upstream service and a server.\<close>

lemma initialize_complete:
  assumes "ap_initialize X configure s = Inr s'"
  shows "upstreamHost s' \<noteq> [] \<and> upstreamPort s' \<noteq> 0 \<and> serverHost s' \<noteq> [] \<and> serverPort s' \<noteq> 0"
proof -
  obtain h port s2 s3 s4 s5 where c: "h \<noteq> []" "port \<noteq> (0 :: u16)" "find_server X configure (s2\<lparr>upstreamHost := h, upstreamPort := port\<rparr>) = Inr s3"
    "serverHost s3 \<noteq> [] \<and> serverPort s3 \<noteq> 0"
    and o: "optional configure ''peerPrivateKey'' cast_string (\<lambda>k s. s\<lparr>peerPrivateKey := Some k\<rparr>) s3 = Inr s4"
    "optional configure ''domainName'' cast_string (\<lambda>d s. s\<lparr>domainName := d\<rparr>) s4 = Inr s5"
    "optional configure ''maxConnections'' cast_int (\<lambda>m s. s\<lparr>sv_maxConnections := word_of_int m\<rparr>) s5 = Inr s'"
    using assms by (cases "configure ''upstreamHost''"; cases "configure ''upstreamPort''") (auto simp: ap_initialize_def ebind_Inr guard_Inr Let_def)
  define f where "f v = (upstreamHost v, upstreamPort v, serverHost v, serverPort v)" for v :: service
  have "f s4 = f s3" by (rule optional_keeps [OF o(1)]) (simp add: f_def)
  moreover have "f s5 = f s4" by (rule optional_keeps [OF o(2)]) (simp add: f_def)
  moreover have "f s' = f s5" by (rule optional_keeps [OF o(3)]) (simp add: f_def)
  ultimately have "f s' = f s3" by simp
  then show ?thesis using c find_server_keeps [OF c(3)] by (simp add: f_def)
qed

end
