(* ===== verification/Configurations.thy ===== *)
theory Configurations
  imports Messages
begin

text \<open>
  The configuration of a node, \<^verbatim>\<open>include/boson/default_configuration.h\<close> and \<^verbatim>\<open>src/core/default_configuration.cc\<close>: the builder, reading a
  JSON document into it, and the configuration it makes. The file system, the reading of identifiers and addresses from text and
  the addresses of the machine are the fields of a record. An operation that throws gives the message beside the builder as it was left.
\<close>

datatype config_file = Missing | IsDirectory | Unopenable | Content "json option" \<comment> \<open>\<open>None\<close>: not a JSON document\<close>

record machine =
  mc_home :: string
  mc_file :: "string \<Rightarrow> config_file"
  mc_id :: "string \<Rightarrow> id option"
  mc_addr :: "string \<Rightarrow> int \<Rightarrow> sockaddr option"
  mc_local4 :: string
  mc_local6 :: string

record builder =
  autoAddr4 :: bool
  autoAddr6 :: bool
  bd_ip4 :: string
  bd_ip6 :: string
  bd_port :: int
  bd_storagePath :: string
  bd_bootstraps :: "node_info list"
  bd_addons :: "(string \<times> json) list"

definition mk_builder :: builder where
  "mk_builder = \<lparr>autoAddr4 = True, autoAddr6 = False, bd_ip4 = [], bd_ip6 = [], bd_port = 39001, bd_storagePath = [], bd_bootstraps = [], bd_addons = []\<rparr>"

type_synonym built = "string option \<times> builder"

definition and_then :: "built \<Rightarrow> (builder \<Rightarrow> built) \<Rightarrow> built" where
  "and_then r f = (case r of (None, b) \<Rightarrow> f b | (Some e, b) \<Rightarrow> (Some e, b))"

definition expanduser :: "machine \<Rightarrow> string \<Rightarrow> string" where
  "expanduser M path = (if CHR ''~'' \<in> set path then mc_home M @ drop 1 path else path)"

definition setStoragePath :: "machine \<Rightarrow> string \<Rightarrow> builder \<Rightarrow> builder" where
  "setStoragePath M path b = b\<lparr>bd_storagePath := (if path \<noteq> [] then expanduser M path else path)\<rparr>"

definition setListeningPort :: "int \<Rightarrow> builder \<Rightarrow> built" where
  "setListeningPort port b = (if port \<le> 0 \<or> port > 65535 then (Some ''Invalid port'', b) else (None, b\<lparr>bd_port := port\<rparr>))"

definition addBootstrap :: "machine \<Rightarrow> string \<Rightarrow> string \<Rightarrow> int \<Rightarrow> builder \<Rightarrow> built" where
  "addBootstrap M idstr addr port b =
     (case (mc_id M idstr, mc_addr M addr port) of
        (Some i, Some a) \<Rightarrow> (None, b\<lparr>bd_bootstraps := bd_bootstraps b @ [\<lparr>n_id = i, n_addr = a, n_version = 0\<rparr>]\<rparr>)
      | _ \<Rightarrow> (Some ''Invalid bootstrap node'', b))"

text \<open>Members of the document; \<^verbatim>\<open>contains\<close> of a value that is not an object is false.\<close>

definition member :: "json \<Rightarrow> string \<Rightarrow> json option" where
  "member j k = (case j of JObj ms \<Rightarrow> map_of ms k | _ \<Rightarrow> None)"

fun get_bool :: "json \<Rightarrow> bool option" where
  "get_bool (JBool x) = Some x"
| "get_bool _ = None"

definition typed :: "'a option \<Rightarrow> ('a \<Rightarrow> builder \<Rightarrow> built) \<Rightarrow> builder \<Rightarrow> built" where
  "typed x f b = (case x of None \<Rightarrow> (Some ''type error'', b) | Some v \<Rightarrow> f v b)"

definition if_member :: "json \<Rightarrow> string \<Rightarrow> (json \<Rightarrow> builder \<Rightarrow> built) \<Rightarrow> builder \<Rightarrow> built" where
  "if_member j k f b = (case member j k of None \<Rightarrow> (None, b) | Some v \<Rightarrow> f v b)"

text \<open>The parts of \<^verbatim>\<open>load\<close>: addresses, bootstrap nodes, addons.\<close>

definition load_addresses :: "json \<Rightarrow> builder \<Rightarrow> built" where
  "load_addresses root b =
     and_then (typed (case member root ''ipv4'' of None \<Rightarrow> Some True | Some v \<Rightarrow> get_bool v)
         (\<lambda>enabled b. let b = b\<lparr>autoAddr4 := enabled\<rparr> in
            if enabled then if_member root ''address4'' (\<lambda>v. typed (get_str v) (\<lambda>s b. (None, b\<lparr>bd_ip4 := s\<rparr>))) b else (None, b)) b)
       (typed (case member root ''ipv6'' of None \<Rightarrow> Some False | Some v \<Rightarrow> get_bool v)
         (\<lambda>enabled b. let b = b\<lparr>autoAddr6 := enabled\<rparr> in
            if enabled then if_member root ''address6'' (\<lambda>v. typed (get_str v) (\<lambda>s b. (None, b\<lparr>bd_ip6 := s\<rparr>))) b else (None, b)))"

definition load_bootstrap :: "machine \<Rightarrow> json \<Rightarrow> builder \<Rightarrow> built" where
  "load_bootstrap M j b =
     (case (member j ''id'', member j ''address'', member j ''port'') of
        (None, _, _) \<Rightarrow> (Some ''Config file error: bootstap node id'', b)
      | (_, None, _) \<Rightarrow> (Some ''Config file error: bootstap node address'', b)
      | (_, _, None) \<Rightarrow> (Some ''Config file error: bootstap node port'', b)
      | (Some i, Some a, Some p) \<Rightarrow>
          typed (get_str i) (\<lambda>i. typed (get_str a) (\<lambda>a. typed (get_int p) (\<lambda>p. addBootstrap M i a p))) b)"

definition load_addon :: "json \<Rightarrow> builder \<Rightarrow> built" where
  "load_addon j b =
     (case member j ''name'' of
        None \<Rightarrow> (Some ''Config file error: name'', b)
      | Some n \<Rightarrow> typed (get_str n) (\<lambda>name b.
          (case member j ''configuration'' of
             None \<Rightarrow> (Some ''Config file error: configuration'', b)
           | Some c \<Rightarrow> (None, b\<lparr>bd_addons := (name, c) # filter (\<lambda>(k, _). k \<noteq> name) (bd_addons b)\<rparr>))) b)"

fun load_each :: "(json \<Rightarrow> builder \<Rightarrow> built) \<Rightarrow> json list \<Rightarrow> builder \<Rightarrow> built" where
  "load_each f [] b = (None, b)"
| "load_each f (j # js) b = and_then (f j b) (load_each f js)"

definition load_array :: "string \<Rightarrow> (json \<Rightarrow> builder \<Rightarrow> built) \<Rightarrow> json \<Rightarrow> builder \<Rightarrow> built" where
  "load_array err f v b = (case v of JArr js \<Rightarrow> load_each f js b | _ \<Rightarrow> (Some err, b))"

definition load_root :: "machine \<Rightarrow> json \<Rightarrow> builder \<Rightarrow> built" where
  "load_root M root b =
     and_then (load_addresses root b) (\<lambda>b.
     and_then (if_member root ''port'' (\<lambda>v. typed (get_int v) setListeningPort) b) (\<lambda>b.
     and_then (if_member root ''dataDir'' (\<lambda>v. typed (get_str v) (\<lambda>s b. (None, setStoragePath M s b))) b) (\<lambda>b.
     and_then (if_member root ''bootstraps'' (load_array ''Config file error: bootstaps'' (load_bootstrap M)) b)
       (if_member root ''addons'' (load_array ''Config file error: addons'' load_addon)))))"

definition config_load :: "machine \<Rightarrow> string \<Rightarrow> builder \<Rightarrow> built" where
  "config_load M filePath b =
     (let path = expanduser M filePath in
      if path = [] then (Some ''Invalid configuration file path'', b)
      else case mc_file M path of
             Missing \<Rightarrow> (Some ''not exist'', b)
           | IsDirectory \<Rightarrow> (Some ''should not be a directory'', b)
           | Unopenable \<Rightarrow> (Some ''Opening configuration failed'', b)
           | Content None \<Rightarrow> (Some ''parse error'', b)
           | Content (Some root) \<Rightarrow> load_root M root b)"

definition config_reset :: "builder \<Rightarrow> builder" where
  "config_reset b =
     b\<lparr>autoAddr4 := True, autoAddr6 := False, bd_ip4 := [], bd_ip6 := [], bd_port := 39001, bd_storagePath := [], bd_bootstraps := [], bd_addons := []\<rparr>"

text \<open>\<^verbatim>\<open>build\<close> and the constructor it calls: the first address that cannot be read ends the block that sets both.\<close>

definition config_build :: "machine \<Rightarrow> builder \<Rightarrow> builder \<times> sockaddr option \<times> sockaddr option" where
  "config_build M b =
     (let b = (if autoAddr4 b \<and> bd_ip4 b = [] then b\<lparr>bd_ip4 := mc_local4 M\<rparr> else b);
          b = (if autoAddr6 b \<and> bd_ip6 b = [] then b\<lparr>bd_ip6 := mc_local6 M\<rparr> else b)
      in (b,
          if bd_ip4 b = [] then (None, if bd_ip6 b = [] then None else mc_addr M (bd_ip6 b) (bd_port b))
          else case mc_addr M (bd_ip4 b) (bd_port b) of
                 None \<Rightarrow> (None, None)
               | Some a \<Rightarrow> (Some a, if bd_ip6 b = [] then None else mc_addr M (bd_ip6 b) (bd_port b))))"

section \<open>Correctness\<close>

definition port_ok :: "builder \<Rightarrow> bool" where
  "port_ok b \<longleftrightarrow> 0 < bd_port b \<and> bd_port b \<le> 65535"

definition extends :: "builder \<Rightarrow> builder \<Rightarrow> bool" where
  "extends b b' \<longleftrightarrow> (port_ok b \<longrightarrow> port_ok b') \<and> (\<exists>ns. bd_bootstraps b' = bd_bootstraps b @ ns)"

lemma extends_refl [simp]: "extends b b"
  by (simp add: extends_def)

lemma extends_trans: "extends a b \<Longrightarrow> extends b c \<Longrightarrow> extends a c"
  by (auto simp: extends_def)

lemma extends_and_then: "extends a (snd r) \<Longrightarrow> (\<And>b. extends b (snd (f b))) \<Longrightarrow> extends a (snd (and_then r f))"
  by (auto simp: and_then_def split: prod.splits option.splits intro: extends_trans)

lemma extends_typed: "(\<And>v b. extends b (snd (f v b))) \<Longrightarrow> extends b (snd (typed x f b))"
  by (simp add: typed_def split: option.splits)

lemma extends_member: "(\<And>v b. extends b (snd (f v b))) \<Longrightarrow> extends b (snd (if_member j k f b))"
  by (simp add: if_member_def split: option.splits)

lemma extends_each: "(\<And>j b. extends b (snd (f j b))) \<Longrightarrow> extends b (snd (load_each f js b))"
proof (induction js arbitrary: b)
  case (Cons j js)
  show ?case unfolding load_each.simps by (rule extends_and_then) (use Cons in blast)+
qed simp

lemma extends_array: "(\<And>j b. extends b (snd (f j b))) \<Longrightarrow> extends b (snd (load_array e f v b))"
  by (auto simp: load_array_def extends_each split: json.splits)

lemmas extends_rules = extends_and_then extends_typed extends_member extends_array

lemma addresses_extend: "extends b (snd (load_addresses root b))"
proof -
  have e4: "extends b (snd (typed x (\<lambda>enabled b. let b = b\<lparr>autoAddr4 := enabled\<rparr> in
      if enabled then if_member root k (\<lambda>v. typed (get_str v) (\<lambda>s b. (None, b\<lparr>bd_ip4 := s\<rparr>))) b else (None, b)) b))" for b x k
    by (auto simp: typed_def if_member_def extends_def port_ok_def Let_def split: option.splits)
  have e6: "extends b (snd (typed x (\<lambda>enabled b. let b = b\<lparr>autoAddr6 := enabled\<rparr> in
      if enabled then if_member root k (\<lambda>v. typed (get_str v) (\<lambda>s b. (None, b\<lparr>bd_ip6 := s\<rparr>))) b else (None, b)) b))" for b x k
    by (auto simp: typed_def if_member_def extends_def port_ok_def Let_def split: option.splits)
  show ?thesis unfolding load_addresses_def by (rule extends_and_then [OF e4 e6])
qed

lemma bootstrap_extends: "extends b (snd (load_bootstrap M j b))"
proof -
  have "extends b (snd (addBootstrap M i a p b))" for i a p b by (auto simp: addBootstrap_def extends_def port_ok_def split: option.splits)
  then show ?thesis by (auto simp: load_bootstrap_def intro!: extends_typed split: option.splits)
qed

lemma addon_extends: "extends b (snd (load_addon j b))"
  by (auto simp: load_addon_def extends_def port_ok_def typed_def split: option.splits)

lemma root_extends: "extends b (snd (load_root M root b))"
proof -
  have "extends b (snd (setListeningPort p b))" "extends b (setStoragePath M s b)" for p s b
    by (auto simp: setListeningPort_def setStoragePath_def extends_def port_ok_def)
  then show ?thesis unfolding load_root_def
    by (intro extends_rules addresses_extend bootstrap_extends addon_extends) simp_all
qed

text \<open>
  Whatever a configuration file contains, and also when reading it throws, the port of the builder stays a valid one and the bootstrap nodes it had are
  kept in front of those that were read; a file that cannot be read changes nothing.
\<close>

theorem config_load_safe:
  assumes "port_ok b" and "config_load M path b = (e, b')"
  shows "port_ok b' \<and> (\<exists>ns. bd_bootstraps b' = bd_bootstraps b @ ns) \<and>
    (mc_file M (expanduser M path) \<notin> range (\<lambda>root. Content (Some root)) \<longrightarrow> e \<noteq> None \<and> b' = b)"
proof -
  have "extends b b'" using assms(2) root_extends [of b M]
    by (auto simp: config_load_def Let_def split: if_splits config_file.splits option.splits) (metis snd_conv)
  moreover have "e \<noteq> None \<and> b' = b" if "mc_file M (expanduser M path) \<notin> range (\<lambda>root. Content (Some root))"
    using that assms(2) by (auto simp: config_load_def Let_def split: if_splits config_file.splits option.splits)
  ultimately show ?thesis using assms(1) by (auto simp: extends_def)
qed

text \<open>A tilde that is not the first character: the first character of the path is lost.\<close>

lemma expanduser_elsewhere: "CHR ''~'' \<in> set path \<Longrightarrow> expanduser M (c # path) = mc_home M @ path"
  by (simp add: expanduser_def)

end
