(* ===== verification/Spec2Isabelle.thy ===== *)
theory Spec2Isabelle
  imports Announcing Node_Api Dht_Jobs Schedulers Active_Proxy Configurations
begin

text \<open>
  Boson native node.

  The program is a node of a Kademlia-style distributed hash table that speaks encrypted CBOR messages over UDP, with an
  active proxy that offers a local service through a relay server. A \<^verbatim>\<open>Node\<close> owns at most two \<^verbatim>\<open>DHT\<close> objects (IPv4 and
  IPv6), one \<^verbatim>\<open>RPCServer\<close> with a \<^verbatim>\<open>Scheduler\<close>, one \<^verbatim>\<open>TokenManager\<close> and one \<^verbatim>\<open>DataStorage\<close>. The server
  decrypts a datagram, matches a response to the pending \<^verbatim>\<open>RPCCall\<close> and hands the message to the DHT of the address
  family. The DHT answers requests from its \<^verbatim>\<open>RoutingTable\<close> and the storage and keeps the table up to date with the
  senders of answers; lookups and announcements are \<^verbatim>\<open>Task\<close> objects run by a \<^verbatim>\<open>TaskManager\<close>.

  \<^bold>\<open>Conventions.\<close> One theory per component; a struct or class is a record, an enum a datatype, a method a function that
  returns the new state. Machine integers are words (\<open>u8\<close> to \<open>u64\<close>) where the code can wrap and \<open>int\<close> or \<open>nat\<close>
  otherwise. Exceptions are \<open>Inl\<close> or a flag beside the state that was reached, undefined behaviour and null
  dereferences are \<open>None\<close>. \<^verbatim>\<open>currentTimeMillis()\<close> is an argument \<open>now\<close>; random numbers are arguments. Pointer identity is
  a number (\<open>e_ref\<close>, job handles, task and connection numbers). Code that is not part of the repository is a parameter:
  libsodium, SHA-256 and Unicode normalisation (records \<open>crypto\<close> and \<open>sodium\<close>, laws \<open>sign_ok\<close>, \<open>box_ok\<close>, \<open>sodium_ok\<close>, \<open>hex_ok\<close>), the CBOR codec and
  the sockets (record \<open>env\<close>), libuv (\<open>pe_uv\<close>, contract \<open>uv_contract\<close>); SQLite is modelled by the meaning of the
  statements the code prepares.

  \<^bold>\<open>Foundations.\<close> \<open>Prelude\<close>: bytes, big-endian numbers, \<^verbatim>\<open>memcmp\<close>, stable sort and merge. \<open>Constants\<close>:
  \<^verbatim>\<open>constants.cc\<close>. \<open>Ids\<close>: \<^verbatim>\<open>id.h\<close>, \<^verbatim>\<open>id.cc\<close>; every operation is related to the 256-bit number \<open>id_val\<close>, so
  comparison and XOR distance are arithmetic. \<open>Prefixes\<close>: \<^verbatim>\<open>prefix.cc\<close>; a prefix is an interval of identifiers and
  splitting halves it. \<open>Socket_Address\<close>: \<^verbatim>\<open>socket_address.cc\<close>, addresses as bytes of \<^verbatim>\<open>sockaddr_in\<close>.
  \<open>Base58\<close>: \<^verbatim>\<open>crypto/base58.cc\<close> with its digit buffers; decoding inverts encoding. \<open>Crypto_Wrappers\<close>:
  \<^verbatim>\<open>crypto/signature.cc\<close>, \<^verbatim>\<open>crypto/crypto_box.cc\<close>, \<^verbatim>\<open>crypto_context.cc\<close>, \<^verbatim>\<open>utils/loading_cache.h\<close>, \<^verbatim>\<open>crypto_cache.h\<close> and
  \<^verbatim>\<open>crypto/hex.cc\<close>; the assertions on sizes abort a build without \<^verbatim>\<open>NDEBUG\<close> (\<open>so_ndebug\<close>) before the exception that follows them is thrown; the
  cache of contexts is transparent, two nodes decrypt each other's boxes.

  \<^bold>\<open>Routing.\<close> \<open>Bucket_Entry\<close> (\<^verbatim>\<open>kbucket_entry.cc\<close>), \<open>KBuckets\<close> (\<^verbatim>\<open>kbucket.cc\<close>; invariant \<open>bucket_inv\<close>, contract
  \<open>put_spec\<close> of \<^verbatim>\<open>_put\<close>), \<open>Routing_Table\<close> (\<^verbatim>\<open>routing_table.cc\<close>), \<open>Routing_Invariant\<close> (the buckets tile the key
  space; splitting and merging), \<open>Routing_Maintenance\<close>, and \<open>Node_Table\<close>: the locale \<open>node_table\<close> is the
  interface of a table (lookup, put, remove), interpreted on the model; reachable tables, termination of \<^verbatim>\<open>_put\<close> and its effect on the bucket
  that covers the node, safety of the maintenance loop. \<open>KClosest\<close> (\<^verbatim>\<open>kclosest_nodes.cc\<close>): the search of the nodes closest to a target; no
  node left out shares a longer prefix with the target than one returned.

  \<^bold>\<open>Data and wire.\<close> \<open>Values\<close> (\<^verbatim>\<open>value.cc\<close>, \<^verbatim>\<open>peer_info.cc\<close>), \<open>Messages\<close> (\<^verbatim>\<open>messages/*\<close>, \<^verbatim>\<open>serializers.cc\<close>;
  parsing inverts serialising for every message type), \<open>Tokens\<close> (\<^verbatim>\<open>token_manager.cc\<close>), \<open>Statistics\<close>
  (\<^verbatim>\<open>rpcstatistics.cc\<close>, \<^verbatim>\<open>version.cc\<close>), \<open>Storage\<close> (\<^verbatim>\<open>sqlite_storage.cc\<close>): the two tables as association lists;
  the locale \<open>value_store\<close> states what a store of values promises (what a get returns after a put, that a sequence number never falls),
  interpreted on the model.

  \<^bold>\<open>Messaging.\<close> \<open>Schedulers\<close> (\<^verbatim>\<open>scheduler.h\<close>), \<open>Rpc_Calls\<close> (\<^verbatim>\<open>rpccall.cc\<close>), \<open>Rpc_Server\<close>
  (\<^verbatim>\<open>rpcserver.cc\<close>): pending calls are stored under unique transaction identifiers and watched by a timer, only an answer
  from the address asked is matched, a datagram is received as it was sent. \<open>Dht\<close> (\<^verbatim>\<open>dht.cc\<close>): the handlers of all messages
  over the state \<open>node\<close>; in every state reached by packets the tables partition the identifiers and the store is
  authentic, only verified nodes enter a table, the store changes only with a token.

  \<^bold>\<open>Tasks.\<close> \<open>Candidates\<close> (\<^verbatim>\<open>task/closest_candidates.cc\<close>, \<^verbatim>\<open>closest_set.h\<close>), \<open>Lookups\<close> (\<^verbatim>\<open>task/task.cc\<close>,
  \<^verbatim>\<open>lookup_task.cc\<close>, \<^verbatim>\<open>node_lookup.cc\<close>, \<^verbatim>\<open>value_lookup.cc\<close>): a state machine whose steps are the ends of calls; a
  running node lookup has a pending call and every end of a call lowers a weight. \<open>Tasks\<close> (\<^verbatim>\<open>value_announce.cc\<close>,
  \<^verbatim>\<open>peer_announce.cc\<close>, \<^verbatim>\<open>task_manager.cc\<close>, and the results of lookups in \<^verbatim>\<open>dht.cc\<close>): announcements ask every node, the
  queue is first in first out, a lookup reports an authentic newest value. \<open>Announcing\<close> (\<^verbatim>\<open>DHT::storeValue\<close>,
  \<^verbatim>\<open>DHT::announcePeer\<close>): the lookup followed by the announcement; the caller is told once, with the closest set of the
  lookup; every node of it was asked if the announcement finished, but not if it was cancelled.

  \<^bold>\<open>The node.\<close> \<open>Dht_Jobs\<close> (the periodic jobs of \<^verbatim>\<open>dht.cc\<close> and \<^verbatim>\<open>ping_refresh_task.cc\<close>): start, stop, update, bootstrapping and the
  refresh of a bucket. \<open>Node_Api\<close> (\<^verbatim>\<open>node.cc\<close>, \<^verbatim>\<open>result.h\<close>): identity files, start and stop, the
  futures of lookups and stores, the re-announcement of persistent values. The locales \<open>counted_future\<close> (a future that waits for all
  DHTs) and \<open>early_future\<close> (one that the first result may set) are interpreted on the completion handlers.
  \<open>Configurations\<close> (\<^verbatim>\<open>default_configuration.cc\<close>): the builder of a configuration; whatever a configuration file
  contains, the port stays valid and the bootstrap nodes are only extended.

  \<^bold>\<open>Active proxy.\<close> \<open>Proxy_Packets\<close> (\<^verbatim>\<open>packettype.h\<close>, the frame of a packet), \<open>Proxy_Connection\<close>
  (\<^verbatim>\<open>connection.cc\<close>: state machine, stream framing against the reference \<open>packets_of\<close>, relaying in both directions),
  \<open>Proxy_References\<close> (the count of references is exact for every sequence of events that strands no connection, under \<open>uv_contract\<close>, which lets libuv
  refuse any call; and the two traces on which the code breaks it), \<open>Active_Proxy\<close> (\<^verbatim>\<open>activeproxy.cc\<close>): the
  locales \<open>proxy_handlers\<close> and \<open>pool_handlers\<close> give the proxy's view of a connection: what the handlers keep is kept by
  every event.

  \<^bold>\<open>Termination and fuel.\<close> Loops are structural or have a measure, except those the code does not bound:
  \<open>rt_put\<close>, \<open>s_run\<close> and \<open>relay_loop\<close> are partial functions, with theorems that they return (\<open>put_ends_and_refines\<close>,
  \<open>run_all_due\<close>, \<open>relay_stream_framing\<close>) and where they do not (\<open>undersized_packets\<close>). The loop of
  \<^verbatim>\<open>flushQueue\<close> in \<^verbatim>\<open>rpcserver.cc\<close> has fuel: it spins while the socket blocks, as \<open>periodic_spins_while_blocked\<close> shows for every amount of
  fuel. Theorems about ages assume times below \<open>2 ^ 63\<close> milliseconds, those about reference counts fewer than \<open>2 ^ 31\<close>
  requests at a time.

  \<^bold>\<open>Limits of definitions.\<close> A job function of the scheduler can add jobs only (\<open>s_exec\<close>); \<open>rt_maintenance\<close> records the refreshes that are asked for,
  not which of them find a task running; \<open>sendData\<close> takes encryption as total; \<open>openUpstream\<close> ends with \<open>HandleReused\<close> where libuv's behaviour
  is undefined; the handlers of a call are reported by \<open>matchResponse\<close> before the message and run in the models of the tasks.

  \<^bold>\<open>Not modelled.\<close> Threads and locks (each operation is atomic; the tables of the code are guarded by mutexes), sockets and
  the receive loop, opening and migrating the database, the parsing of JSON text and logging: they are calls into the
  operating system or libraries. Display functions (\<^verbatim>\<open>toString\<close>), size estimates, the crawler, the launcher and the shell under
  \<^verbatim>\<open>apps\<close> have no state of their own that other parts rely on.
\<close>

section \<open>Across components\<close>

text \<open>
  C30: announcing a value works. A node that asked for the closest nodes of a value with a token, and was answered, can store the
  value with that token from the same address during the next five minutes, whatever other requests the token manager served
  in between, if the store has no objection; the value is then found for two hours.
\<close>

theorem store_after_lookup:
  assumes "wantToken q" and "onFindNode E this q m nd = Some (nd1, t1)"
    and "tm_timestamp (nd_tokens nd) \<le> env_now E" and "sorted (env_now E # nows @ [env_now F])" and "unat (env_now F) \<le> unat (env_now E) + 300000"
    and "env_crypto F = env_crypto E" and "nd_tokens nd2 = tm_run nows (nd_tokens nd1)"
    and "getValue f = Inr v" and "v_getId (env_crypto F) v = Some (lr_target q)" and "v_isValid (env_crypto F) v"
    and "st_putValue (env_crypto F) (env_now F) v e False False (nd_storage nd2) = Inr (old, st)"
    and "rm_id m' = rm_id m" and "rm_origin m' = rm_origin m"
  shows "\<exists>r tm tm'. onFindNode E this q m nd = Some (send E m (FindNodeResponse r) (nd\<lparr>nd_tokens := tm\<rparr>)) \<and>
    onStoreValue F (res_token r) f e m' nd2 = Some (send F m' StoreValueResponse (nd2\<lparr>nd_tokens := tm', nd_storage := st\<rparr>)) \<and>
    (\<forall>now. alive_at (env_now F) now \<longrightarrow> st_getValue now (lr_target q) st = Inr (Some v))"
proof -
  obtain token tm where t: "generateToken (c_sha256 (env_crypto E)) (env_now E) (rm_id m) (rm_origin m) (lr_target q) (nd_tokens nd) = (token, tm)"
    by (metis surj_pair)
  moreover obtain r where "populateClosestNodes E this (lr_target q) (wanted (want4 q)) (wanted (want6 q)) nd empty_response = Some r"
    using assms(2) by (auto simp: onFindNode_def split: option.splits)
  ultimately have r: "onFindNode E this q m nd = Some (send E m (FindNodeResponse (r\<lparr>res_token := token\<rparr>)) (nd\<lparr>nd_tokens := tm\<rparr>))"
    using assms(1) by (simp add: onFindNode_def)
  then have "nd_tokens nd1 = tm" using assms(2) by (auto simp: send_def split: prod.splits)
  then have "fst (verifyToken (c_sha256 (env_crypto F)) (env_now F) token (rm_id m') (rm_origin m') (lr_target q) (nd_tokens nd2))"
    using token_accepted [OF t assms(3,4,5)] assms(6,7,12,13) by simp
  then obtain tm' where "verifyToken (c_sha256 (env_crypto F)) (env_now F) token (rm_id m') (rm_origin m') (lr_target q) (nd_tokens nd2) = (True, tm')"
    by (metis prod.collapse)
  from onStoreValue_accepts [OF assms(8,9) this assms(10,11)]
  have "onStoreValue F token f e m' nd2 = Some (send F m' StoreValueResponse (nd2\<lparr>nd_tokens := tm', nd_storage := st\<rparr>))" .
  moreover have "st_getValue now (lr_target q) st = Inr (Some v)" if "alive_at (env_now F) now" for now
    using put_get(1) [OF getValue_owned [OF assms(8)] assms(11,9) that] .
  ultimately show ?thesis using r by (intro exI [of _ "r\<lparr>res_token := token\<rparr>"] exI [of _ tm] exI [of _ tm']) auto
qed

definition note_request :: lookup_request where
  "note_request = \<lparr>lr_target = note_id, want4 = True, want6 = False, wantToken = True\<rparr>"

theorem store_after_lookup_witness:
  "\<exists>r tm tm' st nd2. onFindNode silent_env IPv4 note_request (from_outside (FindNodeRequest note_request)) v4_node =
      Some (send silent_env (from_outside (FindNodeRequest note_request)) (FindNodeResponse r) (v4_node\<lparr>nd_tokens := tm\<rparr>)) \<and>
    onStoreValue (silent_env\<lparr>env_now := 9000\<rparr>) (res_token r) (setValue (note_value 5)) (-1) (from_outside store_note) nd2 =
      Some (send (silent_env\<lparr>env_now := 9000\<rparr>) (from_outside store_note) StoreValueResponse (nd2\<lparr>nd_tokens := tm', nd_storage := st\<rparr>)) \<and>
    st_getValue 10000 note_id st = Inr (Some (note_value 5))"
proof -
  let ?m = "from_outside (FindNodeRequest note_request)" and ?F = "silent_env\<lparr>env_now := 9000\<rparr>"
  have "onFindNode silent_env IPv4 note_request ?m v4_node \<noteq> None"
    using populate_total [of note_request v4_node silent_env IPv4 note_id empty_response]
    by (auto simp: onFindNode_def note_request_def v4_node_def split: prod.splits)
  then obtain nd1 t1 where f: "onFindNode silent_env IPv4 note_request ?m v4_node = Some (nd1, t1)" by force
  have st1: "nd_storage nd1 = empty_storage" using lookups_change(1) [OF f] by simp
  obtain st where st: "st_putValue plain_crypto 9000 (note_value 5) (-1) False False empty_storage = Inr (None, st)"
    using note_ok(2,3) note_valid by (auto simp: st_putValue_def st_getValue_def empty_storage_def put_check_def)
  have env: "env_crypto silent_env = plain_crypto" "env_now silent_env = 5000" "env_crypto ?F = plain_crypto" "env_now ?F = 9000"
    by (simp_all add: silent_env_def)
  have "wantToken note_request" "tm_timestamp (nd_tokens v4_node) \<le> env_now silent_env" by (simp_all add: note_request_def v4_node_def env)
  moreover have "sorted (env_now silent_env # [6000] @ [env_now ?F])" "unat (env_now ?F) \<le> unat (env_now silent_env) + 300000" by (simp_all add: env)
  moreover have "getValue (setValue (note_value 5)) = Inr (note_value 5)" "v_getId (env_crypto ?F) (note_value 5) = Some (lr_target note_request)"
    "v_isValid (env_crypto ?F) (note_value 5)" by (simp_all add: note_fields note_ok note_valid env note_request_def)
  moreover have "st_putValue (env_crypto ?F) (env_now ?F) (note_value 5) (-1) False False (nd_storage (nd1\<lparr>nd_tokens := tm_run [6000] (nd_tokens nd1)\<rparr>)) = Inr (None, st)"
    using st st1 by (simp add: env)
  ultimately have "\<exists>r tm tm'. onFindNode silent_env IPv4 note_request ?m v4_node = Some (send silent_env ?m (FindNodeResponse r) (v4_node\<lparr>nd_tokens := tm\<rparr>)) \<and>
      onStoreValue ?F (res_token r) (setValue (note_value 5)) (-1) (from_outside store_note) (nd1\<lparr>nd_tokens := tm_run [6000] (nd_tokens nd1)\<rparr>) =
        Some (send ?F (from_outside store_note) StoreValueResponse ((nd1\<lparr>nd_tokens := tm_run [6000] (nd_tokens nd1)\<rparr>)\<lparr>nd_tokens := tm', nd_storage := st\<rparr>)) \<and>
      (\<forall>now. alive_at (env_now ?F) now \<longrightarrow> st_getValue now (lr_target note_request) st = Inr (Some (note_value 5)))"
    by (intro store_after_lookup [OF _ f]) (simp_all add: env)
  moreover have "alive_at (env_now ?F) 10000" "lr_target note_request = note_id" by (simp_all add: env alive_at_def note_request_def)
  ultimately show ?thesis by metis
qed

end
